(* ===== verification/Prelude.thy ===== *)
theory Prelude
  imports Main "HOL-Library.Word" "HOL-Library.Monad_Syntax" "HOL-Library.List_Lexorder"
begin

text \<open>
  Shared vocabulary of the development: bytes, checked machine arithmetic, panics as
  \<^const>\<open>None\<close>, big-endian values of byte strings, and the generic lemmas on lists and
  options that the component theories use.

  A Rust computation that can panic (a failed \<open>assert!\<close>, an \<open>unwrap\<close> of
  \<open>None\<close>, an index out of bounds, a checked overflow) is a value of type
  \<open>'a option\<close>, where \<^const>\<open>None\<close> is the panic.  Rust's own
  \<open>Option\<close> and \<open>Result\<close> values stay inside: a panicking function that
  returns an \<open>Option\<close> has type \<open>'a option option\<close>.
\<close>

type_synonym u8 = "8 word"
type_synonym u16 = "16 word"
type_synonym u64 = "64 word"
type_synonym bytes = "8 word list"

named_theorems panic_simps \<open>elimination of asserts and binds in the panic monad\<close>
named_theorems len_simps \<open>lengths preserved by the operations\<close>

section \<open>Panics\<close>

definition rust_assert :: "bool \<Rightarrow> unit option" where
  "rust_assert b = (if b then Some () else None)"

lemma rust_assert_simps [simp]:
  "rust_assert True = Some ()"
  "rust_assert False = None"
  by (simp_all add: rust_assert_def)

lemma rust_assert_eq [simp]:
  "rust_assert b = Some u \<longleftrightarrow> b"
  "rust_assert b = None \<longleftrightarrow> \<not> b"
  by (simp_all add: rust_assert_def)

lemma rust_assert_bind_Some [panic_simps]:
  "(rust_assert b \<bind> f) = Some x \<longleftrightarrow> b \<and> f () = Some x"
  by (simp add: rust_assert_def)

lemma rust_assert_bind_None [panic_simps]:
  "(rust_assert b \<bind> f) = None \<longleftrightarrow> \<not> b \<or> f () = None"
  by (simp add: rust_assert_def)

lemma option_bind_Some [panic_simps]:
  "(m \<bind> f) = Some (y :: 'b) \<longleftrightarrow> (\<exists>x. m = Some x \<and> f x = Some y)"
  by (cases m) auto

lemma option_bind_None [panic_simps]:
  "(m \<bind> f) = (None :: 'b option) \<longleftrightarrow> m = None \<or> (\<exists>x. m = Some x \<and> f x = None)"
  by (cases m) auto

definition index_get :: "'a list \<Rightarrow> nat \<Rightarrow> 'a option" where
  "index_get xs i = (if i < length xs then Some (xs ! i) else None)"

definition index_set :: "'a list \<Rightarrow> nat \<Rightarrow> 'a \<Rightarrow> 'a list option" where
  "index_set xs i v = (if i < length xs then Some (xs[i := v]) else None)"

lemma index_get_in [simp]: "i < length xs \<Longrightarrow> index_get xs i = Some (xs ! i)"
  by (simp add: index_get_def)

lemma index_get_out [simp]: "length xs \<le> i \<Longrightarrow> index_get xs i = None"
  by (simp add: index_get_def)

lemma index_set_in [simp]: "i < length xs \<Longrightarrow> index_set xs i v = Some (xs[i := v])"
  by (simp add: index_set_def)

section \<open>Checked 64-bit arithmetic\<close>

definition checked_add1 :: "u64 \<Rightarrow> u64 option" where
  "checked_add1 i = (if i = - 1 then None else Some (i + 1))"

lemma checked_add1_unat:
  assumes "checked_add1 i = Some j"
  shows "unat j = unat i + 1"
proof -
  have "i \<noteq> - 1" and j: "j = i + 1"
    using assms by (auto simp: checked_add1_def split: if_splits)
  then have "i + 1 \<noteq> 0"
    by (simp add: add_eq_0_iff2)
  then show ?thesis
    unfolding j by (metis Suc_eq_plus1 add.commute unatSuc)
qed

lemma checked_add1_less: "checked_add1 i = Some j \<Longrightarrow> i < j"
  using checked_add1_unat [of i j] by (simp add: word_less_nat_alt)

lemma checked_add1_inj:
  "checked_add1 i = Some k \<Longrightarrow> checked_add1 j = Some k \<Longrightarrow> i = j"
  by (auto simp: checked_add1_def split: if_splits)

lemma checked_add1_Some: "i < j \<Longrightarrow> checked_add1 i = Some (i + 1)"
proof -
  assume "i < j"
  then have "i \<noteq> - 1"
    by (metis word_not_simps(3))
  then show ?thesis
    by (simp add: checked_add1_def)
qed

section \<open>Big-endian values\<close>

definition be_val :: "bytes \<Rightarrow> nat" where
  "be_val bs = foldl (\<lambda>a b. a * 256 + unat b) 0 bs"

lemma unat_u8_lt: "unat (b :: u8) < 256"
  using unsigned_less [of b] by simp

lemma be_val_Nil [simp]: "be_val [] = 0"
  by (simp add: be_val_def)

lemma be_val_snoc [simp]: "be_val (bs @ [b]) = be_val bs * 256 + unat b"
  by (simp add: be_val_def)

lemma be_val_foldl: "foldl (\<lambda>a b. a * 256 + unat b) n bs = n * 256 ^ length bs + be_val bs"
  by (induction bs rule: rev_induct) (simp_all add: algebra_simps)

lemma be_val_Cons: "be_val (b # bs) = unat b * 256 ^ length bs + be_val bs"
  using be_val_foldl [of "unat b" bs] by (simp add: be_val_def)

lemma be_val_append: "be_val (xs @ ys) = be_val xs * 256 ^ length ys + be_val ys"
  by (induction ys rule: rev_induct) (simp_all add: algebra_simps flip: append_assoc)

lemma be_val_bound: "be_val bs < 256 ^ length bs"
proof (induction bs rule: rev_induct)
  case (snoc b bs)
  then show ?case
    using unat_u8_lt [of b] by simp
qed simp

lemma be_val_less:
  "length xs = length ys \<Longrightarrow> xs < ys \<longleftrightarrow> be_val xs < be_val ys"
proof (induction xs ys rule: list_induct2)
  case (Cons x xs y ys)
  have bx: "be_val xs < 256 ^ length ys" and bY: "be_val ys < 256 ^ length ys"
    using be_val_bound [of xs] be_val_bound [of ys] Cons.hyps by simp_all
  consider "x < y" | "x = y" | "y < x"
    by (rule linorder_cases)
  then show ?case
  proof cases
    case 1
    then have "unat x + 1 \<le> unat y"
      by (simp add: word_less_nat_alt)
    then have "(unat x + 1) * 256 ^ length ys \<le> unat y * 256 ^ length ys"
      by (rule mult_right_mono) simp
    then show ?thesis
      using 1 bx Cons.hyps by (simp add: be_val_Cons algebra_simps)
  next
    case 2
    then show ?thesis
      using Cons by (simp add: be_val_Cons)
  next
    case 3
    then have "unat y + 1 \<le> unat x"
      by (simp add: word_less_nat_alt)
    then have "(unat y + 1) * 256 ^ length ys \<le> unat x * 256 ^ length ys"
      by (rule mult_right_mono) simp
    then show ?thesis
      using 3 bY Cons.hyps by (auto simp: be_val_Cons algebra_simps)
  qed
qed simp

lemma be_val_inj: "length xs = length ys \<Longrightarrow> be_val xs = be_val ys \<Longrightarrow> xs = ys"
  by (metis be_val_less less_irrefl linorder_neqE)

lemma be_val_le: "length xs = length ys \<Longrightarrow> xs \<le> ys \<longleftrightarrow> be_val xs \<le> be_val ys"
  using be_val_less [of ys xs] by (simp add: not_less [symmetric])

section \<open>Lists\<close>

lemma sorted_wrt_snoc:
  "sorted_wrt P (xs @ [x]) \<longleftrightarrow> sorted_wrt P xs \<and> (\<forall>y\<in>set xs. P y x)"
  by (auto simp: sorted_wrt_append)

lemma map_of_rev_distinct: "distinct (map fst m) \<Longrightarrow> map_of (rev m) = map_of m"
  using map_of_inject_set [of "rev m" m] by (simp add: rev_map [symmetric])

end
