(* ===== verification/BTree.thy ===== *)
theory BTree
  imports Prelude
begin

text \<open>
  The ordered map \<open>alloc::collections::BTreeMap\<close> that the sources use (votes of an
  election, the age index of the LRU cache, the node deltas of the Merkle tree): its entries in
  increasing key order.  The locale \<open>ordered_map\<close> is the contract the clients rely on;
  the interpretation \<open>bt\<close> discharges it for the sorted association list.
\<close>

type_synonym ('k, 'v) btree = "('k \<times> 'v) list"

fun bt_insert :: "'k::linorder \<Rightarrow> 'v \<Rightarrow> ('k, 'v) btree \<Rightarrow> ('k, 'v) btree" where
  "bt_insert k v [] = [(k, v)]"
| "bt_insert k v ((k', v') # m) =
     (if k < k' then (k, v) # (k', v') # m
      else if k = k' then (k, v) # m
      else (k', v') # bt_insert k v m)"

fun bt_remove :: "'k \<Rightarrow> ('k, 'v) btree \<Rightarrow> ('k, 'v) btree" where
  "bt_remove k [] = []"
| "bt_remove k ((k', v') # m) = (if k = k' then m else (k', v') # bt_remove k m)"

definition bt_get :: "('k, 'v) btree \<Rightarrow> 'k \<Rightarrow> 'v option" where
  "bt_get m k = map_of m k"

definition bt_inv :: "('k::linorder, 'v) btree \<Rightarrow> bool" where
  "bt_inv m = sorted_wrt (<) (map fst m)"

definition bt_pop_first :: "('k, 'v) btree \<Rightarrow> ('k \<times> 'v) option \<times> ('k, 'v) btree" where
  "bt_pop_first m = (case m of [] \<Rightarrow> (None, []) | e # m' \<Rightarrow> (Some e, m'))"

locale ordered_map =
  fixes empty :: 'm
    and get :: "'m \<Rightarrow> 'k::linorder \<Rightarrow> 'v option"
    and insert :: "'k \<Rightarrow> 'v \<Rightarrow> 'm \<Rightarrow> 'm"
    and remove :: "'k \<Rightarrow> 'm \<Rightarrow> 'm"
    and entries :: "'m \<Rightarrow> ('k \<times> 'v) list"
    and invar :: "'m \<Rightarrow> bool"
  assumes invar_empty: "invar empty"
    and invar_insert: "invar m \<Longrightarrow> invar (insert k v m)"
    and invar_remove: "invar m \<Longrightarrow> invar (remove k m)"
    and get_empty: "get empty k = None"
    and get_insert: "invar m \<Longrightarrow> get (insert k v m) = (get m)(k \<mapsto> v)"
    and get_remove: "invar m \<Longrightarrow> get (remove k m) = (get m)(k := None)"
    and entries_sorted: "invar m \<Longrightarrow> sorted_wrt (<) (map fst (entries m))"
    and entries_get: "invar m \<Longrightarrow> map_of (entries m) k = get m k"
begin

lemma entries_distinct: "invar m \<Longrightarrow> distinct (map fst (entries m))"
  using entries_sorted strict_sorted_iff by blast

lemma in_entries: "invar m \<Longrightarrow> (k, v) \<in> set (entries m) \<longleftrightarrow> get m k = Some v"
  using entries_distinct entries_get by (metis map_of_eq_Some_iff)

lemma dom_entries: "invar m \<Longrightarrow> dom (get m) = fst ` set (entries m)"
  by (simp add: dom_map_of_conv_image_fst [symmetric] entries_get [symmetric] dom_def)

lemma finite_dom: "invar m \<Longrightarrow> finite (dom (get m))"
  by (simp add: dom_entries)

lemma entries_length: "invar m \<Longrightarrow> length (entries m) = card (dom (get m))"
  by (metis dom_entries distinct_card entries_distinct length_map set_map)

lemma length_insert:
  assumes "invar m"
  shows "length (entries (insert k v m)) =
         (if get m k = None then Suc (length (entries m)) else length (entries m))"
proof (cases "get m k = None")
  case True
  then have "k \<notin> dom (get m)"
    by blast
  with True show ?thesis
    using assms by (simp add: entries_length invar_insert get_insert finite_dom)
next
  case False
  then have "k \<in> dom (get m)"
    by blast
  with False show ?thesis
    using assms by (simp add: entries_length invar_insert get_insert finite_dom insert_absorb)
qed

lemma first_least:
  assumes "invar m" "entries m = (k, v) # r" "get m k' = Some v'"
  shows "k \<le> k'"
proof -
  have "(k', v') \<in> set ((k, v) # r)"
    using assms in_entries by metis
  moreover have "\<forall>k'' \<in> set (map fst r). k < k''"
    using entries_sorted [OF assms(1)] assms(2) by simp
  ultimately show ?thesis
    by (force simp: less_imp_le)
qed

lemma invar_insert_all: "invar m \<Longrightarrow> invar (fold (\<lambda>(k, v). insert k v) kvs m)"
  by (induction kvs arbitrary: m) (auto simp: invar_insert)

lemma get_insert_all:
  "invar m \<Longrightarrow> get (fold (\<lambda>(k, v). insert k v) kvs m) = get m ++ map_of (rev kvs)"
proof (induction kvs arbitrary: m)
  case (Cons kv kvs)
  then show ?case
    by (cases kv) (simp add: invar_insert get_insert map_add_def fun_eq_iff split: option.splits)
qed simp

end

lemma fst_bt_insert: "fst ` set (bt_insert k v m) = insert k (fst ` set m)"
  by (induction k v m rule: bt_insert.induct) auto

lemma bt_inv_insert: "bt_inv m \<Longrightarrow> bt_inv (bt_insert k v m)"
proof (induction k v m rule: bt_insert.induct)
  case (2 k v k' v' m)
  then show ?case
    using fst_bt_insert [of k v m] by (fastforce simp: bt_inv_def)
qed (simp add: bt_inv_def)

lemma set_bt_remove: "set (bt_remove k m) \<subseteq> set m"
  by (induction k m rule: bt_remove.induct) auto

lemma bt_inv_remove: "bt_inv m \<Longrightarrow> bt_inv (bt_remove k m)"
proof (induction k m rule: bt_remove.induct)
  case (2 k k' v' m)
  then show ?case
    using set_bt_remove [of k m] by (auto simp: bt_inv_def)
qed (simp add: bt_inv_def)

lemma bt_get_insert: "bt_inv m \<Longrightarrow> bt_get (bt_insert k v m) = (bt_get m)(k \<mapsto> v)"
proof (induction k v m rule: bt_insert.induct)
  case (2 k v k' v' m)
  then show ?case
    by (auto simp: bt_inv_def bt_get_def fun_eq_iff)
qed (simp add: bt_get_def fun_eq_iff)

lemma bt_get_remove: "bt_inv m \<Longrightarrow> bt_get (bt_remove k m) = (bt_get m)(k := None)"
proof (induction k m rule: bt_remove.induct)
  case (2 k k' v' m)
  have "k' \<notin> fst ` set m"
    using 2(2) by (auto simp: bt_inv_def)
  then have "map_of m k' = None"
    by (simp add: map_of_eq_None_iff)
  with 2 show ?case
    by (auto simp: bt_inv_def bt_get_def fun_eq_iff)
qed (simp add: bt_get_def fun_eq_iff)

interpretation bt: ordered_map "[]" bt_get bt_insert bt_remove "\<lambda>m. m" bt_inv
  by unfold_locales
    (simp_all add: bt_inv_insert bt_inv_remove bt_get_insert bt_get_remove,
     simp_all add: bt_inv_def bt_get_def)

end
