(* ===== verification/BitVec.thy ===== *)
theory BitVec
  imports Prelude "HOL-Library.Sublist"
begin

unbundle bit_operations_syntax

text \<open>
  The crate \<open>bitvec\<close> (\<open>src/bitvec/src/lib.rs\<close>): bit sequences of at most 256 bits
  packed most significant bit first in 32 bytes, slices of them, and the trait
  \<open>Bits\<close> with its default methods.  A \<open>&impl Bits\<close> argument is the record
  \<open>Bits\<close> of the trait's required methods.  The locale \<open>bits_impl\<close> is the contract of
  the trait (length and bit access of a boolean list); it is interpreted for
  \<open>BitVec\<close> and for \<open>BitSlice\<close>, and the default methods are shown to compute the list
  operations that the Merkle tree theories use for their keys.
\<close>

section \<open>The data\<close>

record BitVec =
  bv_len :: nat
  bv_bits :: bytes

record BitSlice =
  bs_vec :: BitVec
  bs_offset :: nat
  bs_len :: nat

record Bits =
  b_len :: nat
  b_at :: "nat \<Rightarrow> bool option"

datatype Bound = Unbounded | Included nat | Excluded nat

datatype Ordering = Less | Equal | Greater

section \<open>BitVec and BitSlice\<close>

definition bv_new :: BitVec where
  "bv_new = \<lparr>bv_len = 0, bv_bits = replicate 32 0\<rparr>"

definition bv_from_bytes :: "bytes \<Rightarrow> BitVec option" where
  "bv_from_bytes bs = do {
     let r = bv_new;
     rust_assert (length bs \<le> length (bv_bits r));
     Some (r\<lparr>bv_bits := bs @ drop (length bs) (bv_bits r), bv_len := length bs * 8\<rparr>)
   }"

definition bv_as_bytes :: "BitVec \<Rightarrow> bytes option" where
  "bv_as_bytes v =
     (let last = (if bv_len v mod 8 = 0 then bv_len v div 8 else bv_len v div 8 + 1)
      in if last \<le> length (bv_bits v) then Some (take last (bv_bits v)) else None)"

definition bit_pos :: "nat \<Rightarrow> nat \<times> u8" where
  "bit_pos bit_num =
     (let byte_index = bit_num div 8;
          bit_index = 7 - (bit_num mod 8);
          bit_mask = push_bit bit_index 1
      in (byte_index, bit_mask))"

definition bv_push :: "BitVec \<Rightarrow> bool \<Rightarrow> BitVec option" where
  "bv_push v b = do {
     rust_assert (bv_len v < length (bv_bits v) * 8);
     let (byte_index, bit_mask) = bit_pos (bv_len v);
     x \<leftarrow> index_get (bv_bits v) byte_index;
     bits' \<leftarrow> index_set (bv_bits v) byte_index (if b then x OR bit_mask else x AND NOT bit_mask);
     Some (v\<lparr>bv_bits := bits', bv_len := bv_len v + 1\<rparr>)
   }"

definition bv_at :: "BitVec \<Rightarrow> nat \<Rightarrow> bool option" where
  "bv_at v bit_num = do {
     rust_assert (bit_num < bv_len v);
     let (byte_index, bit_mask) = bit_pos bit_num;
     x \<leftarrow> index_get (bv_bits v) byte_index;
     Some (x AND bit_mask \<noteq> 0)
   }"

definition bs_at :: "BitSlice \<Rightarrow> nat \<Rightarrow> bool option" where
  "bs_at s b = do {
     rust_assert (b < bs_len s);
     bv_at (bs_vec s) (b + bs_offset s)
   }"

definition bv_bits_impl :: "BitVec \<Rightarrow> Bits" where
  "bv_bits_impl v = \<lparr>b_len = bv_len v, b_at = bv_at v\<rparr>"

definition bs_bits_impl :: "BitSlice \<Rightarrow> Bits" where
  "bs_bits_impl s = \<lparr>b_len = bs_len s, b_at = bs_at s\<rparr>"

definition bounds_to_start_len :: "Bound \<Rightarrow> Bound \<Rightarrow> nat \<Rightarrow> (nat \<times> nat) option" where
  "bounds_to_start_len start_bound end_bound len = do {
     let start = (case start_bound of Unbounded \<Rightarrow> 0 | Included p \<Rightarrow> p | Excluded p \<Rightarrow> p + 1);
     rust_assert (start \<le> len);
     bound_len \<leftarrow>
       (case end_bound of
          Unbounded \<Rightarrow> Some (len - start)
        | Included p \<Rightarrow> do { rust_assert (p \<ge> start); Some (p - start + 1) }
        | Excluded p \<Rightarrow> do { rust_assert (p \<ge> start); Some (p - start) });
     rust_assert (start + bound_len \<le> len);
     Some (start, bound_len)
   }"

definition bv_as_ref :: "BitVec \<Rightarrow> BitSlice" where
  "bv_as_ref v = \<lparr>bs_vec = v, bs_offset = 0, bs_len = bv_len v\<rparr>"

definition bv_slice :: "BitVec \<Rightarrow> Bound \<Rightarrow> Bound \<Rightarrow> BitSlice option" where
  "bv_slice v sb eb = do {
     (start, len) \<leftarrow> bounds_to_start_len sb eb (bv_len v);
     Some \<lparr>bs_vec = v, bs_offset = start, bs_len = len\<rparr>
   }"

definition bs_slice :: "BitSlice \<Rightarrow> Bound \<Rightarrow> Bound \<Rightarrow> BitSlice option" where
  "bs_slice s sb eb = do {
     (start, len) \<leftarrow> bounds_to_start_len sb eb (bs_len s);
     Some \<lparr>bs_vec = bs_vec s, bs_offset = start + bs_offset s, bs_len = len\<rparr>
   }"

section \<open>The trait's default methods\<close>

function bits_iter :: "Bits \<Rightarrow> nat \<Rightarrow> bool list option" where
  "bits_iter src pos =
     (if pos < b_len src
      then do { r \<leftarrow> b_at src pos; rest \<leftarrow> bits_iter src (pos + 1); Some (r # rest) }
      else Some [])"
  by pat_completeness auto
termination
  by (relation "measure (\<lambda>(src, pos). b_len src - pos)") auto

declare bits_iter.simps [simp del]

definition bits_is_empty :: "Bits \<Rightarrow> bool" where
  "bits_is_empty b = (b_len b = 0)"

definition bits_starts_with :: "Bits \<Rightarrow> Bits \<Rightarrow> bool option" where
  "bits_starts_with a b =
     (if b_len b > b_len a then Some False
      else do {
        xs \<leftarrow> bits_iter a 0;
        ys \<leftarrow> bits_iter b 0;
        Some (list_all (\<lambda>(x, y). x = y) (zip xs ys))
      })"

fun bv_push_all :: "BitVec \<Rightarrow> bool list \<Rightarrow> BitVec option" where
  "bv_push_all v [] = Some v"
| "bv_push_all v (b # bs) = do { v' \<leftarrow> bv_push v b; bv_push_all v' bs }"

definition bv_extend :: "BitVec \<Rightarrow> Bits \<Rightarrow> BitVec option" where
  "bv_extend v other = do { bs \<leftarrow> bits_iter other 0; bv_push_all v bs }"

definition bits_to_bitvec :: "Bits \<Rightarrow> BitVec option" where
  "bits_to_bitvec b = bv_extend bv_new b"

definition bv_concat :: "BitVec \<Rightarrow> Bits \<Rightarrow> BitVec option" where
  "bv_concat v other = bv_extend v other"

definition bs_concat :: "BitSlice \<Rightarrow> Bits \<Rightarrow> BitVec option" where
  "bs_concat s other = do { r \<leftarrow> bits_to_bitvec (bs_bits_impl s); bv_extend r other }"

fun position_diff :: "bool list \<Rightarrow> bool list \<Rightarrow> nat option" where
  "position_diff (x # xs) (y # ys) = (if x \<noteq> y then Some 0 else map_option Suc (position_diff xs ys))"
| "position_diff _ _ = None"

definition bs_common_prefix :: "BitSlice \<Rightarrow> Bits \<Rightarrow> BitSlice option" where
  "bs_common_prefix s other = do {
     xs \<leftarrow> bits_iter (bs_bits_impl s) 0;
     ys \<leftarrow> bits_iter other 0;
     case position_diff xs ys of
       None \<Rightarrow> bs_slice s Unbounded (Excluded (min (bs_len s) (b_len other)))
     | Some p \<Rightarrow> bs_slice s Unbounded (Excluded p)
   }"

fun cmp_impl :: "bool list \<Rightarrow> bool list \<Rightarrow> Ordering" where
  "cmp_impl [] [] = Equal"
| "cmp_impl [] (_ # _) = Less"
| "cmp_impl (_ # _) [] = Greater"
| "cmp_impl (True # a) (True # b) = cmp_impl a b"
| "cmp_impl (False # a) (False # b) = cmp_impl a b"
| "cmp_impl (False # _) (True # _) = Less"
| "cmp_impl (True # _) (False # _) = Greater"

definition bits_cmp :: "Bits \<Rightarrow> Bits \<Rightarrow> Ordering option" where
  "bits_cmp a b = do { xs \<leftarrow> bits_iter a 0; ys \<leftarrow> bits_iter b 0; Some (cmp_impl xs ys) }"

section \<open>Abstraction to boolean lists\<close>

definition bits_val :: "bytes \<Rightarrow> nat \<Rightarrow> bool" where
  "bits_val bs i = bit (bs ! (i div 8)) (7 - i mod 8)"

definition bv_abs :: "BitVec \<Rightarrow> bool list" where
  "bv_abs v = map (bits_val (bv_bits v)) [0..<bv_len v]"

definition bv_inv :: "BitVec \<Rightarrow> bool" where
  "bv_inv v \<longleftrightarrow> length (bv_bits v) = 32 \<and> bv_len v \<le> 256 \<and>
     (\<forall>i \<in> {bv_len v..<256}. \<not> bits_val (bv_bits v) i)"

definition bs_abs :: "BitSlice \<Rightarrow> bool list" where
  "bs_abs s = take (bs_len s) (drop (bs_offset s) (bv_abs (bs_vec s)))"

definition bs_inv :: "BitSlice \<Rightarrow> bool" where
  "bs_inv s \<longleftrightarrow> bv_inv (bs_vec s) \<and> bs_offset s + bs_len s \<le> bv_len (bs_vec s)"

definition byte_bits :: "u8 \<Rightarrow> bool list" where
  "byte_bits b = map (\<lambda>k. bit b (7 - k)) [0..<8]"

definition bits_of_bytes :: "bytes \<Rightarrow> bool list" where
  "bits_of_bytes bs = concat (map byte_bits bs)"

definition byte_of_bits :: "bool list \<Rightarrow> u8" where
  "byte_of_bits bs = horner_sum of_bool 2 (rev (take 8 (bs @ replicate 8 False)))"

fun bytes_of_bits :: "bool list \<Rightarrow> bytes" where
  "bytes_of_bits [] = []"
| "bytes_of_bits (b # bs) = byte_of_bits (take 8 (b # bs)) # bytes_of_bits (drop 8 (b # bs))"

section \<open>Bits of packed bytes\<close>

lemma and_mask_ne_0: "(x AND 2 ^ n \<noteq> (0 :: u8)) \<longleftrightarrow> bit x n"
  using bit_iff_and_push_bit_not_eq_0 [of x n] by simp

lemma bit_or_mask: "bit (x OR 2 ^ n :: u8) m \<longleftrightarrow> bit x m \<or> (m = n \<and> n < 8)"
  by (auto simp: bit_simps)

lemma bit_and_not_mask: "bit (x AND NOT (2 ^ n) :: u8) m \<longleftrightarrow> bit x m \<and> m \<noteq> n"
  using bit_imp_le_length [of x m] by (auto simp: bit_simps)

lemma bit_index_inj: "7 - j mod 8 = 7 - i mod 8 \<Longrightarrow> j div 8 = i div 8 \<Longrightarrow> j = (i::nat)"
proof -
  assume a: "7 - j mod 8 = 7 - i mod 8" and b: "j div 8 = i div 8"
  have "j mod 8 < 8" "i mod 8 < 8"
    by simp_all
  with a have "j mod 8 = i mod 8"
    by linarith
  with b show ?thesis
    by (metis div_mult_mod_eq)
qed

lemma bits_val_update:
  assumes "i < 8 * length bs" "j < 8 * length bs"
  shows "bits_val (bs[i div 8 := (if b then bs ! (i div 8) OR push_bit (7 - i mod 8) 1
                                  else bs ! (i div 8) AND NOT (push_bit (7 - i mod 8) 1))]) j =
         (if j = i then b else bits_val bs j)"
proof (cases "j div 8 = i div 8")
  case True
  have i: "i div 8 < length bs"
    using assms(1) by (simp add: less_mult_imp_div_less mult.commute)
  have "(7 - j mod 8 = 7 - i mod 8) = (j = i)"
    using True bit_index_inj by auto
  moreover have "7 - i mod 8 < 8"
    by linarith
  ultimately show ?thesis
    using True i by (simp add: bits_val_def bit_or_mask bit_and_not_mask)
next
  case False
  then show ?thesis
    by (auto simp: bits_val_def)
qed

lemma length_bv_abs [simp]: "length (bv_abs v) = bv_len v"
  by (simp add: bv_abs_def)

lemma bv_push_full: "bv_inv v \<Longrightarrow> bv_len v = 256 \<Longrightarrow> bv_push v b = None"
  by (simp add: bv_push_def bv_inv_def)

lemma bv_push_room:
  assumes inv: "bv_inv v" and room: "bv_len v < 256"
  shows "\<exists>v'. bv_push v b = Some v' \<and> bv_inv v' \<and> bv_abs v' = bv_abs v @ [b]"
proof -
  let ?i = "bv_len v div 8"
  let ?m = "push_bit (7 - bv_len v mod 8) 1 :: u8"
  let ?bits = "(bv_bits v)[?i := (if b then bv_bits v ! ?i OR ?m else bv_bits v ! ?i AND NOT ?m)]"
  let ?v' = "v\<lparr>bv_bits := ?bits, bv_len := bv_len v + 1\<rparr>"
  have len: "length (bv_bits v) = 32" "?i < 32"
    using inv room by (auto simp: bv_inv_def)
  have step: "bv_push v b = Some ?v'"
    using len room by (simp add: bv_push_def bit_pos_def Let_def)
  have val: "bits_val ?bits j = (if j = bv_len v then b else bits_val (bv_bits v) j)" if "j < 256" for j
    using bits_val_update [of "bv_len v" "bv_bits v" j b] len room that by simp
  have "bv_inv ?v'"
    using inv room by (auto simp: bv_inv_def val simp del: list_update.simps)
  moreover have "bv_abs ?v' = bv_abs v @ [b]"
    using room by (auto simp: bv_abs_def val)
  ultimately show ?thesis
    using step by blast
qed

lemma bv_push_all_room:
  "bv_inv v \<Longrightarrow> bv_len v + length bs \<le> 256 \<Longrightarrow>
   \<exists>v'. bv_push_all v bs = Some v' \<and> bv_inv v' \<and> bv_abs v' = bv_abs v @ bs"
proof (induction bs arbitrary: v)
  case (Cons b bs)
  then obtain v1 where v1: "bv_push v b = Some v1" "bv_inv v1" "bv_abs v1 = bv_abs v @ [b]"
    using bv_push_room [of v b] by auto
  then have "bv_len v1 = bv_len v + 1"
    by (metis length_append_singleton length_bv_abs Suc_eq_plus1)
  then show ?case
    using Cons.IH [of v1] Cons.prems v1 by auto
qed simp

lemma bv_push_all_full:
  "bv_inv v \<Longrightarrow> bv_len v + length bs > 256 \<Longrightarrow> bv_push_all v bs = None"
proof (induction bs arbitrary: v)
  case (Cons b bs)
  show ?case
  proof (cases "bv_len v < 256")
    case True
    then obtain v1 where v1: "bv_push v b = Some v1" "bv_inv v1" "bv_abs v1 = bv_abs v @ [b]"
      using bv_push_room [of v b] Cons.prems by auto
    then have "bv_len v1 = bv_len v + 1"
      by (metis length_append_singleton length_bv_abs Suc_eq_plus1)
    then show ?thesis
      using Cons.IH [of v1] Cons.prems v1 by auto
  next
    case False
    then show ?thesis
      using bv_push_full [of v b] Cons.prems by (simp add: bv_inv_def)
  qed
qed (simp add: bv_inv_def)

lemma bv_at_in: "bv_inv v \<Longrightarrow> i < bv_len v \<Longrightarrow> bv_at v i = Some (bv_abs v ! i)"
  by (simp add: bv_at_def bit_pos_def Let_def bv_inv_def bv_abs_def bits_val_def and_mask_ne_0
      less_mult_imp_div_less)

lemma bv_at_out: "bv_len v \<le> i \<Longrightarrow> bv_at v i = None"
  by (simp add: bv_at_def)

section \<open>The contract of the trait\<close>

locale bits_impl =
  fixes impl :: "'b \<Rightarrow> Bits"
    and invar :: "'b \<Rightarrow> bool"
    and abs :: "'b \<Rightarrow> bool list"
  assumes len_abs: "invar b \<Longrightarrow> b_len (impl b) = length (abs b)"
    and at_in: "invar b \<Longrightarrow> i < length (abs b) \<Longrightarrow> b_at (impl b) i = Some (abs b ! i)"
    and at_out: "invar b \<Longrightarrow> length (abs b) \<le> i \<Longrightarrow> b_at (impl b) i = None"
    and abs_bound: "invar b \<Longrightarrow> length (abs b) \<le> 256"
begin

lemma iter_from: "invar b \<Longrightarrow> pos \<le> length (abs b) \<Longrightarrow> bits_iter (impl b) pos = Some (drop pos (abs b))"
proof (induction "length (abs b) - pos" arbitrary: pos)
  case 0
  then show ?case
    by (simp add: bits_iter.simps [of "impl b" pos] len_abs)
next
  case (Suc n)
  then have "pos < length (abs b)" and "bits_iter (impl b) (pos + 1) = Some (drop (pos + 1) (abs b))"
    by simp_all
  with Suc.prems show ?case
    by (simp add: bits_iter.simps [of "impl b" pos] len_abs at_in Cons_nth_drop_Suc)
qed

lemma iter_all: "invar b \<Longrightarrow> bits_iter (impl b) 0 = Some (abs b)"
  using iter_from [of b 0] by simp

lemma extend_room:
  "invar b \<Longrightarrow> bv_inv v \<Longrightarrow> bv_len v + length (abs b) \<le> 256 \<Longrightarrow>
   \<exists>v'. bv_extend v (impl b) = Some v' \<and> bv_inv v' \<and> bv_abs v' = bv_abs v @ abs b"
  using bv_push_all_room [of v "abs b"] by (simp add: bv_extend_def iter_all)

lemma extend_full:
  "invar b \<Longrightarrow> bv_inv v \<Longrightarrow> bv_len v + length (abs b) > 256 \<Longrightarrow> bv_extend v (impl b) = None"
  using bv_push_all_full [of v "abs b"] by (simp add: bv_extend_def iter_all)

end

interpretation bvi: bits_impl bv_bits_impl bv_inv bv_abs
  by unfold_locales (auto simp: bv_bits_impl_def bv_at_in bv_at_out bv_inv_def)

lemma length_bs_abs: "bs_inv s \<Longrightarrow> length (bs_abs s) = bs_len s"
  by (auto simp: bs_inv_def bs_abs_def)

lemma bs_at_in:
  assumes "bs_inv s" "i < bs_len s"
  shows "bs_at s i = Some (bs_abs s ! i)"
proof -
  have "i + bs_offset s < bv_len (bs_vec s)" "bv_inv (bs_vec s)"
    using assms by (auto simp: bs_inv_def)
  then show ?thesis
    using assms by (simp add: bs_at_def bv_at_in bs_abs_def add.commute)
qed

interpretation bsi: bits_impl bs_bits_impl bs_inv bs_abs
proof unfold_locales
  fix s :: BitSlice
  assume inv: "bs_inv s"
  show "b_len (bs_bits_impl s) = length (bs_abs s)"
    using inv by (simp add: bs_bits_impl_def length_bs_abs)
  show "length (bs_abs s) \<le> 256"
    using inv by (auto simp: length_bs_abs bs_inv_def bv_inv_def)
  fix i
  show "b_at (bs_bits_impl s) i = Some (bs_abs s ! i)" if "i < length (bs_abs s)"
    using inv that by (simp add: bs_bits_impl_def bs_at_in length_bs_abs)
  show "b_at (bs_bits_impl s) i = None" if "length (bs_abs s) \<le> i"
    using inv that by (simp add: bs_bits_impl_def bs_at_def length_bs_abs)
qed

section \<open>Refinement of the operations\<close>

lemma bv_new_inv [simp]: "bv_inv bv_new"
  by (auto simp: bv_inv_def bv_new_def bits_val_def)

lemma bv_new_abs [simp]: "bv_abs bv_new = []"
  by (simp add: bv_abs_def bv_new_def)

lemma bv_eqI:
  assumes "bv_inv v" "bv_inv w" "bv_abs v = bv_abs w"
  shows "v = w"
proof -
  have len: "bv_len v = bv_len w"
    using assms(3) by (metis length_bv_abs)
  have val: "bits_val (bv_bits v) i = bits_val (bv_bits w) i" if "i < 256" for i
  proof (cases "i < bv_len v")
    case True
    then show ?thesis
      using arg_cong [OF assms(3), of "\<lambda>xs. xs ! i"] len by (simp add: bv_abs_def)
  next
    case False
    then show ?thesis
      using assms(1,2) that len by (auto simp: bv_inv_def)
  qed
  have "bv_bits v = bv_bits w"
  proof (rule nth_equalityI)
    show "length (bv_bits v) = length (bv_bits w)"
      using assms by (simp add: bv_inv_def)
    fix j
    assume "j < length (bv_bits v)"
    then have j: "j < 32"
      using assms by (simp add: bv_inv_def)
    show "bv_bits v ! j = bv_bits w ! j"
    proof (rule bit_word_eqI)
      fix n
      assume "n < LENGTH(8)"
      then have n: "n < 8"
        by simp
      define k where "k = 7 - n"
      have k: "k < 8" "7 - k = n"
        using n by (auto simp: k_def)
      then show "bit (bv_bits v ! j) n = bit (bv_bits w ! j) n"
        using val [of "8 * j + k"] j by (simp add: bits_val_def)
    qed
  qed
  with len show ?thesis
    by simp
qed

lemma bounds_prefix [simp]:
  "bounds_to_start_len Unbounded (Excluded p) n = (if p \<le> n then Some (0, p) else None)"
  by (simp add: bounds_to_start_len_def)

lemma bounds_suffix [simp]:
  "bounds_to_start_len (Included p) Unbounded n = (if p \<le> n then Some (p, n - p) else None)"
  by (simp add: bounds_to_start_len_def)

lemma bounds_in_range:
  "bounds_to_start_len sb eb n = Some (start, len) \<Longrightarrow> start + len \<le> n"
  by (auto simp: bounds_to_start_len_def panic_simps Let_def)

lemma bs_slice_refines:
  assumes "bs_inv s" "bs_slice s sb eb = Some s'"
    "bounds_to_start_len sb eb (bs_len s) = Some (start, len)"
  shows "bs_inv s' \<and> bs_abs s' = take len (drop start (bs_abs s))"
proof -
  have "start + len \<le> bs_len s"
    using assms(3) by (rule bounds_in_range)
  moreover have "s' = \<lparr>bs_vec = bs_vec s, bs_offset = start + bs_offset s, bs_len = len\<rparr>"
    using assms by (simp add: bs_slice_def)
  ultimately show ?thesis
    using assms(1) by (auto simp: bs_inv_def bs_abs_def drop_take add.commute min_def)
qed

lemma position_diff_prefix:
  "take (case position_diff xs ys of None \<Rightarrow> min (length xs) (length ys) | Some p \<Rightarrow> p) xs =
   longest_common_prefix xs ys"
  by (induction xs ys rule: position_diff.induct) (auto split: option.splits)

lemma position_diff_bound: "position_diff xs ys = Some p \<Longrightarrow> p < length xs"
  by (induction xs ys arbitrary: p rule: position_diff.induct) (auto split: if_splits)

lemma cmp_impl_less: "cmp_impl a b = Less \<longleftrightarrow> a < b"
  by (induction a b rule: cmp_impl.induct) auto

lemma cmp_impl_equal: "cmp_impl a b = Equal \<longleftrightarrow> a = b"
  by (induction a b rule: cmp_impl.induct) auto

lemma list_all_zip_prefix:
  "length ys \<le> length xs \<Longrightarrow> list_all (\<lambda>(x, y). x = y) (zip xs ys) \<longleftrightarrow> prefix ys xs"
  by (induction ys arbitrary: xs) (auto simp: Cons_prefix_Cons length_Suc_conv Suc_le_length_iff)

section \<open>Bytes and bits\<close>

lemma length_byte_bits [simp]: "length (byte_bits b) = 8"
  by (simp add: byte_bits_def)

lemma nth_byte_bits: "k < 8 \<Longrightarrow> byte_bits b ! k = bit b (7 - k)"
  by (simp add: byte_bits_def)

lemma bits_of_bytes_Nil [simp]: "bits_of_bytes [] = []"
  by (simp add: bits_of_bytes_def)

lemma bits_of_bytes_Cons [simp]: "bits_of_bytes (b # bs) = byte_bits b @ bits_of_bytes bs"
  by (simp add: bits_of_bytes_def)

lemma length_bits_of_bytes [simp]: "length (bits_of_bytes bs) = 8 * length bs"
  by (induction bs) simp_all

lemma nth_bits_of_bytes: "i < 8 * length bs \<Longrightarrow> bits_of_bytes bs ! i = bits_val bs i"
proof (induction bs arbitrary: i)
  case (Cons b bs)
  show ?case
  proof (cases "i < 8")
    case True
    then show ?thesis
      by (simp add: nth_append nth_byte_bits bits_val_def)
  next
    case False
    then have "i div 8 = Suc ((i - 8) div 8)" "i mod 8 = (i - 8) mod 8"
      by (simp_all add: le_div_geq le_mod_geq)
    with False Cons show ?thesis
      by (simp add: nth_append bits_val_def)
  qed
qed simp

lemma bit_byte_of_bits:
  "n < 8 \<Longrightarrow> bit (byte_of_bits bs) n \<longleftrightarrow> 7 - n < length bs \<and> bs ! (7 - n)"
  by (auto simp: byte_of_bits_def bit_horner_sum_bit_word_iff rev_nth nth_append min_def)

lemma byte_of_bits_bits [simp]: "byte_of_bits (byte_bits b) = b"
  by (rule bit_word_eqI) (auto simp: bit_byte_of_bits nth_byte_bits)

lemma byte_bits_of_bits: "length bs = 8 \<Longrightarrow> byte_bits (byte_of_bits bs) = bs"
  by (rule nth_equalityI) (simp_all add: nth_byte_bits bit_byte_of_bits)

lemma byte_bits_inj: "byte_bits a = byte_bits b \<Longrightarrow> a = b"
  by (metis byte_of_bits_bits)

lemma bytes_of_bits_step:
  "bs \<noteq> [] \<Longrightarrow> bytes_of_bits bs = byte_of_bits (take 8 bs) # bytes_of_bits (drop 8 bs)"
  by (cases bs) simp_all

lemma bytes_of_bits_bytes [simp]: "bytes_of_bits (bits_of_bytes bs) = bs"
proof (induction bs)
  case (Cons b bs)
  have "byte_bits b @ bits_of_bytes bs \<noteq> []"
    by (simp add: byte_bits_def)
  with Cons show ?case
    by (simp add: bytes_of_bits_step)
qed simp

lemma bits_of_bytes_inj: "bits_of_bytes a = bits_of_bytes b \<Longrightarrow> a = b"
  by (metis bytes_of_bits_bytes)

lemma bits_of_bytes_bits: "length bs = 8 * n \<Longrightarrow> bits_of_bytes (bytes_of_bits bs) = bs"
proof (induction n arbitrary: bs)
  case (Suc n)
  have "bs \<noteq> []" "length (take 8 bs) = 8" "length (drop 8 bs) = 8 * n"
    using Suc.prems by auto
  then show ?case
    using Suc.IH [of "drop 8 bs"] by (simp add: bytes_of_bits_step byte_bits_of_bits del: drop_eq_Nil)
qed simp

lemma length_bytes_of_bits: "length (bytes_of_bits bs) = (length bs + 7) div 8"
proof (induction bs rule: bytes_of_bits.induct)
  case (2 b bs)
  show ?case
  proof (cases "length bs < 7")
    case True
    then show ?thesis
      using 2 by simp
  next
    case False
    then have "(length bs + 8) div 8 = Suc ((length bs - 7 + 7) div 8)"
      by (simp add: le_div_geq)
    then show ?thesis
      using 2 False by (simp add: add.commute)
  qed
qed simp

lemma nth_bytes_of_bits:
  "j < (length bs + 7) div 8 \<Longrightarrow> bytes_of_bits bs ! j = byte_of_bits (take 8 (drop (8 * j) bs))"
proof (induction bs arbitrary: j rule: bytes_of_bits.induct)
  case (2 b bs)
  show ?case
  proof (cases j)
    case (Suc i)
    have "i < (length (drop 8 (b # bs)) + 7) div 8"
      using "2.prems" Suc by simp
    moreover have "drop (8 * j) (b # bs) = drop (8 * i) (drop 8 (b # bs))"
      by (simp only: drop_drop Suc mult_Suc_right add.commute)
    ultimately show ?thesis
      using "2.IH" [of i] Suc by simp
  qed simp
qed simp

lemma bv_as_bytes_abs:
  assumes inv: "bv_inv v"
  shows "bv_as_bytes v = Some (bytes_of_bits (bv_abs v))"
proof -
  let ?n = "(bv_len v + 7) div 8"
  have n: "(if bv_len v mod 8 = 0 then bv_len v div 8 else bv_len v div 8 + 1) = ?n"
    by presburger
  have le: "?n \<le> 32" and l32: "length (bv_bits v) = 32"
    using inv by (auto simp: bv_inv_def)
  have "take ?n (bv_bits v) = bytes_of_bits (bv_abs v)"
  proof (rule nth_equalityI)
    show "length (take ?n (bv_bits v)) = length (bytes_of_bits (bv_abs v))"
      using le l32 by (simp add: length_bytes_of_bits)
    fix j
    assume "j < length (take ?n (bv_bits v))"
    then have j: "j < ?n" "j < 32"
      using le l32 by auto
    have "bv_bits v ! j = byte_of_bits (take 8 (drop (8 * j) (bv_abs v)))"
    proof (rule bit_word_eqI)
      fix m
      assume "m < LENGTH(8)"
      define k where "k = 7 - m"
      have k: "k < 8" "7 - k = m" "m < 8"
        using \<open>m < LENGTH(8)\<close> by (auto simp: k_def)
      have "bit (bv_bits v ! j) m = bits_val (bv_bits v) (8 * j + k)"
        using k by (simp add: bits_val_def)
      also have "\<dots> = (8 * j + k < bv_len v \<and> bv_abs v ! (8 * j + k))"
        using inv j k by (auto simp: bv_inv_def bv_abs_def)
      also have "\<dots> = bit (byte_of_bits (take 8 (drop (8 * j) (bv_abs v)))) m"
        using k(1,3) by (auto simp: bit_byte_of_bits simp flip: k_def)
      finally show "bit (bv_bits v ! j) m = bit (byte_of_bits (take 8 (drop (8 * j) (bv_abs v)))) m" .
    qed
    then show "take ?n (bv_bits v) ! j = bytes_of_bits (bv_abs v) ! j"
      using j by (simp add: nth_bytes_of_bits)
  qed
  then show ?thesis
    using le l32 n by (simp add: bv_as_bytes_def Let_def)
qed

lemma bv_from_bytes_abs:
  assumes "length bs \<le> 32"
  shows "\<exists>v. bv_from_bytes bs = Some v \<and> bv_inv v \<and> bv_abs v = bits_of_bytes bs"
proof -
  let ?v = "\<lparr>bv_len = length bs * 8, bv_bits = bs @ replicate (32 - length bs) 0\<rparr>"
  have "bv_from_bytes bs = Some ?v"
    using assms by (simp add: bv_from_bytes_def bv_new_def Let_def)
  moreover have "bv_inv ?v"
    using assms by (auto simp: bv_inv_def bits_val_def nth_append)
  moreover have "bv_abs ?v = bits_of_bytes bs"
    by (rule nth_equalityI)
      (auto simp: bv_abs_def nth_bits_of_bytes bits_val_def nth_append less_mult_imp_div_less)
  ultimately show ?thesis
    by blast
qed

section \<open>Lexicographic order of bytes and of their bits\<close>

definition bin_val :: "bool list \<Rightarrow> nat" where
  "bin_val bs = horner_sum of_bool 2 (rev bs)"

lemma bin_val_Cons: "bin_val (b # bs) = of_bool b * 2 ^ length bs + bin_val bs"
  by (simp add: bin_val_def horner_sum_append)

lemma bin_val_bound: "bin_val bs < 2 ^ length bs"
  by (induction bs) (auto simp: bin_val_Cons, simp add: bin_val_def)

lemma bin_val_less: "length xs = length ys \<Longrightarrow> xs < ys \<longleftrightarrow> bin_val xs < bin_val ys"
proof (induction xs ys rule: list_induct2)
  case (Cons x xs y ys)
  then show ?case
    using bin_val_bound [of xs] bin_val_bound [of ys] by (cases x; cases y) (auto simp: bin_val_Cons)
qed simp

lemma bin_val_byte_bits: "bin_val (byte_bits b) = unat b"
proof -
  have "rev (byte_bits b) = map (bit b) [0..<8]"
    by (rule nth_equalityI) (auto simp: rev_nth nth_byte_bits)
  also have "\<dots> = map (bit (unat b)) [0..<8]"
    by (auto simp: bit_unsigned_iff)
  finally show ?thesis
    using unat_u8_lt [of b] by (simp add: bin_val_def horner_sum_bit_eq_take_bit take_bit_nat_eq_self)
qed

lemma byte_bits_less: "byte_bits a < byte_bits b \<longleftrightarrow> a < b"
  by (simp add: bin_val_less bin_val_byte_bits word_less_nat_alt)

lemma append_less_cases:
  "length a = length b \<Longrightarrow> a @ xs < b @ (ys :: 'a::linorder list) \<longleftrightarrow> a < b \<or> a = b \<and> xs < ys"
  by (induction a b rule: list_induct2) auto

lemma bits_of_bytes_less:
  "length a = length b \<Longrightarrow> bits_of_bytes a < bits_of_bytes b \<longleftrightarrow> a < b"
  by (induction a b rule: list_induct2)
    (auto simp: append_less_cases byte_bits_less dest: byte_bits_inj)

lemma bits_of_bytes_le:
  "length a = length b \<Longrightarrow> bits_of_bytes a \<le> bits_of_bytes b \<longleftrightarrow> a \<le> b"
  using bits_of_bytes_less [of b a] by (simp add: not_less [symmetric])

section \<open>Properties\<close>

text \<open>
  C36: appending a slice to a bit vector (the trait's \<open>concat\<close>, built on \<open>extend\<close> and
  \<open>push\<close>) yields the concatenation of the two bit sequences, with the unused bits still
  zero, exactly when the result has at most 256 bits; otherwise it panics.
\<close>

theorem bv_concat_refines:
  assumes "bv_inv v" "bs_inv s"
  shows "if bv_len v + bs_len s \<le> 256
         then \<exists>r. bv_concat v (bs_bits_impl s) = Some r \<and> bv_inv r \<and> bv_abs r = bv_abs v @ bs_abs s
         else bv_concat v (bs_bits_impl s) = None"
  using bsi.extend_room [OF assms(2,1)] bsi.extend_full [OF assms(2,1)]
  by (simp add: bv_concat_def length_bs_abs [OF assms(2)])

theorem bv_concat_refines_witness:
  "\<exists>r. bv_concat \<lparr>bv_len = 2, bv_bits = 0xC0 # replicate 31 0\<rparr>
          (bs_bits_impl \<lparr>bs_vec = \<lparr>bv_len = 8, bv_bits = 0xA5 # replicate 31 0\<rparr>,
                         bs_offset = 5, bs_len = 3\<rparr>) = Some r
       \<and> bv_abs r = [True, True, True, False, True]"
proof -
  let ?v = "\<lparr>bv_len = 2, bv_bits = 0xC0 # replicate 31 0\<rparr>"
  let ?s = "\<lparr>bs_vec = \<lparr>bv_len = 8, bv_bits = 0xA5 # replicate 31 0\<rparr>, bs_offset = 5, bs_len = 3\<rparr>"
  have "bv_inv ?v" "bs_inv ?s"
    by code_simp+
  moreover have "bv_abs ?v @ bs_abs ?s = [True, True, True, False, True]"
    by code_simp
  ultimately show ?thesis
    using bv_concat_refines [of ?v ?s] by auto
qed

text \<open>
  C37: the slice returned by \<open>common_prefix\<close> denotes the longest common prefix of the two
  sequences, and the call never panics.
\<close>

theorem bs_common_prefix_refines:
  assumes "bs_inv s" "bv_inv v"
  shows "\<exists>r. bs_common_prefix s (bv_bits_impl v) = Some r \<and> bs_inv r \<and>
             bs_abs r = longest_common_prefix (bs_abs s) (bv_abs v)"
proof -
  define p where "p = (case position_diff (bs_abs s) (bv_abs v) of
    None \<Rightarrow> min (length (bs_abs s)) (length (bv_abs v)) | Some p \<Rightarrow> p)"
  have len: "length (bs_abs s) = bs_len s"
    using assms(1) by (rule length_bs_abs)
  have p: "p \<le> bs_len s"
    using position_diff_bound [of "bs_abs s" "bv_abs v"] len by (auto simp: p_def split: option.splits)
  have call: "bs_common_prefix s (bv_bits_impl v) = bs_slice s Unbounded (Excluded p)"
    using assms len
    by (simp add: bs_common_prefix_def bsi.iter_all bvi.iter_all bvi.len_abs p_def split: option.splits)
  moreover obtain r where r: "bs_slice s Unbounded (Excluded p) = Some r"
    using p by (simp add: bs_slice_def)
  ultimately show ?thesis
    using bs_slice_refines [OF assms(1) r, of 0 p] p position_diff_prefix [of "bs_abs s" "bv_abs v"]
    by (simp add: p_def)
qed

theorem bs_common_prefix_refines_witness:
  "\<exists>r. bs_common_prefix (bv_as_ref \<lparr>bv_len = 8, bv_bits = 0xA5 # replicate 31 0\<rparr>)
          (bv_bits_impl \<lparr>bv_len = 4, bv_bits = 0xB0 # replicate 31 0\<rparr>) = Some r
       \<and> bs_abs r = [True, False, True]"
proof -
  let ?s = "bv_as_ref \<lparr>bv_len = 8, bv_bits = 0xA5 # replicate 31 0\<rparr>"
  let ?v = "\<lparr>bv_len = 4, bv_bits = 0xB0 # replicate 31 0\<rparr>"
  have "bs_inv ?s" "bv_inv ?v"
    by code_simp+
  moreover have "longest_common_prefix (bs_abs ?s) (bv_abs ?v) = [True, False, True]"
    by code_simp
  ultimately show ?thesis
    using bs_common_prefix_refines [of ?s ?v] by auto
qed

text \<open>
  C38: comparison of bit vectors through \<open>cmp_impl\<close> is the lexicographic order of their bit
  sequences, and the derived equality on length and storage agrees with it because unused bits
  are always zero.
\<close>

theorem bv_cmp_refines:
  assumes "bv_inv v" "bv_inv w"
  shows "\<exists>c. bits_cmp (bv_bits_impl v) (bv_bits_impl w) = Some c \<and>
             (c = Less \<longleftrightarrow> bv_abs v < bv_abs w) \<and> (c = Equal \<longleftrightarrow> v = w) \<and>
             (c = Greater \<longleftrightarrow> bv_abs w < bv_abs v)"
proof -
  let ?c = "cmp_impl (bv_abs v) (bv_abs w)"
  have "bits_cmp (bv_bits_impl v) (bv_bits_impl w) = Some ?c"
    using assms by (simp add: bits_cmp_def bvi.iter_all)
  moreover have "?c = Less \<longleftrightarrow> bv_abs v < bv_abs w" "?c = Equal \<longleftrightarrow> v = w"
    using bv_eqI [OF assms] by (auto simp: cmp_impl_less cmp_impl_equal)
  moreover have "?c = Greater \<longleftrightarrow> bv_abs w < bv_abs v"
    using cmp_impl_less [of "bv_abs v" "bv_abs w"] cmp_impl_equal [of "bv_abs v" "bv_abs w"]
    by (cases ?c) (auto simp: not_less)
  ultimately show ?thesis
    by blast
qed

theorem bv_cmp_refines_witness:
  "\<exists>c. bits_cmp (bv_bits_impl \<lparr>bv_len = 8, bv_bits = 0xA5 # replicate 31 0\<rparr>)
          (bv_bits_impl \<lparr>bv_len = 4, bv_bits = 0xA0 # replicate 31 0\<rparr>) = Some c \<and> c = Greater"
proof -
  let ?v = "\<lparr>bv_len = 8, bv_bits = 0xA5 # replicate 31 0\<rparr>"
  let ?w = "\<lparr>bv_len = 4, bv_bits = 0xA0 # replicate 31 0\<rparr>"
  have "bv_inv ?v" "bv_inv ?w"
    by code_simp+
  moreover have "bv_abs ?w < bv_abs ?v"
    by code_simp
  ultimately show ?thesis
    using bv_cmp_refines [of ?v ?w] by auto
qed

text \<open>
  C39: \<open>from_bytes\<close> followed by \<open>as_bytes\<close> returns the original bytes, the bits
  being read most significant first; and \<open>as_bytes\<close> of any valid vector is its bit sequence
  packed into bytes and padded with zero bits.
\<close>

theorem bv_bytes_roundtrip:
  "(length bs \<le> 32 \<longrightarrow> (\<exists>v. bv_from_bytes bs = Some v \<and> bv_inv v \<and>
       bv_abs v = bits_of_bytes bs \<and> bv_as_bytes v = Some bs)) \<and>
   (32 < length bs \<longrightarrow> bv_from_bytes bs = None) \<and>
   (bv_inv w \<longrightarrow> bv_as_bytes w = Some (bytes_of_bits (bv_abs w)))"
proof (intro conjI impI)
  assume "length bs \<le> 32"
  then obtain v where "bv_from_bytes bs = Some v" "bv_inv v" "bv_abs v = bits_of_bytes bs"
    using bv_from_bytes_abs by blast
  then show "\<exists>v. bv_from_bytes bs = Some v \<and> bv_inv v \<and> bv_abs v = bits_of_bytes bs \<and>
      bv_as_bytes v = Some bs"
    by (simp add: bv_as_bytes_abs)
qed (simp_all add: bv_from_bytes_def bv_new_def bv_as_bytes_abs)

theorem bv_bytes_roundtrip_witness:
  "(\<exists>v. bv_from_bytes [0xA5, 1] = Some v \<and> bv_as_bytes v = Some [0xA5, 1]) \<and>
   bv_as_bytes \<lparr>bv_len = 2, bv_bits = 0xC0 # replicate 31 0\<rparr> = Some [0xC0]"
proof -
  let ?w = "\<lparr>bv_len = 2, bv_bits = 0xC0 # replicate 31 0\<rparr>"
  have "bv_inv ?w"
    by code_simp
  moreover have "bytes_of_bits (bv_abs ?w) = [0xC0]"
    by code_simp
  ultimately show ?thesis
    using bv_bytes_roundtrip [of "[0xA5, 1]" ?w] by auto
qed

end
