(* ===== verification/Ids.thy ===== *)
theory Ids
  imports BitVec
begin

text \<open>
  Identifiers, log indexes and record ranges of \<open>src/hsm_api/src/lib.rs\<close>: \<open>RecordId\<close>
  with its successor and predecessor over 32 big-endian bytes, \<open>LogIndex\<close>, and
  \<open>OwnedRange\<close> with its joins and splits.  Fixed-size byte arrays are byte lists; the predicates
  \<open>rid_ok\<close> and \<open>range_ok\<close> carry the array length.
\<close>

datatype RealmId = RealmId bytes
datatype GroupId = GroupId bytes
datatype HsmId = HsmId (hsm_id_bytes: bytes)
datatype SessionId = SessionId "32 word"
datatype RecordId = RecordId (rid_bytes: bytes)

type_synonym LogIndex = u64

instantiation HsmId :: linorder
begin

definition less_eq_HsmId :: "HsmId \<Rightarrow> HsmId \<Rightarrow> bool" where
  "less_eq_HsmId a b = (hsm_id_bytes a \<le> hsm_id_bytes b)"

definition less_HsmId :: "HsmId \<Rightarrow> HsmId \<Rightarrow> bool" where
  "less_HsmId a b = (hsm_id_bytes a < hsm_id_bytes b)"

instance
  by intro_classes (auto simp: less_eq_HsmId_def less_HsmId_def intro: HsmId.expand)

end

instantiation RecordId :: linorder
begin

definition less_eq_RecordId :: "RecordId \<Rightarrow> RecordId \<Rightarrow> bool" where
  "less_eq_RecordId a b = (rid_bytes a \<le> rid_bytes b)"

definition less_RecordId :: "RecordId \<Rightarrow> RecordId \<Rightarrow> bool" where
  "less_RecordId a b = (rid_bytes a < rid_bytes b)"

instance
  by intro_classes (auto simp: less_eq_RecordId_def less_RecordId_def intro: RecordId.expand)

end

section \<open>LogIndex\<close>

definition log_index_first :: LogIndex where
  "log_index_first = 1"

definition log_index_prev :: "LogIndex \<Rightarrow> LogIndex option" where
  "log_index_prev i = (if i \<le> 1 then None else Some (i - 1))"

definition log_index_next :: "LogIndex \<Rightarrow> LogIndex option" where
  "log_index_next i = checked_add1 i"

section \<open>RecordId\<close>

definition record_id_num_bytes :: nat where
  "record_id_num_bytes = 32"

definition record_id_min :: RecordId where
  "record_id_min = RecordId (replicate record_id_num_bytes 0)"

definition record_id_max :: RecordId where
  "record_id_max = RecordId (replicate record_id_num_bytes 255)"

definition record_id_with :: "RecordId \<Rightarrow> bytes \<Rightarrow> RecordId option" where
  "record_id_with r p = do {
     rust_assert (length p \<le> record_id_num_bytes);
     Some (RecordId (p @ drop (length p) (rid_bytes r)))
   }"

fun next_loop :: "nat \<Rightarrow> bytes \<Rightarrow> bytes option" where
  "next_loop 0 r = None"
| "next_loop (Suc i) r =
     (if r ! i < 255 then Some (r[i := r ! i + 1]) else next_loop i (r[i := 0]))"

definition record_id_next :: "RecordId \<Rightarrow> RecordId option" where
  "record_id_next r = map_option RecordId (next_loop (length (rid_bytes r)) (rid_bytes r))"

fun prev_loop :: "nat \<Rightarrow> bytes \<Rightarrow> bytes option" where
  "prev_loop 0 r = None"
| "prev_loop (Suc i) r =
     (if r ! i > 0 then Some (r[i := r ! i - 1]) else prev_loop i (r[i := 255]))"

definition record_id_prev :: "RecordId \<Rightarrow> RecordId option" where
  "record_id_prev r = map_option RecordId (prev_loop (length (rid_bytes r)) (rid_bytes r))"

definition record_id_to_bitvec :: "RecordId \<Rightarrow> BitVec option" where
  "record_id_to_bitvec r = bv_from_bytes (rid_bytes r)"

definition record_id_from_bitvec :: "BitVec \<Rightarrow> RecordId option" where
  "record_id_from_bitvec v = do {
     rust_assert (bv_len v = record_id_num_bytes * 8);
     bs \<leftarrow> bv_as_bytes v;
     Some (RecordId bs)
   }"

section \<open>OwnedRange\<close>

record OwnedRange =
  rg_start :: RecordId
  rg_end :: RecordId

definition range_full :: OwnedRange where
  "range_full = \<lparr>rg_start = record_id_min, rg_end = record_id_max\<rparr>"

definition range_is_valid :: "OwnedRange \<Rightarrow> bool" where
  "range_is_valid r = (rg_start r \<le> rg_end r)"

definition range_contains :: "OwnedRange \<Rightarrow> RecordId \<Rightarrow> bool option" where
  "range_contains r record_id = do {
     rust_assert (range_is_valid r);
     Some (record_id \<ge> rg_start r \<and> record_id \<le> rg_end r)
   }"

definition range_overlaps :: "OwnedRange \<Rightarrow> OwnedRange \<Rightarrow> bool option" where
  "range_overlaps r other = do {
     rust_assert (range_is_valid r);
     rust_assert (range_is_valid other);
     a \<leftarrow> range_contains r (rg_start other);
     b \<leftarrow> range_contains r (rg_end other);
     c \<leftarrow> range_contains other (rg_start r);
     d \<leftarrow> range_contains other (rg_end r);
     Some (a \<or> b \<or> c \<or> d)
   }"

definition range_contains_range :: "OwnedRange \<Rightarrow> OwnedRange \<Rightarrow> bool option" where
  "range_contains_range r other = do {
     rust_assert (range_is_valid r);
     rust_assert (range_is_valid other);
     a \<leftarrow> range_contains r (rg_start other);
     b \<leftarrow> range_contains r (rg_end other);
     Some (a \<and> b)
   }"

definition range_join :: "OwnedRange \<Rightarrow> OwnedRange \<Rightarrow> OwnedRange option option" where
  "range_join r other = do {
     rust_assert (range_is_valid r);
     rust_assert (range_is_valid other);
     if record_id_next (rg_end r) = Some (rg_start other)
     then Some (Some \<lparr>rg_start = rg_start r, rg_end = rg_end other\<rparr>)
     else if record_id_next (rg_end other) = Some (rg_start r)
     then Some (Some \<lparr>rg_start = rg_start other, rg_end = rg_end r\<rparr>)
     else Some None
   }"

definition range_split_at :: "OwnedRange \<Rightarrow> OwnedRange \<Rightarrow> RecordId option option" where
  "range_split_at r other = do {
     rust_assert (range_is_valid r);
     rust_assert (range_is_valid other);
     if rg_start r = rg_start other \<and> rg_end other < rg_end r
     then do { k \<leftarrow> record_id_next (rg_end other); Some (Some k) }
     else if rg_end r = rg_end other \<and> rg_start other > rg_start r
     then Some (Some (rg_start other))
     else Some None
   }"

definition range_union :: "OwnedRange \<Rightarrow> OwnedRange \<Rightarrow> OwnedRange" where
  "range_union r other =
     \<lparr>rg_start = min (rg_start r) (rg_start other), rg_end = max (rg_end r) (rg_end other)\<rparr>"

section \<open>Values of record ids\<close>

definition rid_ok :: "RecordId \<Rightarrow> bool" where
  "rid_ok r = (length (rid_bytes r) = record_id_num_bytes)"

definition rid_val :: "RecordId \<Rightarrow> nat" where
  "rid_val r = be_val (rid_bytes r)"

definition range_ok :: "OwnedRange \<Rightarrow> bool" where
  "range_ok r \<longleftrightarrow> rid_ok (rg_start r) \<and> rid_ok (rg_end r) \<and> range_is_valid r"

definition range_set :: "OwnedRange \<Rightarrow> RecordId set" where
  "range_set r = {k. rid_ok k \<and> rg_start r \<le> k \<and> k \<le> rg_end r}"

lemma rid_less: "rid_ok a \<Longrightarrow> rid_ok b \<Longrightarrow> a < b \<longleftrightarrow> rid_val a < rid_val b"
  by (simp add: rid_ok_def rid_val_def less_RecordId_def be_val_less)

lemma rid_le: "rid_ok a \<Longrightarrow> rid_ok b \<Longrightarrow> a \<le> b \<longleftrightarrow> rid_val a \<le> rid_val b"
  by (simp add: rid_ok_def rid_val_def less_eq_RecordId_def be_val_le)

lemma rid_eq: "rid_ok a \<Longrightarrow> rid_ok b \<Longrightarrow> a = b \<longleftrightarrow> rid_val a = rid_val b"
  by (metis RecordId.expand be_val_inj rid_ok_def rid_val_def)

lemma rid_val_bound: "rid_ok r \<Longrightarrow> rid_val r < 256 ^ 32"
  using be_val_bound [of "rid_bytes r"] by (simp add: rid_ok_def rid_val_def record_id_num_bytes_def)

lemma be_val_replicate_0: "be_val (replicate n 0) = 0"
  by (induction n) (simp_all add: be_val_Cons)

lemma be_val_replicate_255: "be_val (replicate n 255) = 256 ^ n - 1"
proof (induction n)
  case (Suc n)
  have "(1::nat) \<le> 256 ^ n"
    by simp
  then show ?case
    using Suc by (simp add: be_val_Cons)
qed simp

lemma record_id_min_ok [simp]: "rid_ok record_id_min" "rid_val record_id_min = 0"
  by (simp_all add: rid_ok_def rid_val_def record_id_min_def be_val_replicate_0)

lemma record_id_max_ok [simp]: "rid_ok record_id_max" "rid_val record_id_max = 256 ^ 32 - 1"
  by (simp_all add: rid_ok_def rid_val_def record_id_max_def be_val_replicate_255
      record_id_num_bytes_def)

lemma u8_lt_255: "(x::u8) < 255 \<longleftrightarrow> unat x < 255"
  by (simp add: word_less_nat_alt)

lemma u8_not_lt_255: "\<not> (x::u8) < 255 \<Longrightarrow> unat x = 255"
  using unat_u8_lt [of x] by (simp add: u8_lt_255)

lemma unat_u8_succ: "(x::u8) < 255 \<Longrightarrow> unat (x + 1) = unat x + 1"
  by (simp add: u8_lt_255 unat_word_ariths)

lemma unat_u8_pred: "(x::u8) > 0 \<Longrightarrow> unat (x - 1) = unat x - 1"
  by (simp add: unat_minus_one word_greater_zero_iff)

lemma next_loop_val:
  "case next_loop (length p) (p @ z) of
     None \<Rightarrow> be_val p + 1 = 256 ^ length p
   | Some r \<Rightarrow> \<exists>p'. r = p' @ z \<and> length p' = length p \<and> be_val p' = be_val p + 1"
proof (induction p arbitrary: z rule: rev_induct)
  case (snoc x p)
  show ?case
  proof (cases "x < 255")
    case True
    then show ?thesis
      by (auto simp: list_update_append nth_append unat_u8_succ intro!: exI [of _ "p @ [x + 1]"])
  next
    case False
    then have x: "unat x = 255"
      by (rule u8_not_lt_255)
    have step: "next_loop (length (p @ [x])) ((p @ [x]) @ z) = next_loop (length p) (p @ 0 # z)"
      using False by (simp add: list_update_append nth_append)
    show ?thesis
    proof (cases "next_loop (length p) (p @ 0 # z)")
      case None
      then show ?thesis
        using snoc.IH [of "0 # z"] step x by simp
    next
      case (Some r)
      then obtain p' where "r = p' @ 0 # z" "length p' = length p" "be_val p' = be_val p + 1"
        using snoc.IH [of "0 # z"] by auto
      then show ?thesis
        using step x Some by (auto intro!: exI [of _ "p' @ [0]"])
    qed
  qed
qed simp

lemma prev_loop_val:
  "case prev_loop (length p) (p @ z) of
     None \<Rightarrow> be_val p = 0
   | Some r \<Rightarrow> \<exists>p'. r = p' @ z \<and> length p' = length p \<and> be_val p' + 1 = be_val p"
proof (induction p arbitrary: z rule: rev_induct)
  case (snoc x p)
  show ?case
  proof (cases "x > 0")
    case True
    then have "0 < unat x"
      by (simp add: word_less_nat_alt)
    then show ?thesis
      using True
      by (auto simp: list_update_append nth_append unat_u8_pred intro!: exI [of _ "p @ [x - 1]"])
  next
    case False
    then have x: "x = 0"
      by (simp add: word_greater_zero_iff)
    have step: "prev_loop (length (p @ [x])) ((p @ [x]) @ z) = prev_loop (length p) (p @ 255 # z)"
      using False by (simp add: list_update_append nth_append)
    show ?thesis
    proof (cases "prev_loop (length p) (p @ 255 # z)")
      case None
      then show ?thesis
        using snoc.IH [of "255 # z"] step x by simp
    next
      case (Some r)
      then obtain p' where "r = p' @ 255 # z" "length p' = length p" "be_val p' + 1 = be_val p"
        using snoc.IH [of "255 # z"] by auto
      then show ?thesis
        using step x Some by (auto intro!: exI [of _ "p' @ [255]"])
    qed
  qed
qed simp

lemma record_id_next_Some:
  "record_id_next r = Some s \<Longrightarrow> rid_ok r \<Longrightarrow> rid_ok s \<and> rid_val s = rid_val r + 1"
  using next_loop_val [of "rid_bytes r" "[]"]
  by (auto simp: record_id_next_def rid_ok_def rid_val_def)

lemma record_id_next_None:
  "record_id_next r = None \<longleftrightarrow> rid_val r + 1 = 256 ^ 32" if "rid_ok r"
proof (cases "next_loop (length (rid_bytes r)) (rid_bytes r)")
  case None
  then show ?thesis
    using next_loop_val [of "rid_bytes r" "[]"] that
    by (simp add: record_id_next_def rid_ok_def rid_val_def record_id_num_bytes_def)
next
  case (Some s)
  then have "record_id_next r = Some (RecordId s)"
    by (simp add: record_id_next_def)
  then show ?thesis
    using record_id_next_Some [of r "RecordId s"] rid_val_bound [of "RecordId s"] that by simp
qed

lemma record_id_prev_Some:
  "record_id_prev r = Some s \<Longrightarrow> rid_ok r \<Longrightarrow> rid_ok s \<and> rid_val s + 1 = rid_val r"
  using prev_loop_val [of "rid_bytes r" "[]"]
  by (auto simp: record_id_prev_def rid_ok_def rid_val_def)

lemma record_id_prev_None:
  "record_id_prev r = None \<longleftrightarrow> rid_val r = 0" if "rid_ok r"
proof (cases "prev_loop (length (rid_bytes r)) (rid_bytes r)")
  case None
  then show ?thesis
    using prev_loop_val [of "rid_bytes r" "[]"] that
    by (simp add: record_id_prev_def rid_ok_def rid_val_def)
next
  case (Some s)
  then have "record_id_prev r = Some (RecordId s)"
    by (simp add: record_id_prev_def)
  then show ?thesis
    using record_id_prev_Some [of r "RecordId s"] that by auto
qed

lemma record_id_next_eq:
  assumes "rid_ok r" "rid_ok s"
  shows "record_id_next r = Some s \<longleftrightarrow> rid_val s = rid_val r + 1"
proof (cases "record_id_next r")
  case None
  then show ?thesis
    using record_id_next_None [OF assms(1)] rid_val_bound [OF assms(2)] by simp
next
  case (Some t)
  then show ?thesis
    using record_id_next_Some [OF Some assms(1)] rid_eq [of t s] assms(2) by auto
qed

lemma record_id_prev_eq:
  assumes "rid_ok r" "rid_ok s"
  shows "record_id_prev r = Some s \<longleftrightarrow> rid_val r = rid_val s + 1"
proof (cases "record_id_prev r")
  case None
  then show ?thesis
    using record_id_prev_None [OF assms(1)] by simp
next
  case (Some t)
  then show ?thesis
    using record_id_prev_Some [OF Some assms(1)] rid_eq [of t s] assms(2) by auto
qed

section \<open>Record ids as bit vectors\<close>

definition rid_bits :: "RecordId \<Rightarrow> bool list" where
  "rid_bits r = bits_of_bytes (rid_bytes r)"

lemma length_rid_bits: "rid_ok r \<Longrightarrow> length (rid_bits r) = 256"
  by (simp add: rid_bits_def rid_ok_def record_id_num_bytes_def)

lemma rid_bits_inj: "rid_bits a = rid_bits b \<Longrightarrow> a = b"
  by (simp add: rid_bits_def RecordId.expand bits_of_bytes_inj)

lemma rid_bits_less: "rid_ok a \<Longrightarrow> rid_ok b \<Longrightarrow> rid_bits a < rid_bits b \<longleftrightarrow> a < b"
  by (simp add: rid_bits_def rid_ok_def less_RecordId_def bits_of_bytes_less)

lemma record_id_to_bitvec_abs:
  "rid_ok r \<Longrightarrow> \<exists>v. record_id_to_bitvec r = Some v \<and> bv_inv v \<and> bv_abs v = rid_bits r"
  using bv_from_bytes_abs [of "rid_bytes r"]
  by (simp add: record_id_to_bitvec_def rid_bits_def rid_ok_def record_id_num_bytes_def)

section \<open>Properties\<close>

text \<open>
  C30: over the 32-byte record ids, read as big-endian numbers, \<open>next\<close> is the successor and
  \<open>None\<close> only at \<open>max_id\<close>, \<open>prev\<close> is the predecessor and \<open>None\<close> only at
  \<open>min_id\<close>, and each undoes the other.
\<close>

theorem record_id_next_prev:
  assumes "rid_ok r"
  shows "(record_id_next r = None \<longleftrightarrow> r = record_id_max) \<and>
         (record_id_prev r = None \<longleftrightarrow> r = record_id_min) \<and>
         (\<forall>s. record_id_next r = Some s \<longrightarrow>
            rid_ok s \<and> rid_val s = rid_val r + 1 \<and> r < s \<and> record_id_prev s = Some r) \<and>
         (\<forall>s. record_id_prev r = Some s \<longrightarrow>
            rid_ok s \<and> rid_val s + 1 = rid_val r \<and> s < r \<and> record_id_next s = Some r)"
proof (intro conjI allI impI)
  show "record_id_next r = None \<longleftrightarrow> r = record_id_max"
    using assms by (auto simp: record_id_next_None rid_eq)
  show "record_id_prev r = None \<longleftrightarrow> r = record_id_min"
    using assms by (auto simp: record_id_prev_None rid_eq)
next
  fix s
  assume "record_id_next r = Some s"
  then have s: "rid_ok s" "rid_val s = rid_val r + 1"
    using record_id_next_Some assms by auto
  then show "rid_ok s" "rid_val s = rid_val r + 1" "r < s" "record_id_prev s = Some r"
    using assms by (simp_all add: rid_less record_id_prev_eq)
next
  fix s
  assume "record_id_prev r = Some s"
  then have s: "rid_ok s" "rid_val s + 1 = rid_val r"
    using record_id_prev_Some assms by auto
  then show "rid_ok s" "rid_val s + 1 = rid_val r" "s < r" "record_id_next s = Some r"
    using assms by (simp_all add: rid_less record_id_next_eq)
qed

theorem record_id_next_prev_witness:
  "record_id_next (RecordId (replicate 30 0 @ [7, 255])) = Some (RecordId (replicate 30 0 @ [8, 0])) \<and>
   record_id_prev (RecordId (replicate 30 0 @ [8, 0])) = Some (RecordId (replicate 30 0 @ [7, 255]))"
proof -
  let ?r = "RecordId (replicate 30 0 @ [7, 255])"
  let ?s = "RecordId (replicate 30 0 @ [8, 0])"
  have "rid_ok ?r" "record_id_next ?r = Some ?s"
    by code_simp+
  then show ?thesis
    using record_id_next_prev [of ?r] by blast
qed

text \<open>
  C29: \<open>overlaps\<close> and \<open>contains_range\<close> decide intersection and inclusion of the sets of
  record ids of two valid ranges, and do not panic on them.
\<close>

theorem range_overlaps_contains_exact:
  assumes "range_ok a" "range_ok b"
  shows "range_overlaps a b = Some (range_set a \<inter> range_set b \<noteq> {}) \<and>
         range_contains_range a b = Some (range_set b \<subseteq> range_set a)"
proof -
  have ab: "rg_start a \<le> rg_end a" "rg_start b \<le> rg_end b"
    using assms by (auto simp: range_ok_def range_is_valid_def)
  have se: "rg_start a \<in> range_set a" "rg_end a \<in> range_set a"
    "rg_start b \<in> range_set b" "rg_end b \<in> range_set b"
    using assms by (auto simp: range_ok_def range_is_valid_def range_set_def)
  have "(range_set a \<inter> range_set b \<noteq> {}) \<longleftrightarrow> rg_start a \<le> rg_end b \<and> rg_start b \<le> rg_end a"
  proof
    assume "range_set a \<inter> range_set b \<noteq> {}"
    then show "rg_start a \<le> rg_end b \<and> rg_start b \<le> rg_end a"
      by (auto simp: range_set_def)
  next
    assume *: "rg_start a \<le> rg_end b \<and> rg_start b \<le> rg_end a"
    have "max (rg_start a) (rg_start b) \<in> range_set a \<inter> range_set b"
      using * ab se by (auto simp: range_set_def max_def)
    then show "range_set a \<inter> range_set b \<noteq> {}"
      by blast
  qed
  moreover have "range_set b \<subseteq> range_set a \<longleftrightarrow> rg_start b \<in> range_set a \<and> rg_end b \<in> range_set a"
    using se by (auto simp: range_set_def)
  ultimately show ?thesis
    using ab se assms
    by (auto simp: range_overlaps_def range_contains_range_def range_contains_def range_is_valid_def
        range_set_def)
qed

theorem range_overlaps_contains_exact_witness:
  "range_overlaps range_full \<lparr>rg_start = record_id_min, rg_end = record_id_min\<rparr> = Some True"
proof -
  have "range_ok range_full" "range_ok \<lparr>rg_start = record_id_min, rg_end = record_id_min\<rparr>"
    by code_simp+
  moreover have "record_id_min \<in> range_set range_full"
    "record_id_min \<in> range_set \<lparr>rg_start = record_id_min, rg_end = record_id_min\<rparr>"
    by (simp_all add: range_set_def range_full_def rid_le)
  ultimately show ?thesis
    using range_overlaps_contains_exact [of range_full "\<lparr>rg_start = record_id_min, rg_end = record_id_min\<rparr>"]
    by auto
qed

lemma range_set_adjacent:
  assumes "range_ok a" "range_ok b" "rid_val (rg_start b) = rid_val (rg_end a) + 1"
  shows "range_ok \<lparr>rg_start = rg_start a, rg_end = rg_end b\<rparr> \<and>
         range_set \<lparr>rg_start = rg_start a, rg_end = rg_end b\<rparr> = range_set a \<union> range_set b \<and>
         range_set a \<inter> range_set b = {}"
  using assms by (auto simp: range_ok_def range_is_valid_def range_set_def rid_le)

text \<open>
  C27: \<open>join\<close> of two valid ranges does not panic; it returns a range exactly when one of them
  starts right after the other ends, and that range is the disjoint union of the two.
\<close>

theorem range_join_exact:
  assumes "range_ok a" "range_ok b"
  shows "\<exists>j. range_join a b = Some j \<and>
     (j = None \<longleftrightarrow> \<not> (rid_val (rg_start b) = rid_val (rg_end a) + 1 \<or>
                       rid_val (rg_start a) = rid_val (rg_end b) + 1)) \<and>
     (\<forall>r. j = Some r \<longrightarrow> range_ok r \<and> range_set r = range_set a \<union> range_set b \<and>
                         range_set a \<inter> range_set b = {})"
proof -
  have ok: "rid_ok (rg_start a)" "rid_ok (rg_end a)" "rid_ok (rg_start b)" "rid_ok (rg_end b)"
    and valid: "range_is_valid a" "range_is_valid b"
    using assms by (auto simp: range_ok_def)
  show ?thesis
    using range_set_adjacent [OF assms] range_set_adjacent [OF assms(2,1)] valid
    by (auto simp: range_join_def record_id_next_eq [OF ok(2,3)] record_id_next_eq [OF ok(4,1)])
qed

theorem range_join_exact_witness:
  "\<exists>r. range_join \<lparr>rg_start = record_id_min, rg_end = RecordId (0x7F # replicate 31 255)\<rparr>
                  \<lparr>rg_start = RecordId (0x80 # replicate 31 0), rg_end = record_id_max\<rparr> = Some (Some r)
       \<and> range_ok r"
proof -
  let ?a = "\<lparr>rg_start = record_id_min, rg_end = RecordId (0x7F # replicate 31 255)\<rparr>"
  let ?b = "\<lparr>rg_start = RecordId (0x80 # replicate 31 0), rg_end = record_id_max\<rparr>"
  have "range_ok ?a" "range_ok ?b"
    by code_simp+
  moreover have "range_join ?a ?b = Some (Some range_full)"
    by code_simp
  ultimately show ?thesis
    using range_join_exact [of ?a ?b] by auto
qed

text \<open>Cutting a range below one of its records but the first.\<close>

lemma range_cut:
  assumes "range_ok a" "rid_ok k" "rg_start a < k" "k \<le> rg_end a"
  shows "\<exists>p. record_id_prev k = Some p \<and>
    (let l = \<lparr>rg_start = rg_start a, rg_end = p\<rparr>; r = \<lparr>rg_start = k, rg_end = rg_end a\<rparr>
     in range_ok l \<and> range_ok r \<and> range_set a = range_set l \<union> range_set r \<and> range_set l \<inter> range_set r = {})"
proof -
  have ok: "rid_ok (rg_start a)" "rid_ok (rg_end a)"
    using assms(1) by (auto simp: range_ok_def)
  obtain p where p: "record_id_prev k = Some p"
    using record_id_prev_None [OF assms(2)] assms(2,3) ok(1) by (cases "record_id_prev k") (auto simp: rid_less)
  note pv = record_id_prev_Some [OF p assms(2)]
  let ?l = "\<lparr>rg_start = rg_start a, rg_end = p\<rparr>"
  let ?r = "\<lparr>rg_start = k, rg_end = rg_end a\<rparr>"
  have lr: "range_ok ?l" "range_ok ?r"
    using pv assms(2-4) ok by (auto simp: range_ok_def range_is_valid_def rid_less rid_le)
  moreover have "range_set a = range_set \<lparr>rg_start = rg_start a, rg_end = rg_end a\<rparr>"
    by (simp add: range_set_def)
  ultimately show ?thesis
    using range_set_adjacent [OF lr(1,2)] pv p by simp
qed

lemma range_split_at_left:
  assumes "range_ok a" "range_ok b" "rg_start a = rg_start b" "rg_end b < rg_end a"
  shows "\<exists>k. range_split_at a b = Some (Some k) \<and> rid_ok k \<and> rg_start a < k \<and> k \<le> rg_end a \<and> record_id_prev k = Some (rg_end b)"
proof -
  have ok: "rid_ok (rg_start a)" "rid_ok (rg_end a)" "rid_ok (rg_end b)"
    and valid: "range_is_valid a" "range_is_valid b"
    using assms by (auto simp: range_ok_def)
  have "rid_val (rg_end b) + 1 \<noteq> 256 ^ 32"
    using assms(4) ok rid_val_bound [of "rg_end a"] by (simp add: rid_less)
  then obtain k where kn: "record_id_next (rg_end b) = Some k"
    using record_id_next_None [OF ok(3)] by (cases "record_id_next (rg_end b)") auto
  note kv = record_id_next_Some [OF kn ok(3)]
  then have "rid_ok k" "rg_start a < k" "k \<le> rg_end a" "record_id_prev k = Some (rg_end b)"
    using assms(3,4) valid [unfolded range_is_valid_def] ok by (auto simp: rid_less rid_le record_id_prev_eq)
  then show ?thesis
    using assms(3,4) valid kn by (simp add: range_split_at_def)
qed

lemma range_split_at_cases:
  assumes "range_ok a" "range_ok b" "range_split_at a b = Some (Some k)"
  shows "rid_ok k \<and> rg_start a < k \<and> k \<le> rg_end a \<and>
    (rg_start a = rg_start b \<and> rg_end b < rg_end a \<and> record_id_prev k = Some (rg_end b) \<or>
     rg_end a = rg_end b \<and> rg_start a < rg_start b \<and> k = rg_start b)"
proof (cases "rg_start a = rg_start b \<and> rg_end b < rg_end a")
  case True
  then show ?thesis
    using range_split_at_left [OF assms(1,2)] assms(3) by auto
next
  case False
  then have "rg_end a = rg_end b" "rg_start a < rg_start b" "k = rg_start b"
    using assms(3) by (auto simp: range_split_at_def panic_simps split: if_splits)
  then show ?thesis
    using assms(1,2) by (auto simp: range_ok_def range_is_valid_def)
qed

text \<open>
  C28: \<open>split_at\<close> of two valid ranges does not panic.  When it returns a split point, cutting
  the first range there yields two valid ranges that partition it, one of which is the range split
  out; when the second range is a proper part of the first that touches an end, it does return one.
\<close>

theorem range_split_at_exact:
  assumes "range_ok a" "range_ok b"
  shows "\<exists>s. range_split_at a b = Some s \<and>
     (s = None \<longleftrightarrow> \<not> (rg_start a = rg_start b \<and> rg_end b < rg_end a \<or>
                       rg_end a = rg_end b \<and> rg_start a < rg_start b)) \<and>
     (\<forall>k. s = Some k \<longrightarrow> (\<exists>p. record_id_prev k = Some p \<and>
        (let l = \<lparr>rg_start = rg_start a, rg_end = p\<rparr>; r = \<lparr>rg_start = k, rg_end = rg_end a\<rparr>
         in range_ok l \<and> range_ok r \<and> range_set a = range_set l \<union> range_set r \<and>
            range_set l \<inter> range_set r = {} \<and> (b = l \<or> b = r))))"
proof -
  have valid: "range_is_valid a" "range_is_valid b"
    using assms by (auto simp: range_ok_def)
  have "\<exists>s. range_split_at a b = Some s \<and> (s = None \<longleftrightarrow> \<not> (rg_start a = rg_start b \<and> rg_end b < rg_end a \<or>
      rg_end a = rg_end b \<and> rg_start a < rg_start b))"
  proof (cases "rg_start a = rg_start b \<and> rg_end b < rg_end a")
    case True
    then show ?thesis
      using range_split_at_left [OF assms] by auto
  next
    case False
    then show ?thesis
      using valid by (cases "rg_end a = rg_end b \<and> rg_start a < rg_start b") (auto simp: range_split_at_def)
  qed
  then obtain s where s: "range_split_at a b = Some s" "s = None \<longleftrightarrow> \<not> (rg_start a = rg_start b \<and> rg_end b < rg_end a \<or>
      rg_end a = rg_end b \<and> rg_start a < rg_start b)"
    by blast
  have "\<exists>p. record_id_prev k = Some p \<and>
        (let l = \<lparr>rg_start = rg_start a, rg_end = p\<rparr>; r = \<lparr>rg_start = k, rg_end = rg_end a\<rparr>
         in range_ok l \<and> range_ok r \<and> range_set a = range_set l \<union> range_set r \<and>
            range_set l \<inter> range_set r = {} \<and> (b = l \<or> b = r))" if "s = Some k" for k
    using range_split_at_cases [OF assms, of k] range_cut [OF assms(1), of k] s(1) that by (cases b) (auto simp: Let_def)
  then show ?thesis
    using s by blast
qed

theorem range_split_at_exact_witness:
  "\<exists>p. range_split_at range_full \<lparr>rg_start = RecordId (0x80 # replicate 31 0), rg_end = record_id_max\<rparr>
        = Some (Some (RecordId (0x80 # replicate 31 0)))
      \<and> record_id_prev (RecordId (0x80 # replicate 31 0)) = Some p
      \<and> range_ok \<lparr>rg_start = record_id_min, rg_end = p\<rparr>"
proof -
  let ?b = "\<lparr>rg_start = RecordId (0x80 # replicate 31 0), rg_end = record_id_max\<rparr>"
  have "range_ok range_full" "range_ok ?b"
    by code_simp+
  moreover have "range_split_at range_full ?b = Some (Some (RecordId (0x80 # replicate 31 0)))"
    by code_simp
  ultimately show ?thesis
    using range_split_at_exact [of range_full ?b] by (auto simp: Let_def range_full_def)
qed

end
