(* ===== verification/Election.thy ===== *)
theory Election
  imports BTree Ids "HOL-Library.Multiset"
begin

text \<open>
  The crate \<open>election\<close> (\<open>src/election/src/lib.rs\<close>): the tally of captured log indexes
  over the members of a replication group.  The locale \<open>quorum_system\<close> states what commitment
  needs of winning sets (any two of them share a member); it is interpreted for the strict
  majorities that \<open>outcome\<close> accepts.
\<close>

record HsmElection =
  votes :: "(HsmId, LogIndex option) btree"

datatype ElectionNoQuorum = ElectionNoQuorum

definition election_new :: "HsmId list \<Rightarrow> HsmElection option" where
  "election_new voters = do {
     let vs = fold (\<lambda>(k, v). bt_insert k v) (map (\<lambda>i. (i, None)) voters) [];
     rust_assert (vs \<noteq> []);
     Some \<lparr>votes = vs\<rparr>
   }"

definition election_vote :: "HsmElection \<Rightarrow> HsmId \<Rightarrow> LogIndex \<Rightarrow> HsmElection" where
  "election_vote e voter index =
     (case bt_get (votes e) voter of
        None \<Rightarrow> e
      | Some _ \<Rightarrow> e\<lparr>votes := bt_insert voter (Some index) (votes e)\<rparr>)"

definition election_outcome :: "HsmElection \<Rightarrow> ElectionNoQuorum + LogIndex" where
  "election_outcome e =
     (let indexes = rev (sort (List.map_filter snd (votes e)));
          m = length (votes e) div 2
      in if length indexes > m then Inr (indexes ! m) else Inl ElectionNoQuorum)"

section \<open>Quorums\<close>

locale quorum_system =
  fixes voters :: "'h set"
    and quorum :: "'h set \<Rightarrow> bool"
  assumes quorum_inter: "quorum A \<Longrightarrow> quorum B \<Longrightarrow> A \<inter> B \<noteq> {}"
    and quorum_mono: "quorum A \<Longrightarrow> A \<subseteq> B \<Longrightarrow> B \<subseteq> voters \<Longrightarrow> quorum B"
begin

lemma quorum_nonempty: "quorum A \<Longrightarrow> A \<noteq> {}"
  using quorum_inter by blast

lemma quorum_agree:
  assumes "quorum A" "quorum B" "\<And>h. h \<in> A \<Longrightarrow> attests h x" "\<And>h. h \<in> B \<Longrightarrow> attests h y"
    and "\<And>h x y. attests h x \<Longrightarrow> attests h y \<Longrightarrow> x = y"
  shows "x = y"
  using assms quorum_inter by blast

end

definition majority :: "'h set \<Rightarrow> 'h set \<Rightarrow> bool" where
  "majority V S \<longleftrightarrow> finite V \<and> S \<subseteq> V \<and> card V < 2 * card S"

interpretation maj: quorum_system V "majority V" for V :: "'h set"
proof unfold_locales
  fix A B :: "'h set"
  assume AB: "majority V A" "majority V B"
  show "A \<inter> B \<noteq> {}"
  proof
    assume "A \<inter> B = {}"
    moreover have "finite A" "finite B"
      using AB by (auto simp: majority_def intro: finite_subset)
    ultimately have "card A + card B = card (A \<union> B)"
      by (simp add: card_Un_disjoint)
    also have "\<dots> \<le> card V"
      using AB by (auto simp: majority_def intro: card_mono)
    finally show False
      using AB by (simp add: majority_def)
  qed
next
  fix A B :: "'h set"
  assume "majority V A" "A \<subseteq> B" "B \<subseteq> V"
  then show "majority V B"
    using card_mono [of B A] finite_subset [of B V] by (auto simp: majority_def)
qed

section \<open>Tallies\<close>

definition voters_of :: "HsmElection \<Rightarrow> HsmId set" where
  "voters_of e = dom (bt_get (votes e))"

definition supporters :: "HsmElection \<Rightarrow> LogIndex \<Rightarrow> HsmId set" where
  "supporters e i = {h. \<exists>j. bt_get (votes e) h = Some (Some j) \<and> i \<le> j}"

definition election_inv :: "HsmElection \<Rightarrow> bool" where
  "election_inv e \<longleftrightarrow> bt_inv (votes e) \<and> votes e \<noteq> []"

lemma supporters_voters: "supporters e i \<subseteq> voters_of e"
  by (auto simp: supporters_def voters_of_def)

lemma supporters_mono: "i \<le> j \<Longrightarrow> supporters e j \<subseteq> supporters e i"
  by (auto simp: supporters_def)

lemma election_new_inv: "election_new hs = Some e \<Longrightarrow> election_inv e"
  using bt.invar_insert_all [OF bt.invar_empty]
  by (auto simp: election_new_def election_inv_def panic_simps Let_def)

lemma bt_insert_not_Nil: "bt_insert k v m \<noteq> []"
  by (induction k v m rule: bt_insert.induct) auto

lemma election_vote_inv: "election_inv e \<Longrightarrow> election_inv (election_vote e h i)"
  by (auto simp: election_vote_def election_inv_def bt.invar_insert bt_insert_not_Nil split: option.splits)

lemma election_vote_voters: "election_inv e \<Longrightarrow> voters_of (election_vote e h i) = voters_of e"
  by (auto simp: election_vote_def election_inv_def voters_of_def bt.get_insert split: option.splits)

lemma length_filter_votes:
  "length (filter P (List.map_filter snd m)) =
   length (filter (\<lambda>(k, v). case v of None \<Rightarrow> False | Some j \<Rightarrow> P j) m)"
  by (induction m) (auto simp: List.map_filter_def split: option.splits)

lemma card_supporters:
  assumes "bt_inv (votes e)"
  shows "card (supporters e i) = length (filter ((\<le>) i) (List.map_filter snd (votes e)))"
proof -
  let ?f = "filter (\<lambda>(k, v). case v of None \<Rightarrow> False | Some j \<Rightarrow> i \<le> j) (votes e)"
  have "distinct (map fst (votes e))"
    using assms by (rule bt.entries_distinct)
  then have "distinct (map fst ?f)"
    by (simp add: distinct_map_filter)
  moreover have "supporters e i = set (map fst ?f)"
    using assms by (force simp: supporters_def bt.in_entries [symmetric] split: option.splits)
  ultimately show ?thesis
    by (metis distinct_card length_filter_votes length_map)
qed

lemma length_filter_ge_nth:
  assumes "m < length xs"
  shows "m < length (filter ((\<le>) (rev (sort xs) ! m)) xs)"
    and "\<And>j. rev (sort xs) ! m < j \<Longrightarrow> length (filter ((\<le>) j) xs) \<le> m"
proof -
  let ?d = "rev (sort xs)"
  have d: "sorted (rev ?d)" "mset ?d = mset xs" "length ?d = length xs"
    by simp_all
  have flt: "length (filter P xs) = length (filter P ?d)" for P
    by (metis d(2) mset_filter size_mset)
  have split_d: "?d = take (Suc m) ?d @ drop (Suc m) ?d" "?d = take m ?d @ drop m ?d"
    by simp_all
  have mono: "?d ! b \<le> ?d ! a" if "a \<le> b" "b < length xs" for a b
    using sorted_rev_nth_mono [OF d(1)] that by simp
  have ge: "?d ! m \<le> x" if "x \<in> set (take (Suc m) ?d)" for x
    using that assms mono by (auto simp: in_set_conv_nth)
  have le: "x \<le> ?d ! m" if "x \<in> set (drop m ?d)" for x
    using that assms mono by (auto simp: in_set_conv_nth)
  have "filter ((\<le>) (?d ! m)) (take (Suc m) ?d) = take (Suc m) ?d"
    using ge by (auto simp: filter_id_conv)
  then have "length (filter ((\<le>) (?d ! m)) ?d) \<ge> Suc m"
    using assms by (subst split_d(1), subst filter_append) simp
  then show "m < length (filter ((\<le>) (?d ! m)) xs)"
    using flt by simp
  fix j
  assume j: "?d ! m < j"
  then have none: "filter ((\<le>) j) (drop m ?d) = []"
    using le by (force simp: filter_empty_conv)
  have "length (filter ((\<le>) j) ?d) = length (filter ((\<le>) j) (take m ?d))"
    using none by (metis append_Nil2 filter_append split_d(2))
  also have "\<dots> \<le> m"
    using length_filter_le [of "(\<le>) j" "take m ?d"] by simp
  finally show "length (filter ((\<le>) j) xs) \<le> m"
    using flt by simp
qed

lemma election_outcome_supporters:
  assumes "election_inv e" "election_outcome e = Inr i"
  shows "majority (voters_of e) (supporters e i)" "\<And>j. i < j \<Longrightarrow> \<not> majority (voters_of e) (supporters e j)"
proof -
  let ?xs = "List.map_filter snd (votes e)"
  let ?m = "length (votes e) div 2"
  have inv: "bt_inv (votes e)"
    using assms(1) by (simp add: election_inv_def)
  have m: "?m < length ?xs" and i: "i = rev (sort ?xs) ! ?m"
    using assms(2) by (auto simp: election_outcome_def Let_def split: if_splits)
  have n: "card (voters_of e) = length (votes e)" "finite (voters_of e)"
    using bt.entries_length [OF inv] bt.finite_dom [OF inv] by (simp_all add: voters_of_def)
  have "?m < card (supporters e i)"
    using length_filter_ge_nth(1) [OF m] i card_supporters [OF inv] by simp
  then show "majority (voters_of e) (supporters e i)"
    using n supporters_voters [of e i] by (simp add: majority_def)
  fix j
  assume "i < j"
  then have "card (supporters e j) \<le> ?m"
    using length_filter_ge_nth(2) [OF m] i card_supporters [OF inv] by simp
  then show "\<not> majority (voters_of e) (supporters e j)"
    using n by (auto simp: majority_def)
qed

lemma election_no_quorum:
  assumes "election_inv e" "election_outcome e = Inl x"
  shows "\<not> majority (voters_of e) (supporters e i)"
proof -
  have inv: "bt_inv (votes e)"
    using assms by (simp add: election_inv_def)
  have "length (List.map_filter snd (votes e)) \<le> length (votes e) div 2"
    using assms(2) by (auto simp: election_outcome_def Let_def split: if_splits)
  then have "card (supporters e i) \<le> length (votes e) div 2"
    using card_supporters [OF inv, of i] length_filter_le order_trans by metis
  then show ?thesis
    using bt.entries_length [OF inv] by (auto simp: majority_def voters_of_def)
qed

section \<open>Properties\<close>

text \<open>
  C24: \<open>outcome\<close> returns the largest log index that a strict majority of the eligible voters
  has captured (voted for it or for a later one), and \<open>ElectionNoQuorum\<close> exactly when no
  index has such a majority.
\<close>

theorem election_outcome_exact:
  assumes "election_inv e"
  shows "(\<forall>i. election_outcome e = Inr i \<longleftrightarrow>
            majority (voters_of e) (supporters e i) \<and>
            (\<forall>j>i. \<not> majority (voters_of e) (supporters e j))) \<and>
         (election_outcome e = Inl ElectionNoQuorum \<longleftrightarrow>
            (\<forall>i. \<not> majority (voters_of e) (supporters e i)))"
proof -
  have anti: "majority (voters_of e) (supporters e j) \<Longrightarrow> i \<le> j \<Longrightarrow>
      majority (voters_of e) (supporters e i)" for i j
    using maj.quorum_mono [of "voters_of e" "supporters e j" "supporters e i"]
      supporters_voters [of e i] supporters_mono [of i j e]
    by blast
  show ?thesis
  proof (cases "election_outcome e")
    case (Inl x)
    then show ?thesis
      using election_no_quorum [OF assms Inl] by (cases x) auto
  next
    case (Inr i)
    note i = election_outcome_supporters [OF assms Inr]
    then show ?thesis
      using Inr anti by (metis Inl_Inr_False linorder_neqE sum.inject(2))
  qed
qed

theorem election_outcome_exact_witness:
  "majority (voters_of \<lparr>votes = [(HsmId [1], Some 7), (HsmId [2], None), (HsmId [3], Some 5)]\<rparr>)
     (supporters \<lparr>votes = [(HsmId [1], Some 7), (HsmId [2], None), (HsmId [3], Some 5)]\<rparr> 5)"
proof -
  let ?e = "\<lparr>votes = [(HsmId [1], Some 7), (HsmId [2], None), (HsmId [3], Some 5)]\<rparr>"
  have "election_inv ?e" "election_outcome ?e = Inr 5"
    by code_simp+
  then show ?thesis
    using election_outcome_exact [of ?e] by blast
qed

text \<open>
  C25: two elections over the same voters that both reach a quorum have a common voter: some HSM
  has captured the first outcome's index in the first election and the second outcome's index in the
  second.
\<close>

theorem election_outcomes_intersect:
  assumes "election_inv e" "election_inv f" "voters_of e = voters_of f"
    and "election_outcome e = Inr i" "election_outcome f = Inr j"
  shows "\<exists>h a b. bt_get (votes e) h = Some (Some a) \<and> i \<le> a \<and> bt_get (votes f) h = Some (Some b) \<and> j \<le> b"
proof -
  have "supporters e i \<inter> supporters f j \<noteq> {}"
    using maj.quorum_inter election_outcome_supporters(1) assms by metis
  then show ?thesis
    by (auto simp: supporters_def)
qed

theorem election_outcomes_intersect_witness:
  "\<exists>h a b. bt_get [(HsmId [1], Some 7), (HsmId [2], None), (HsmId [3], Some 5)] h = Some (Some a) \<and>
     (5 :: LogIndex) \<le> a \<and>
     bt_get [(HsmId [1], None), (HsmId [2], Some 9), (HsmId [3], Some 8)] h = Some (Some b) \<and>
     (8 :: LogIndex) \<le> b"
proof -
  let ?e = "\<lparr>votes = [(HsmId [1], Some 7), (HsmId [2], None), (HsmId [3], Some 5)]\<rparr>"
  let ?f = "\<lparr>votes = [(HsmId [1], None), (HsmId [2], Some 9), (HsmId [3], Some 8)]\<rparr>"
  have "election_inv ?e" "election_inv ?f" "election_outcome ?e = Inr 5" "election_outcome ?f = Inr 8"
    by code_simp+
  moreover have "voters_of ?e = voters_of ?f"
    by (simp add: voters_of_def bt_get_def dom_def fun_eq_iff)
  ultimately show ?thesis
    using election_outcomes_intersect [of ?e ?f 5 8] by simp
qed

end
