(* ===== verification/LruCache.thy ===== *)
theory LruCache
  imports BTree "HOL-Library.Finite_Map"
begin

text \<open>
  The crate \<open>lru-cache\<close> (\<open>src/lru-cache/src/lib.rs\<close>) with its \<open>LogicalClock\<close>: the
  cache that holds the open Noise sessions of an HSM.  The hash map is a finite map, the age
  index an ordered map from times to keys.  The cache refines a list of entries in order of use
  (\<open>cache_abs\<close>); the locale \<open>bounded_store\<close> is what its clients rely on.
\<close>

record LogicalClock =
  now :: u64

definition clock_time :: "LogicalClock \<Rightarrow> u64 \<times> LogicalClock" where
  "clock_time c = (let c' = c\<lparr>now := now c + 1\<rparr> in (now c', c'))"

record Stats =
  st_entries :: nat
  st_limit :: nat
  st_lru_time :: "u64 option"

record ('k, 'v) Cache =
  c_map :: "('k, u64 \<times> 'v) fmap"
  c_lru :: "(u64, 'k) btree"
  c_clock :: LogicalClock
  c_limit :: nat

definition map_len :: "('k, 'v) fmap \<Rightarrow> nat" where
  "map_len m = fcard (fmdom m)"

definition cache_new :: "nat \<Rightarrow> ('k, 'v) Cache option" where
  "cache_new limit = do {
     rust_assert (limit > 0);
     Some \<lparr>c_map = fmempty, c_lru = [], c_clock = \<lparr>now = 0\<rparr>, c_limit = limit\<rparr>
   }"

definition cache_check_invariants :: "('k, 'v) Cache \<Rightarrow> bool" where
  "cache_check_invariants c \<longleftrightarrow>
     map_len (c_map c) = length (c_lru c) \<and>
     fmpred (\<lambda>k (mtime, _). bt_get (c_lru c) mtime = Some k) (c_map c) \<and>
     map_len (c_map c) \<le> c_limit c"

definition cache_insert :: "('k, 'v) Cache \<Rightarrow> 'k \<Rightarrow> 'v \<Rightarrow> ('k, 'v) Cache" where
  "cache_insert c k v =
     (let (t, clock') = clock_time (c_clock c);
          prev = fmlookup (c_map c) k;
          map1 = fmupd k (t, v) (c_map c);
          (map2, lru2) =
            (case prev of
               Some (prev_mtime, _) \<Rightarrow> (map1, bt_remove prev_mtime (c_lru c))
             | None \<Rightarrow>
                 if map_len map1 > c_limit c
                 then (case bt_pop_first (c_lru c) of
                         (Some (_, oldest), lru1) \<Rightarrow> (fmdrop oldest map1, lru1)
                       | (None, lru1) \<Rightarrow> (map1, lru1))
                 else (map1, c_lru c))
      in c\<lparr>c_map := map2, c_lru := bt_insert t k lru2, c_clock := clock'\<rparr>)"

definition cache_remove :: "('k, 'v) Cache \<Rightarrow> 'k \<Rightarrow> 'v option \<times> ('k, 'v) Cache" where
  "cache_remove c k =
     (case fmlookup (c_map c) k of
        Some (mtime, v) \<Rightarrow>
          (Some v, c\<lparr>c_map := fmdrop k (c_map c), c_lru := bt_remove mtime (c_lru c)\<rparr>)
      | None \<Rightarrow> (None, c))"

definition cache_get :: "('k, 'v) Cache \<Rightarrow> 'k \<Rightarrow> ('v option \<times> ('k, 'v) Cache) option" where
  "cache_get c k =
     (case cache_remove c k of
        (Some v, c1) \<Rightarrow>
          (let c2 = cache_insert c1 k v
           in do { (_, v') \<leftarrow> fmlookup (c_map c2) k; Some (Some v', c2) })
      | (None, c1) \<Rightarrow> Some (None, c1))"

definition cache_stats :: "('k, 'v) Cache \<Rightarrow> Stats" where
  "cache_stats c =
     \<lparr>st_entries = map_len (c_map c), st_limit = c_limit c,
      st_lru_time = (case c_lru c of [] \<Rightarrow> None | (mtime, _) # _ \<Rightarrow> Some mtime)\<rparr>"

section \<open>The specification: entries in order of use\<close>

definition lru_insert :: "nat \<Rightarrow> 'k \<Rightarrow> 'v \<Rightarrow> ('k \<times> 'v) list \<Rightarrow> ('k \<times> 'v) list" where
  "lru_insert limit k v xs =
     (let rest = filter (\<lambda>e. fst e \<noteq> k) xs
      in (if length rest < limit then rest else tl rest) @ [(k, v)])"

definition lru_remove :: "'k \<Rightarrow> ('k \<times> 'v) list \<Rightarrow> ('k \<times> 'v) list" where
  "lru_remove k xs = filter (\<lambda>e. fst e \<noteq> k) xs"

definition cache_abs :: "('k, 'v) Cache \<Rightarrow> ('k \<times> 'v) list" where
  "cache_abs c = map (\<lambda>(t, k). (k, snd (the (fmlookup (c_map c) k)))) (c_lru c)"

definition cache_inv :: "('k, 'v) Cache \<Rightarrow> bool" where
  "cache_inv c \<longleftrightarrow> bt_inv (c_lru c) \<and> distinct (map snd (c_lru c)) \<and>
     (\<forall>k t. (t, k) \<in> set (c_lru c) \<longleftrightarrow> (\<exists>v. fmlookup (c_map c) k = Some (t, v))) \<and>
     (\<forall>t \<in> fst ` set (c_lru c). t \<le> now (c_clock c)) \<and>
     length (c_lru c) \<le> c_limit c \<and> 0 < c_limit c"

lemma bt_insert_last: "\<forall>t' \<in> fst ` set m. t' < t \<Longrightarrow> bt_insert t k m = m @ [(t, k)]"
  by (induction t k m rule: bt_insert.induct) auto

lemma bt_remove_filter: "distinct (map fst m) \<Longrightarrow> bt_remove k m = filter (\<lambda>e. fst e \<noteq> k) m"
proof (induction k m rule: bt_remove.induct)
  case (2 k k' v' m)
  show ?case
  proof (cases "k = k'")
    case True
    then have "\<forall>e \<in> set m. fst e \<noteq> k"
      using 2(2) by (auto simp: image_iff)
    with True show ?thesis
      by (simp add: filter_id_conv)
  qed (use 2 in simp)
qed simp

lemma cache_inv_dom: "cache_inv c \<Longrightarrow> fset (fmdom (c_map c)) = snd ` set (c_lru c)"
  unfolding fmdom.rep_eq cache_inv_def dom_def by (auto simp: image_iff) (metis prod.exhaust snd_conv)+

lemma cache_inv_len: "cache_inv c \<Longrightarrow> map_len (c_map c) = length (c_lru c)"
proof -
  assume "cache_inv c"
  then have "distinct (map snd (c_lru c))" "fset (fmdom (c_map c)) = set (map snd (c_lru c))"
    by (simp_all add: cache_inv_dom) (simp add: cache_inv_def)
  then show ?thesis
    by (metis distinct_card fcard.rep_eq length_map map_len_def)
qed

lemma cache_inv_time_unique:
  assumes "cache_inv c" "fmlookup (c_map c) k = Some (t, v)" "(t', k') \<in> set (c_lru c)"
  shows "t' = t \<longleftrightarrow> k' = k"
proof -
  have "distinct (map fst (c_lru c))" "distinct (map snd (c_lru c))"
    using assms(1) bt.entries_distinct by (auto simp: cache_inv_def)
  moreover have "(t, k) \<in> set (c_lru c)"
    using assms(1,2) by (auto simp: cache_inv_def)
  ultimately show ?thesis
    using assms(3) by (metis eq_key_imp_eq_value inj_onD distinct_map prod.inject snd_conv)
qed

lemma cache_remove_lru:
  assumes "cache_inv c" "fmlookup (c_map c) k = Some (t, v)"
  shows "bt_remove t (c_lru c) = filter (\<lambda>e. snd e \<noteq> k) (c_lru c)"
proof -
  have "distinct (map fst (c_lru c))"
    using assms(1) bt.entries_distinct by (auto simp: cache_inv_def)
  then have "bt_remove t (c_lru c) = filter (\<lambda>e. fst e \<noteq> t) (c_lru c)"
    by (rule bt_remove_filter)
  also have "\<dots> = filter (\<lambda>e. snd e \<noteq> k) (c_lru c)"
    using cache_inv_time_unique [OF assms] by (intro filter_cong) auto
  finally show ?thesis .
qed

lemma cache_absent_lru:
  assumes "cache_inv c" "fmlookup (c_map c) k = None"
  shows "filter (\<lambda>e. snd e \<noteq> k) (c_lru c) = c_lru c"
  using assms by (auto simp: cache_inv_def filter_id_conv)

definition kept :: "('k, 'v) Cache \<Rightarrow> 'k \<Rightarrow> (u64, 'k) btree" where
  "kept c k = (let r = filter (\<lambda>e. snd e \<noteq> k) (c_lru c) in if length r < c_limit c then r else tl r)"

lemma set_tl_subset: "set (tl xs) \<subseteq> set xs"
  by (cases xs) auto

lemma set_kept: "set (kept c k) \<subseteq> {e \<in> set (c_lru c). snd e \<noteq> k}"
  using set_tl_subset [of "filter (\<lambda>e. snd e \<noteq> k) (c_lru c)"] by (auto simp: kept_def Let_def)

lemma length_kept: "cache_inv c \<Longrightarrow> length (kept c k) < c_limit c"
  using order_trans [OF length_filter_le, of "c_lru c" "c_limit c" "\<lambda>e. snd e \<noteq> k"]
  by (auto simp: kept_def Let_def cache_inv_def)

lemma distinct_tl_map: "distinct (map f xs) \<Longrightarrow> distinct (map f (tl xs))"
  by (cases xs) auto

lemma sorted_wrt_tl_map: "sorted_wrt P (map f xs) \<Longrightarrow> sorted_wrt P (map f (tl xs))"
  by (cases xs) auto

lemma sorted_wrt_map_filter: "sorted_wrt P (map f xs) \<Longrightarrow> sorted_wrt P (map f (filter Q xs))"
  by (induction xs) auto

lemma kept_sorted: "cache_inv c \<Longrightarrow> bt_inv (kept c k) \<and> distinct (map snd (kept c k))"
  by (auto simp: kept_def Let_def cache_inv_def bt_inv_def distinct_map_filter
      intro!: distinct_tl_map sorted_wrt_tl_map sorted_wrt_map_filter)

lemma cache_insert_form:
  assumes inv: "cache_inv c" and clk: "now (c_clock c) \<noteq> - 1"
  shows "\<exists>m. cache_insert c k v =
           c\<lparr>c_map := m, c_lru := kept c k @ [(now (c_clock c) + 1, k)],
             c_clock := \<lparr>now = now (c_clock c) + 1\<rparr>\<rparr> \<and>
         (\<forall>k'. fmlookup m k' = (if k' = k then Some (now (c_clock c) + 1, v)
                else if k' \<in> snd ` set (kept c k) then fmlookup (c_map c) k' else None))"
proof -
  let ?t = "now (c_clock c) + 1"
  let ?r = "filter (\<lambda>e. snd e \<noteq> k) (c_lru c)"
  let ?m1 = "fmupd k (?t, v) (c_map c)"
  have fresh: "\<forall>t' \<in> fst ` set (kept c k). t' < ?t"
    using inv clk checked_add1_less [of "now (c_clock c)" ?t] set_kept [of c k]
    by (force simp: cache_inv_def checked_add1_def)
  have clock: "clock_time (c_clock c) = (?t, \<lparr>now = ?t\<rparr>)"
    by (simp add: clock_time_def)
  have dom: "fmlookup (c_map c) k' = None" if "k' \<notin> snd ` set (c_lru c)" for k'
    using cache_inv_dom [OF inv] that by (simp add: fmdom_notD)
  show ?thesis
  proof (cases "length ?r < c_limit c")
    case True
    then have kept: "kept c k = ?r"
      by (simp add: kept_def)
    have ins: "cache_insert c k v =
        c\<lparr>c_map := ?m1, c_lru := bt_insert ?t k ?r, c_clock := \<lparr>now = ?t\<rparr>\<rparr>"
    proof (cases "fmlookup (c_map c) k")
      case None
      have "map_len ?m1 = Suc (length (c_lru c))"
        using None cache_inv_len [OF inv] by (simp add: map_len_def fmdom_notI fcard_finsert_disjoint)
      then show ?thesis
        using None True cache_absent_lru [OF inv None]
        by (simp add: cache_insert_def clock Let_def)
    next
      case (Some e)
      then show ?thesis
        using cache_remove_lru [OF inv, of k "fst e" "snd e"]
        by (cases e) (simp add: cache_insert_def clock Let_def)
    qed
    have look: "fmlookup ?m1 k' = (if k' = k then Some (?t, v)
        else if k' \<in> snd ` set (kept c k) then fmlookup (c_map c) k' else None)" for k'
      using dom [of k'] by (auto simp: kept)
    show ?thesis
      using ins look bt_insert_last [OF fresh, of k]
      by (intro exI [of _ ?m1] conjI allI) (simp_all only: kept)
  next
    case False
    have abs: "fmlookup (c_map c) k = None"
    proof (rule ccontr)
      assume "fmlookup (c_map c) k \<noteq> None"
      then obtain t w where "(t, k) \<in> set (c_lru c)"
        using inv by (auto simp: cache_inv_def)
      then have "length ?r < length (c_lru c)"
        by (intro length_filter_less [of "(t, k)"]) auto
      then show False
        using False inv by (simp add: cache_inv_def)
    qed
    note same = cache_absent_lru [OF inv abs]
    obtain t0 k0 rest where lru: "c_lru c = (t0, k0) # rest"
      using False inv same by (cases "c_lru c") (auto simp: cache_inv_def)
    have kept: "kept c k = rest"
      using False same lru by (simp add: kept_def)
    have "map_len ?m1 = Suc (length (c_lru c))"
      using abs cache_inv_len [OF inv] by (simp add: map_len_def fmdom_notI fcard_finsert_disjoint)
    then have ins: "cache_insert c k v =
        c\<lparr>c_map := fmdrop k0 ?m1, c_lru := bt_insert ?t k rest, c_clock := \<lparr>now = ?t\<rparr>\<rparr>"
      using abs False same lru by (simp add: cache_insert_def clock Let_def bt_pop_first_def)
    have "\<exists>w. fmlookup (c_map c) k0 = Some (t0, w)" "k0 \<notin> snd ` set rest"
      using inv lru by (auto simp: cache_inv_def)
    then have "k0 \<noteq> k" "k0 \<notin> snd ` set rest"
      using abs by auto
    then have look: "fmlookup (fmdrop k0 ?m1) k' = (if k' = k then Some (?t, v)
        else if k' \<in> snd ` set (kept c k) then fmlookup (c_map c) k' else None)" for k'
      using dom [of k'] lru by (auto simp: kept)
    show ?thesis
      using ins look bt_insert_last [OF fresh, of k]
      by (intro exI [of _ "fmdrop k0 ?m1"] conjI allI) (simp_all only: kept)
  qed
qed

lemma cache_insert_inv:
  assumes "cache_inv c" "now (c_clock c) \<noteq> - 1"
  shows "cache_inv (cache_insert c k v)"
proof -
  let ?t = "now (c_clock c) + 1"
  obtain m where c': "cache_insert c k v =
      c\<lparr>c_map := m, c_lru := kept c k @ [(?t, k)], c_clock := \<lparr>now = ?t\<rparr>\<rparr>"
    and m: "\<And>k'. fmlookup m k' = (if k' = k then Some (?t, v)
        else if k' \<in> snd ` set (kept c k) then fmlookup (c_map c) k' else None)"
    using cache_insert_form [OF assms] by blast
  have less: "now (c_clock c) < ?t"
    using assms(2) checked_add1_less by (simp add: checked_add1_def)
  have old: "t' \<le> now (c_clock c)" "k' \<noteq> k" "\<exists>w. fmlookup (c_map c) k' = Some (t', w)"
    if "(t', k') \<in> set (kept c k)" for t' k'
  proof -
    have "(t', k') \<in> set (c_lru c)" "k' \<noteq> k"
      using set_kept [of c k] that by auto
    then show "t' \<le> now (c_clock c)" "k' \<noteq> k" "\<exists>w. fmlookup (c_map c) k' = Some (t', w)"
      using assms(1) by (force simp: cache_inv_def)+
  qed
  have "(t', k') \<in> set (kept c k)" if "k' \<in> snd ` set (kept c k)" "fmlookup (c_map c) k' = Some (t', w)"
    for t' k' w
    using that old(3) by fastforce
  then have "((t', k') \<in> set (kept c k @ [(?t, k)])) = (\<exists>w. fmlookup m k' = Some (t', w))" for t' k'
    using old [of t' k'] image_eqI [of k' snd "(t', k')" "set (kept c k)"] by (auto simp: m)
  moreover have "bt_inv (kept c k @ [(?t, k)])" "distinct (map snd (kept c k @ [(?t, k)]))"
    using kept_sorted [OF assms(1), of k] old less
    by (auto simp: bt_inv_def sorted_wrt_append) (meson le_less_trans, blast)
  moreover have "t' \<le> ?t" if "t' \<in> fst ` set (kept c k @ [(?t, k)])" for t'
    using that old(1) less by fastforce
  ultimately show ?thesis
    using length_kept [OF assms(1), of k] by (simp add: cache_inv_def c' Suc_le_eq)
qed

lemma cache_insert_abs:
  assumes "cache_inv c" "now (c_clock c) \<noteq> - 1"
  shows "cache_abs (cache_insert c k v) = lru_insert (c_limit c) k v (cache_abs c)"
proof -
  let ?t = "now (c_clock c) + 1"
  let ?f = "\<lambda>(t, k). (k, snd (the (fmlookup (c_map c) k)))"
  obtain m where c': "cache_insert c k v =
      c\<lparr>c_map := m, c_lru := kept c k @ [(?t, k)], c_clock := \<lparr>now = ?t\<rparr>\<rparr>"
    and m: "\<And>k'. fmlookup m k' = (if k' = k then Some (?t, v)
        else if k' \<in> snd ` set (kept c k) then fmlookup (c_map c) k' else None)"
    using cache_insert_form [OF assms] by blast
  have "fmlookup m k' = fmlookup (c_map c) k'" if "(t', k') \<in> set (kept c k)" for t' k'
    using that set_kept [of c k] by (force simp: m)
  then have "map (\<lambda>(t, k). (k, snd (the (fmlookup m k)))) (kept c k) = map ?f (kept c k)"
    by auto
  then have "cache_abs (cache_insert c k v) = map ?f (kept c k) @ [(k, v)]"
    using m [of k] by (simp add: c' cache_abs_def)
  moreover have "filter (\<lambda>e. fst e \<noteq> k) (map ?f (c_lru c)) = map ?f (filter (\<lambda>e. snd e \<noteq> k) (c_lru c))"
    by (simp add: filter_map comp_def split_def)
  ultimately show ?thesis
    by (simp add: cache_abs_def lru_insert_def kept_def Let_def map_tl)
qed

lemma cache_remove_inv: "cache_inv c \<Longrightarrow> cache_inv (snd (cache_remove c k))"
proof (cases "fmlookup (c_map c) k")
  case (Some e)
  assume inv: "cache_inv c"
  have lru: "bt_remove (fst e) (c_lru c) = filter (\<lambda>e. snd e \<noteq> k) (c_lru c)"
    using cache_remove_lru [OF inv] Some by (metis prod.collapse)
  have "length (filter (\<lambda>e. snd e \<noteq> k) (c_lru c)) \<le> c_limit c"
    using inv order_trans [OF length_filter_le] by (auto simp: cache_inv_def)
  then show ?thesis
    using inv Some lru
    by (auto simp: cache_remove_def cache_inv_def bt_inv_def distinct_map_filter sorted_wrt_map_filter
        split: prod.splits)
qed (simp add: cache_remove_def)

lemma cache_remove_abs:
  assumes "cache_inv c"
  shows "fst (cache_remove c k) = map_of (cache_abs c) k"
    and "cache_abs (snd (cache_remove c k)) = lru_remove k (cache_abs c)"
proof -
  let ?f = "\<lambda>(t, k). (k, snd (the (fmlookup (c_map c) k)))"
  have look: "map_of (map ?f L) k = (if k \<in> snd ` set L then Some (snd (the (fmlookup (c_map c) k))) else None)"
    for L :: "(u64 \<times> 'a) list"
    by (induction L) auto
  have dom: "k \<in> snd ` set (c_lru c) \<longleftrightarrow> fmlookup (c_map c) k \<noteq> None"
    using assms by (force simp: cache_inv_def)
  then show "fst (cache_remove c k) = map_of (cache_abs c) k"
    by (auto simp: cache_remove_def cache_abs_def look split: option.splits)
  have "filter (\<lambda>e. fst e \<noteq> k) (map ?f (c_lru c)) = map ?f (filter (\<lambda>e. snd e \<noteq> k) (c_lru c))"
    by (simp add: filter_map comp_def split_def)
  then show "cache_abs (snd (cache_remove c k)) = lru_remove k (cache_abs c)"
    using cache_remove_lru [OF assms] cache_absent_lru [OF assms]
    by (cases "fmlookup (c_map c) k") (auto simp: cache_remove_def cache_abs_def lru_remove_def)
qed

lemma cache_remove_clock [simp]:
  "c_clock (snd (cache_remove c k)) = c_clock c" "c_limit (snd (cache_remove c k)) = c_limit c"
  by (simp_all add: cache_remove_def split: option.splits prod.splits)

lemma cache_new_inv: "cache_new limit = Some c \<Longrightarrow> cache_inv c \<and> cache_abs c = [] \<and> c_limit c = limit"
  by (auto simp: cache_new_def panic_simps cache_inv_def bt_inv_def cache_abs_def)

lemma cache_inv_check: "cache_inv c \<Longrightarrow> cache_check_invariants c"
  using cache_inv_len [of c] bt.in_entries [of "c_lru c"]
  by (fastforce simp: cache_check_invariants_def cache_inv_def fmpred_iff)

lemma lru_insert_removed:
  assumes "length xs \<le> limit" "map_of xs k = Some w"
  shows "lru_insert limit k v (lru_remove k xs) = lru_remove k xs @ [(k, v)]"
proof -
  have "length (lru_remove k xs) < length xs"
    using map_of_SomeD [OF assms(2)]
    by (auto simp: lru_remove_def intro: length_filter_less)
  then show ?thesis
    using assms(1) by (simp add: lru_insert_def lru_remove_def Let_def)
qed

lemma length_cache_abs: "cache_inv c \<Longrightarrow> length (cache_abs c) \<le> c_limit c"
  by (simp add: cache_abs_def cache_inv_def)

lemma cache_lookup_abs: "cache_inv c \<Longrightarrow> map_option snd (fmlookup (c_map c) k) = map_of (cache_abs c) k"
  using cache_remove_abs(1) [of c k] by (auto simp: cache_remove_def split: option.splits)

lemma map_of_lru_insert_same: "map_of (lru_insert n k v xs) k = Some v"
proof -
  let ?r = "filter (\<lambda>e. fst e \<noteq> k) xs"
  have "k \<notin> fst ` set ?r"
    by auto
  moreover from this have "k \<notin> fst ` set (tl ?r)"
    using set_tl_subset [of ?r] by blast
  ultimately have "map_of ?r k = None" "map_of (tl ?r) k = None"
    by (simp_all only: map_of_eq_None_iff) simp_all
  then show ?thesis
    by (simp add: lru_insert_def Let_def map_add_def)
qed

lemma map_of_filter_key: "k' \<noteq> k \<Longrightarrow> map_of (filter (\<lambda>e. fst e \<noteq> k) xs) k' = map_of xs k'"
  by (induction xs) auto

lemma map_of_lru_insert_other:
  assumes "k' \<noteq> k" "distinct (map fst xs)"
  shows "map_of (lru_insert n k v xs) k' = None \<or> map_of (lru_insert n k v xs) k' = map_of xs k'"
proof -
  let ?r = "filter (\<lambda>e. fst e \<noteq> k) xs"
  have "map_of (tl ?r) k' = None \<or> map_of (tl ?r) k' = map_of ?r k'"
  proof (cases ?r)
    case (Cons e r)
    then have "distinct (map fst (e # r))"
      using assms(2) by (metis distinct_map_filter)
    then show ?thesis
      using Cons by (cases e) (auto simp: map_of_eq_None_iff)
  qed simp
  then show ?thesis
    using assms(1) map_of_filter_key [OF assms(1), of xs]
    by (auto simp: lru_insert_def Let_def map_add_def split: option.splits)
qed

lemma distinct_cache_abs: "cache_inv c \<Longrightarrow> distinct (map fst (cache_abs c))"
  by (simp add: cache_abs_def cache_inv_def comp_def split_def)

section \<open>The contract of a bounded store\<close>

locale bounded_store =
  fixes put :: "'c \<Rightarrow> 'k \<Rightarrow> 'v \<Rightarrow> 'c"
    and take_out :: "'c \<Rightarrow> 'k \<Rightarrow> 'v option \<times> 'c"
    and find :: "'c \<Rightarrow> 'k \<Rightarrow> 'v option"
    and invar :: "'c \<Rightarrow> bool"
    and room :: "'c \<Rightarrow> bool"
  assumes invar_put: "invar c \<Longrightarrow> room c \<Longrightarrow> invar (put c k v)"
    and invar_take: "invar c \<Longrightarrow> invar (snd (take_out c k))"
    and find_put_same: "invar c \<Longrightarrow> room c \<Longrightarrow> find (put c k v) k = Some v"
    and find_put_other: "invar c \<Longrightarrow> room c \<Longrightarrow> k' \<noteq> k \<Longrightarrow>
      find (put c k v) k' = None \<or> find (put c k v) k' = find c k'"
    and take_result: "invar c \<Longrightarrow> fst (take_out c k) = find c k"
    and find_take: "invar c \<Longrightarrow> find (snd (take_out c k)) k' = (if k' = k then None else find c k')"
begin

lemma take_after_put: "invar c \<Longrightarrow> room c \<Longrightarrow> fst (take_out (put c k v) k) = Some v"
  by (simp add: invar_put take_result find_put_same)

lemma take_twice: "invar c \<Longrightarrow> fst (take_out (snd (take_out c k)) k) = None"
  by (simp add: invar_take take_result find_take)

lemma put_only_from:
  "invar c \<Longrightarrow> room c \<Longrightarrow> find (put c k v) k' = Some w \<Longrightarrow> (k' = k \<and> w = v) \<or> find c k' = Some w"
  using find_put_same find_put_other by (metis option.distinct(1) option.inject)

end

definition cache_find :: "('k, 'v) Cache \<Rightarrow> 'k \<Rightarrow> 'v option" where
  "cache_find c k = map_option snd (fmlookup (c_map c) k)"

interpretation lc: bounded_store cache_insert cache_remove cache_find cache_inv
  "\<lambda>c. now (c_clock c) \<noteq> - 1"
proof unfold_locales
  fix c :: "('a, 'b) Cache" and k k' v
  assume inv: "cache_inv c"
  show "cache_inv (snd (cache_remove c k))"
    using inv by (rule cache_remove_inv)
  show "fst (cache_remove c k) = cache_find c k"
    by (simp add: cache_remove_def cache_find_def split: option.splits prod.splits)
  show "cache_find (snd (cache_remove c k)) k' = (if k' = k then None else cache_find c k')"
    by (simp add: cache_remove_def cache_find_def split: option.splits prod.splits)
  assume clk: "now (c_clock c) \<noteq> - 1"
  show ins: "cache_inv (cache_insert c k v)"
    using inv clk by (rule cache_insert_inv)
  show "cache_find (cache_insert c k v) k = Some v"
    using ins inv clk by (simp add: cache_find_def cache_lookup_abs cache_insert_abs map_of_lru_insert_same)
  show "cache_find (cache_insert c k v) k' = None \<or> cache_find (cache_insert c k v) k' = cache_find c k'"
    if "k' \<noteq> k"
    using ins inv clk that
    by (simp add: cache_find_def cache_lookup_abs cache_insert_abs map_of_lru_insert_other distinct_cache_abs)
qed

section \<open>Properties\<close>

text \<open>
  C26: as long as the 64-bit clock is not exhausted, the LRU cache implements a list of entries in
  order of use: \<open>insert\<close> moves its key to the end and evicts the least recently used entry
  exactly when a new key would exceed the limit, \<open>remove\<close> takes the key's entry out,
  \<open>get\<close> returns it and makes it the most recent; and the checks of
  \<open>check_invariants\<close> hold after every operation.
\<close>

theorem cache_refines_lru:
  assumes "cache_inv c" "now (c_clock c) \<noteq> - 1"
  shows "cache_inv (cache_insert c k v) \<and> cache_check_invariants (cache_insert c k v) \<and>
         cache_abs (cache_insert c k v) = lru_insert (c_limit c) k v (cache_abs c) \<and>
         fst (cache_remove c k) = map_of (cache_abs c) k \<and>
         cache_check_invariants (snd (cache_remove c k)) \<and>
         cache_abs (snd (cache_remove c k)) = lru_remove k (cache_abs c) \<and>
         (\<exists>c'. cache_get c k = Some (map_of (cache_abs c) k, c') \<and> cache_inv c' \<and>
            cache_abs c' = (case map_of (cache_abs c) k of None \<Rightarrow> cache_abs c
                            | Some w \<Rightarrow> lru_remove k (cache_abs c) @ [(k, w)]))"
proof -
  let ?c1 = "snd (cache_remove c k)"
  have c1: "cache_inv ?c1" "now (c_clock ?c1) \<noteq> - 1"
    using assms cache_remove_inv by auto
  have "\<exists>c'. cache_get c k = Some (map_of (cache_abs c) k, c') \<and> cache_inv c' \<and>
            cache_abs c' = (case map_of (cache_abs c) k of None \<Rightarrow> cache_abs c
                            | Some w \<Rightarrow> lru_remove k (cache_abs c) @ [(k, w)])"
  proof (cases "fst (cache_remove c k)")
    case None
    then have "cache_remove c k = (None, c)"
      by (auto simp: cache_remove_def split: option.splits)
    then show ?thesis
      using None assms cache_remove_abs(1) [OF assms(1), of k] by (simp add: cache_get_def)
  next
    case (Some w)
    then have m: "map_of (cache_abs c) k = Some w"
      using cache_remove_abs(1) [OF assms(1), of k] by simp
    have look: "cache_find (cache_insert ?c1 k w) k = Some w"
      using c1 by (rule lc.find_put_same)
    have abs: "cache_abs (cache_insert ?c1 k w) = lru_remove k (cache_abs c) @ [(k, w)]"
      using cache_insert_abs [OF c1, of k w] cache_remove_abs(2) [OF assms(1), of k]
        lru_insert_removed [OF length_cache_abs [OF assms(1)] m] by simp
    show ?thesis
      using look abs m Some cache_insert_inv [OF c1, of k w]
      by (auto simp: cache_get_def cache_find_def Let_def split_def)
  qed
  then show ?thesis
    using assms c1 by (simp add: cache_insert_inv cache_inv_check cache_insert_abs cache_remove_abs)
qed

theorem cache_refines_lru_witness:
  "cache_abs (cache_insert \<lparr>c_map = fmap_of_list [(1 :: int, (4, 10 :: int)), (2, (6, 20))],
       c_lru = [(4, 1), (6, 2)], c_clock = \<lparr>now = 6\<rparr>, c_limit = 2\<rparr> 3 30) = [(2, 20), (3, 30)]"
proof -
  let ?c = "\<lparr>c_map = fmap_of_list [(1 :: int, (4, 10 :: int)), (2, (6, 20))],
       c_lru = [(4, 1), (6, 2)], c_clock = \<lparr>now = 6\<rparr>, c_limit = 2\<rparr> :: (int, int) Cache"
  have "cache_inv ?c"
    by (auto simp: cache_inv_def bt_inv_def fmlookup_of_list split: if_splits)
  moreover have "lru_insert 2 3 30 (cache_abs ?c) = [(2, 20), (3, 30)]"
    by (simp add: cache_abs_def lru_insert_def fmlookup_of_list)
  ultimately show ?thesis
    using cache_refines_lru [of ?c 3 30] by simp
qed

end
