(* ===== verification/MerkleNode.thy ===== *)
theory MerkleNode
  imports BTree Ids
begin

text \<open>
  Nodes of the Merkle tree and their hashes (\<open>src/hsm_api/src/merkle.rs\<close> and the first part
  of \<open>src/hsm_core/src/merkle.rs\<close>), and the sets of node changes \<open>StoreDelta\<close>.

  Keys are boolean lists: \<open>BitVec\<close> shows that \<open>BitVec\<close> and \<open>BitSlice\<close>
  implement them.  What remains of the packed representation are its panics: an index or a slice out
  of bounds and a concatenation longer than 256 bits.  The hash function and the big-endian encoders of
  the SDK are the fields of a \<open>NodeHasher\<close> record; \<open>hasher_ok\<close> names what the proofs use
  of them.
\<close>

type_synonym KeyVec = "bool list"

definition kv_from :: "KeyVec \<Rightarrow> nat \<Rightarrow> KeyVec option" where
  "kv_from k i = (if i \<le> length k then Some (drop i k) else None)"

definition kv_to :: "KeyVec \<Rightarrow> nat \<Rightarrow> KeyVec option" where
  "kv_to k i = (if i \<le> length k then Some (take i k) else None)"

definition kv_concat :: "KeyVec \<Rightarrow> KeyVec \<Rightarrow> KeyVec option" where
  "kv_concat a b = (if length a + length b \<le> 256 then Some (a @ b) else None)"

section \<open>Nodes\<close>

datatype Dir = Left | Right

definition dir_from :: "bool \<Rightarrow> Dir" where
  "dir_from b = (if b then Right else Left)"

definition opposite :: "Dir \<Rightarrow> Dir" where
  "opposite d = (case d of Left \<Rightarrow> Right | Right \<Rightarrow> Left)"

record 'h Branch =
  br_prefix :: KeyVec
  br_hash :: 'h

record LeafNode =
  lf_value :: bytes

record 'h InteriorNode =
  in_left :: "'h Branch option"
  in_right :: "'h Branch option"

datatype 'h Node = Interior "'h InteriorNode" | Leaf LeafNode

datatype 'h NodeKey = NodeKey (nk_prefix: KeyVec) (nk_hash: 'h)

record 'h ReadProof =
  rp_key :: RecordId
  rp_range :: OwnedRange
  rp_leaf :: "LeafNode option"
  rp_path :: "'h InteriorNode list"
  rp_root_hash :: 'h

instantiation NodeKey :: (linorder) linorder
begin

definition less_eq_NodeKey :: "'a NodeKey \<Rightarrow> 'a NodeKey \<Rightarrow> bool" where
  "less_eq_NodeKey a b \<longleftrightarrow>
     nk_prefix a < nk_prefix b \<or> nk_prefix a = nk_prefix b \<and> nk_hash a \<le> nk_hash b"

definition less_NodeKey :: "'a NodeKey \<Rightarrow> 'a NodeKey \<Rightarrow> bool" where
  "less_NodeKey a b \<longleftrightarrow>
     nk_prefix a < nk_prefix b \<or> nk_prefix a = nk_prefix b \<and> nk_hash a < nk_hash b"

instance
  by intro_classes (auto simp: less_eq_NodeKey_def less_NodeKey_def intro: NodeKey.expand)

end

definition branch_dir :: "'h Branch \<Rightarrow> Dir option" where
  "branch_dir b = do { x \<leftarrow> index_get (br_prefix b) 0; Some (dir_from x) }"

definition assert_dir :: "'h Branch option \<Rightarrow> Dir \<Rightarrow> unit option" where
  "assert_dir b d =
     (case b of
        None \<Rightarrow> Some ()
      | Some b \<Rightarrow> do {
          rust_assert (br_prefix b \<noteq> []);
          d' \<leftarrow> branch_dir b;
          rust_assert (d = d')
        })"

definition interior_new :: "'h Branch option \<Rightarrow> 'h Branch option \<Rightarrow> 'h InteriorNode option" where
  "interior_new left right = do {
     assert_dir left Left;
     assert_dir right Right;
     Some \<lparr>in_left = left, in_right = right\<rparr>
   }"

definition branch :: "'h InteriorNode \<Rightarrow> Dir \<Rightarrow> 'h Branch option" where
  "branch n dir = (case dir of Left \<Rightarrow> in_left n | Right \<Rightarrow> in_right n)"

section \<open>Deltas\<close>

type_synonym 'h NodeKeySet = "('h NodeKey, unit) btree"

record 'h StoreDelta =
  sd_add :: "('h NodeKey, 'h Node) btree"
  sd_remove :: "'h NodeKeySet"

record 'h DeltaBuilder =
  to_add :: "('h NodeKey, 'h Node) btree"
  to_remove :: "'h NodeKeySet"

definition delta_default :: "'h StoreDelta" where
  "delta_default = \<lparr>sd_add = [], sd_remove = []\<rparr>"

definition delta_is_empty :: "'h StoreDelta \<Rightarrow> bool" where
  "delta_is_empty d \<longleftrightarrow> sd_add d = [] \<and> sd_remove d = []"

definition squash_remove :: "'h::linorder NodeKey \<Rightarrow> 'h StoreDelta \<Rightarrow> 'h StoreDelta" where
  "squash_remove k d =
     (case bt_get (sd_add d) k of
        None \<Rightarrow> d\<lparr>sd_remove := bt_insert k () (sd_remove d)\<rparr>
      | Some _ \<Rightarrow> d\<lparr>sd_add := bt_remove k (sd_add d)\<rparr>)"

definition squash :: "'h::linorder StoreDelta \<Rightarrow> 'h StoreDelta \<Rightarrow> 'h StoreDelta" where
  "squash d other =
     (let d1 = d\<lparr>sd_add := fold (\<lambda>(k, n). bt_insert k n) (sd_add other) (sd_add d)\<rparr>
      in fold squash_remove (map fst (sd_remove other)) d1)"

definition db_new :: "'h DeltaBuilder" where
  "db_new = \<lparr>to_add = [], to_remove = []\<rparr>"

definition db_add :: "'h::linorder NodeKey \<Rightarrow> 'h Node \<Rightarrow> 'h DeltaBuilder \<Rightarrow> 'h DeltaBuilder" where
  "db_add k n b = b\<lparr>to_add := bt_insert k n (to_add b)\<rparr>"

definition db_remove :: "'h::linorder NodeKey \<Rightarrow> 'h DeltaBuilder \<Rightarrow> 'h DeltaBuilder" where
  "db_remove k b = b\<lparr>to_remove := bt_insert k () (to_remove b)\<rparr>"

definition db_build :: "'h::linorder DeltaBuilder \<Rightarrow> 'h StoreDelta" where
  "db_build b = \<lparr>sd_add = to_add b, sd_remove = fold bt_remove (map fst (to_add b)) (to_remove b)\<rparr>"

section \<open>Hashes\<close>

record 'h NodeHasher =
  finalize :: "bytes \<Rightarrow> 'h"
  as_slice :: "'h \<Rightarrow> bytes"
  zero_hash :: 'h
  to_be2 :: "nat \<Rightarrow> bytes"
  to_be8 :: "nat \<Rightarrow> bytes"

datatype 'h NodeHashBuilder =
    NHLeaf RecordId bytes
  | NHInterior "'h Branch" "'h Branch"
  | NHRoot OwnedRange "'h Branch option" "'h Branch option"

definition ascii :: "string \<Rightarrow> bytes" where
  "ascii s = map of_char s"

definition branch_len :: "'h NodeHasher \<Rightarrow> 'h Branch \<Rightarrow> u8 option" where
  "branch_len H b =
     (let n = 2 + length (bytes_of_bits (br_prefix b)) + length (as_slice H (br_hash b))
      in if n < 256 then Some (of_nat n) else None)"

definition branch_bytes :: "'h NodeHasher \<Rightarrow> 'h Branch \<Rightarrow> bytes" where
  "branch_bytes H b =
     to_be2 H (length (br_prefix b)) @ bytes_of_bits (br_prefix b) @ as_slice H (br_hash b)"

definition branches_bytes :: "'h NodeHasher \<Rightarrow> 'h Branch \<Rightarrow> 'h Branch \<Rightarrow> bytes option" where
  "branches_bytes H left right = do {
     ll \<leftarrow> branch_len H left;
     rl \<leftarrow> branch_len H right;
     Some ([ll] @ [rl] @ branch_bytes H left @ branch_bytes H right)
   }"

definition nhb_bytes :: "'h NodeHasher \<Rightarrow> 'h NodeHashBuilder \<Rightarrow> bytes option" where
  "nhb_bytes H b =
     (case b of
        NHLeaf key val \<Rightarrow> Some (ascii ''leaf'' @ rid_bytes key @ to_be8 H (length val) @ val)
      | NHInterior left right \<Rightarrow>
          map_option (\<lambda>bs. ascii ''interior'' @ bs) (branches_bytes H left right)
      | NHRoot part left_maybe right_maybe \<Rightarrow>
          (let zero = \<lparr>br_prefix = [], br_hash = zero_hash H\<rparr>;
               left = (case left_maybe of None \<Rightarrow> zero | Some b \<Rightarrow> b);
               right = (case right_maybe of None \<Rightarrow> zero | Some b \<Rightarrow> b)
           in map_option
                (\<lambda>bs. ascii ''root'' @ rid_bytes (rg_start part) @ rid_bytes (rg_end part) @ bs)
                (branches_bytes H left right)))"

definition nhb_build :: "'h NodeHasher \<Rightarrow> 'h NodeHashBuilder \<Rightarrow> 'h option" where
  "nhb_build H b = map_option (finalize H) (nhb_bytes H b)"

definition calc_hash ::
  "'h NodeHasher \<Rightarrow> OwnedRange \<Rightarrow> bool \<Rightarrow> 'h Branch option \<Rightarrow> 'h Branch option \<Rightarrow> 'h option" where
  "calc_hash H key_range is_root left right = do {
     b \<leftarrow> (if is_root then Some (NHRoot key_range left right)
          else do { l \<leftarrow> left; r \<leftarrow> right; Some (NHInterior l r) });
     nhb_build H b
   }"

definition new_with_hash ::
  "'h NodeHasher \<Rightarrow> OwnedRange \<Rightarrow> bool \<Rightarrow> 'h Branch option \<Rightarrow> 'h Branch option \<Rightarrow>
   ('h \<times> 'h InteriorNode) option" where
  "new_with_hash H key_range is_root left right = do {
     h \<leftarrow> calc_hash H key_range is_root left right;
     n \<leftarrow> interior_new left right;
     Some (h, n)
   }"

definition construct ::
  "'h NodeHasher \<Rightarrow> OwnedRange \<Rightarrow> bool \<Rightarrow> 'h Branch option \<Rightarrow> 'h Branch option \<Rightarrow>
   ('h \<times> 'h InteriorNode) option" where
  "construct H key_range is_root a b =
     (case (a, b) of
        (None, None) \<Rightarrow> new_with_hash H key_range is_root None None
      | (Some x, _) \<Rightarrow> do {
          d \<leftarrow> branch_dir x;
          let (l, r) = (if d = Left then (a, b) else (b, a));
          new_with_hash H key_range is_root l r
        }
      | (None, Some x) \<Rightarrow> do {
          d \<leftarrow> branch_dir x;
          let (l, r) = (if d = Left then (b, a) else (a, b));
          new_with_hash H key_range is_root l r
        })"

definition root_with_new_partition ::
  "'h NodeHasher \<Rightarrow> 'h InteriorNode \<Rightarrow> OwnedRange \<Rightarrow> ('h \<times> 'h InteriorNode) option" where
  "root_with_new_partition H n key_range = new_with_hash H key_range True (in_left n) (in_right n)"

definition with_new_child ::
  "'h NodeHasher \<Rightarrow> 'h InteriorNode \<Rightarrow> OwnedRange \<Rightarrow> bool \<Rightarrow> Dir \<Rightarrow> 'h Branch \<Rightarrow>
   ('h \<times> 'h InteriorNode) option" where
  "with_new_child H n key_range is_root dir child =
     (case dir of
        Left \<Rightarrow> new_with_hash H key_range is_root (Some child) (in_right n)
      | Right \<Rightarrow> new_with_hash H key_range is_root (in_left n) (Some child))"

definition with_new_child_hash ::
  "'h NodeHasher \<Rightarrow> 'h InteriorNode \<Rightarrow> OwnedRange \<Rightarrow> bool \<Rightarrow> Dir \<Rightarrow> 'h \<Rightarrow>
   ('h \<times> 'h InteriorNode) option" where
  "with_new_child_hash H n key_range is_root dir hash = do {
     b \<leftarrow> branch n dir;
     let nb = \<lparr>br_prefix = br_prefix b, br_hash = hash\<rparr>;
     with_new_child H n key_range is_root dir nb
   }"

definition new_leaf :: "'h NodeHasher \<Rightarrow> RecordId \<Rightarrow> bytes \<Rightarrow> ('h \<times> LeafNode) option" where
  "new_leaf H k v = do { h \<leftarrow> nhb_build H (NHLeaf k v); Some (h, \<lparr>lf_value = v\<rparr>) }"

definition new_tree :: "'h::linorder NodeHasher \<Rightarrow> OwnedRange \<Rightarrow> ('h \<times> 'h StoreDelta) option" where
  "new_tree H key_range = do {
     (hash, root) \<leftarrow> new_with_hash H key_range True None None;
     Some (hash, db_build (db_add (NodeKey [] hash) (Interior root) db_new))
   }"

section \<open>What the proofs use of the hash function and the encoders\<close>

definition be_ok :: "nat \<Rightarrow> (nat \<Rightarrow> bytes) \<Rightarrow> bool" where
  "be_ok w f \<longleftrightarrow> (\<forall>n < 256 ^ w. length (f n) = w \<and> be_val (f n) = n)"

definition hasher_ok :: "'h NodeHasher \<Rightarrow> bool" where
  "hasher_ok H \<longleftrightarrow> be_ok 2 (to_be2 H) \<and> be_ok 8 (to_be8 H) \<and> inj (as_slice H) \<and>
     (\<forall>h. length (as_slice H h) \<le> 221)"

definition branch_ok :: "'h Branch \<Rightarrow> bool" where
  "branch_ok b \<longleftrightarrow> br_prefix b \<noteq> [] \<and> length (br_prefix b) \<le> 256"

fun nhb_ok :: "'h NodeHashBuilder \<Rightarrow> bool" where
  "nhb_ok (NHLeaf k v) \<longleftrightarrow> rid_ok k \<and> length v < 256 ^ 8"
| "nhb_ok (NHInterior l r) \<longleftrightarrow> branch_ok l \<and> branch_ok r"
| "nhb_ok (NHRoot rg l r) \<longleftrightarrow> rid_ok (rg_start rg) \<and> rid_ok (rg_end rg) \<and>
     pred_option branch_ok l \<and> pred_option branch_ok r"

lemma be_ok_length: "be_ok w f \<Longrightarrow> n < 256 ^ w \<Longrightarrow> length (f n) = w"
  by (simp add: be_ok_def)

lemma be_ok_inj: "be_ok w f \<Longrightarrow> m < 256 ^ w \<Longrightarrow> n < 256 ^ w \<Longrightarrow> f m = f n \<Longrightarrow> m = n"
  by (metis be_ok_def)

lemma bytes_of_bits_inj:
  "bytes_of_bits p = bytes_of_bits q \<Longrightarrow> length p = length q \<Longrightarrow> p = q"
proof (rule nth_equalityI)
  fix i
  assume eq: "bytes_of_bits p = bytes_of_bits q" and len: "length p = length q" and i: "i < length p"
  let ?j = "i div 8"
  have j: "?j < (length p + 7) div 8"
    using i div_le_mono [of "i + 8" "length p + 7" 8] by simp
  then have "byte_of_bits (take 8 (drop (8 * ?j) p)) = byte_of_bits (take 8 (drop (8 * ?j) q))"
    using eq len by (metis nth_bytes_of_bits)
  moreover have "7 - (7 - i mod 8) = i mod 8"
    by simp
  moreover have "bit (byte_of_bits (take 8 (drop (8 * ?j) xs))) (7 - i mod 8) = xs ! i"
    if "length xs = length p" for xs
  proof -
    have "i mod 8 < length (take 8 (drop (8 * ?j) xs))"
      using i that mod_mult_div_eq [of i 8] by (simp add: less_diff_conv)
    moreover have "8 * ?j + i mod 8 = i"
      by simp
    ultimately show ?thesis
      by (simp add: bit_byte_of_bits)
  qed
  ultimately show "p ! i = q ! i"
    using len by metis
qed simp

lemma branch_bytes_inj:
  assumes H: "hasher_ok H" and ok: "length (br_prefix a) \<le> 256" "length (br_prefix b) \<le> 256"
    and eq: "branch_bytes H a = branch_bytes H b"
  shows "a = (b :: 'h Branch)"
proof -
  have be: "be_ok 2 (to_be2 H)"
    using H by (simp add: hasher_ok_def)
  have lens: "length (br_prefix a) < 256 ^ 2" "length (br_prefix b) < 256 ^ 2"
    using ok by simp_all
  then have "to_be2 H (length (br_prefix a)) = to_be2 H (length (br_prefix b))"
    and rest: "bytes_of_bits (br_prefix a) @ as_slice H (br_hash a) =
               bytes_of_bits (br_prefix b) @ as_slice H (br_hash b)"
    using eq be_ok_length [OF be] by (auto simp: branch_bytes_def)
  then have len: "length (br_prefix a) = length (br_prefix b)"
    using be_ok_inj [OF be lens] by blast
  then have "bytes_of_bits (br_prefix a) = bytes_of_bits (br_prefix b)"
    and "as_slice H (br_hash a) = as_slice H (br_hash b)"
    using rest by (simp_all add: length_bytes_of_bits)
  then have "br_prefix a = br_prefix b" "br_hash a = br_hash b"
    using bytes_of_bits_inj len H by (auto simp: hasher_ok_def inj_eq)
  then show ?thesis
    by simp
qed

lemma length_branch_bytes:
  assumes "hasher_ok H" "length (br_prefix b) \<le> 256" "branch_len H b = Some n"
  shows "length (branch_bytes H b) = unat n"
proof -
  define m where "m = 2 + length (bytes_of_bits (br_prefix b)) + length (as_slice H (br_hash b))"
  have "length (to_be2 H (length (br_prefix b))) = 2"
    using assms(1,2) by (simp add: hasher_ok_def be_ok_def)
  then have "length (branch_bytes H b) = m"
    by (simp add: branch_bytes_def m_def)
  moreover have "n = of_nat m" "m < 256"
    using assms(3) by (auto simp: branch_len_def m_def Let_def simp del: of_nat_add split: if_splits)
  ultimately show ?thesis
    by (simp add: unat_of_nat)
qed

lemma branches_bytes_inj:
  assumes "hasher_ok H" "length (br_prefix l) \<le> 256" "length (br_prefix r) \<le> 256"
    "length (br_prefix l') \<le> 256" "length (br_prefix r') \<le> 256"
    and "branches_bytes H l r = Some x" "branches_bytes H l' r' = Some x"
  shows "l = l' \<and> r = (r' :: 'h Branch)"
proof -
  obtain n where n: "branch_len H l = Some n" "branch_len H l' = Some n"
    and eq: "branch_bytes H l @ branch_bytes H r = branch_bytes H l' @ branch_bytes H r'"
    using assms(6,7) by (auto simp: branches_bytes_def panic_simps)
  then have "length (branch_bytes H l) = length (branch_bytes H l')"
    using length_branch_bytes [OF assms(1)] assms(2,4) by metis
  then have "branch_bytes H l = branch_bytes H l'" "branch_bytes H r = branch_bytes H r'"
    using eq by auto
  then show ?thesis
    using branch_bytes_inj [OF assms(1)] assms(2-5) by blast
qed

lemma root_branch_default_inj:
  assumes "pred_option branch_ok a" "pred_option branch_ok b"
    and "(case a of None \<Rightarrow> z | Some x \<Rightarrow> x) = (case b of None \<Rightarrow> z | Some x \<Rightarrow> x)" "br_prefix z = []"
  shows "a = (b :: 'h Branch option)"
  using assms by (auto simp: branch_ok_def split: option.splits)

lemma branch_len_ok:
  assumes "hasher_ok H" "length (br_prefix b) \<le> 256"
  shows "branch_len H b \<noteq> None"
proof -
  have "length (bytes_of_bits (br_prefix b)) \<le> 32"
    using assms(2) by (simp add: length_bytes_of_bits)
  moreover have "length (as_slice H (br_hash b)) \<le> 221"
    using assms(1) by (simp add: hasher_ok_def)
  ultimately show ?thesis
    by (auto simp: branch_len_def Let_def)
qed

fun be_bytes :: "nat \<Rightarrow> nat \<Rightarrow> bytes" where
  "be_bytes 0 n = []"
| "be_bytes (Suc w) n = be_bytes w (n div 256) @ [of_nat (n mod 256)]"

definition example_hasher :: "u8 NodeHasher" where
  "example_hasher =
     \<lparr>finalize = (\<lambda>bs. of_nat (length bs)), as_slice = (\<lambda>h. [h]),
      zero_hash = 0, to_be2 = be_bytes 2, to_be8 = be_bytes 8\<rparr>"

lemma length_be_bytes [simp]: "length (be_bytes w n) = w"
  by (induction w n rule: be_bytes.induct) simp_all

lemma be_val_be_bytes: "n < 256 ^ w \<Longrightarrow> be_val (be_bytes w n) = n"
proof (induction w n rule: be_bytes.induct)
  case (2 w n)
  then have "n div 256 < 256 ^ w"
    by (simp add: less_mult_imp_div_less mult.commute)
  with 2 show ?case
    by (simp add: unat_of_nat)
qed simp

lemma be_ok_be_bytes: "be_ok w (be_bytes w)"
  by (simp add: be_ok_def be_val_be_bytes)

lemma example_hasher_ok: "hasher_ok example_hasher"
  by (simp add: hasher_ok_def example_hasher_def be_ok_be_bytes inj_def)

section \<open>Deltas as changes of a store\<close>

definition delta_inv :: "'h::linorder StoreDelta \<Rightarrow> bool" where
  "delta_inv d \<longleftrightarrow> bt_inv (sd_add d) \<and> bt_inv (sd_remove d) \<and>
     dom (bt_get (sd_add d)) \<inter> dom (bt_get (sd_remove d)) = {}"

definition apply_delta :: "'h StoreDelta \<Rightarrow> ('h NodeKey \<rightharpoonup> 'h Node) \<Rightarrow> ('h NodeKey \<rightharpoonup> 'h Node)" where
  "apply_delta d st k =
     (if bt_get (sd_remove d) k \<noteq> None then None
      else case bt_get (sd_add d) k of Some n \<Rightarrow> Some n | None \<Rightarrow> st k)"

definition db_inv :: "'h::linorder DeltaBuilder \<Rightarrow> bool" where
  "db_inv b \<longleftrightarrow> bt_inv (to_add b) \<and> bt_inv (to_remove b)"

lemma db_new_inv [simp]: "db_inv db_new"
  by (simp add: db_inv_def db_new_def bt_inv_def)

lemma db_add_inv [simp]: "db_inv b \<Longrightarrow> db_inv (db_add k n b)"
  by (simp add: db_inv_def db_add_def bt.invar_insert)

lemma db_remove_inv [simp]: "db_inv b \<Longrightarrow> db_inv (db_remove k b)"
  by (simp add: db_inv_def db_remove_def bt.invar_insert)

lemma fold_bt_remove:
  "bt_inv m \<Longrightarrow> bt_inv (fold bt_remove ks m) \<and>
   bt_get (fold bt_remove ks m) k = (if k \<in> set ks then None else bt_get m k)"
  by (induction ks arbitrary: m) (auto simp: bt.invar_remove bt.get_remove)

lemma db_build_inv:
  assumes "db_inv b"
  shows "delta_inv (db_build b)"
proof -
  have "bt_inv (sd_remove (db_build b))"
    using assms fold_bt_remove by (auto simp: db_inv_def db_build_def)
  moreover have "bt_get (sd_remove (db_build b)) k = None" if "bt_get (to_add b) k = Some n" for k n
    using assms that fold_bt_remove [of "to_remove b" "map fst (to_add b)" k] bt.in_entries [of "to_add b" k n]
    by (force simp: db_inv_def db_build_def)
  ultimately show ?thesis
    using assms by (auto simp: delta_inv_def db_inv_def db_build_def)
qed

lemma db_build_removes:
  "db_inv b \<Longrightarrow> bt_get (sd_remove (db_build b)) k \<noteq> None \<longleftrightarrow>
     bt_get (to_remove b) k \<noteq> None \<and> bt_get (to_add b) k = None"
  using fold_bt_remove [of "to_remove b" "map fst (to_add b)" k] bt.dom_entries [of "to_add b"]
  by (auto simp: db_inv_def db_build_def domIff simp flip: image_set)

lemma apply_db_build:
  "db_inv b \<Longrightarrow> apply_delta (db_build b) st k =
     (case bt_get (to_add b) k of Some n \<Rightarrow> Some n
      | None \<Rightarrow> if bt_get (to_remove b) k = None then st k else None)"
  using db_build_removes [of b k] by (auto simp: apply_delta_def db_build_def split: option.splits)

lemma squash_remove_inv:
  "bt_inv (sd_add d) \<Longrightarrow> bt_inv (sd_remove d) \<Longrightarrow>
   bt_inv (sd_add (squash_remove k d)) \<and> bt_inv (sd_remove (squash_remove k d))"
  by (auto simp: squash_remove_def bt.invar_insert bt.invar_remove split: option.splits)

lemma squash_remove_get:
  assumes "bt_inv (sd_add d)" "bt_inv (sd_remove d)"
  shows "bt_get (sd_add (squash_remove k d)) k' = (if k' = k then None else bt_get (sd_add d) k')"
    and "bt_get (sd_remove (squash_remove k d)) k' =
         (if k' = k \<and> bt_get (sd_add d) k = None then Some () else bt_get (sd_remove d) k')"
  using assms by (auto simp: squash_remove_def bt.get_insert bt.get_remove split: option.splits)

lemma fold_squash_remove:
  assumes "distinct ks" "bt_inv (sd_add d)" "bt_inv (sd_remove d)"
  shows "bt_inv (sd_add (fold squash_remove ks d)) \<and> bt_inv (sd_remove (fold squash_remove ks d)) \<and>
    bt_get (sd_add (fold squash_remove ks d)) k = (if k \<in> set ks then None else bt_get (sd_add d) k) \<and>
    bt_get (sd_remove (fold squash_remove ks d)) k =
      (if k \<in> set ks \<and> bt_get (sd_add d) k = None then Some () else bt_get (sd_remove d) k)"
  using assms
proof (induction ks arbitrary: d)
  case (Cons k' ks)
  then show ?case
    using squash_remove_inv [of d k'] squash_remove_get [of d k'] by auto
qed simp

lemma squash_get:
  assumes "delta_inv d" "delta_inv e"
  shows "bt_get (sd_add (squash d e)) k =
           (if bt_get (sd_remove e) k \<noteq> None then None
            else case bt_get (sd_add e) k of Some n \<Rightarrow> Some n | None \<Rightarrow> bt_get (sd_add d) k)"
    and "bt_get (sd_remove (squash d e)) k =
           (if bt_get (sd_remove e) k \<noteq> None \<and> bt_get (sd_add d) k = None \<and> bt_get (sd_add e) k = None
            then Some () else bt_get (sd_remove d) k)"
    and "bt_inv (sd_add (squash d e))" "bt_inv (sd_remove (squash d e))"
proof -
  define a where "a = fold (\<lambda>(k, n). bt_insert k n) (sd_add e) (sd_add d)"
  have inv: "bt_inv (sd_add d)" "bt_inv (sd_remove d)" "bt_inv (sd_add e)" "bt_inv (sd_remove e)"
    using assms by (auto simp: delta_inv_def)
  have "distinct (map fst (sd_add e))"
    using inv(3) by (rule bt.entries_distinct)
  then have "map_of (rev (sd_add e)) = bt_get (sd_add e)"
    by (simp add: map_of_rev_distinct bt_get_def fun_eq_iff)
  then have a: "bt_inv a" "bt_get a = bt_get (sd_add d) ++ bt_get (sd_add e)"
    using bt.invar_insert_all [OF inv(1)] bt.get_insert_all [OF inv(1)] by (simp_all add: a_def)
  have "k \<in> set (map fst (sd_remove e)) \<longleftrightarrow> bt_get (sd_remove e) k \<noteq> None"
    using bt.dom_entries [OF inv(4)] by (auto simp: domIff)
  moreover have "distinct (map fst (sd_remove e))"
    using inv(4) by (rule bt.entries_distinct)
  ultimately show
    "bt_get (sd_add (squash d e)) k =
           (if bt_get (sd_remove e) k \<noteq> None then None
            else case bt_get (sd_add e) k of Some n \<Rightarrow> Some n | None \<Rightarrow> bt_get (sd_add d) k)"
    "bt_get (sd_remove (squash d e)) k =
           (if bt_get (sd_remove e) k \<noteq> None \<and> bt_get (sd_add d) k = None \<and> bt_get (sd_add e) k = None
            then Some () else bt_get (sd_remove d) k)"
    "bt_inv (sd_add (squash d e))" "bt_inv (sd_remove (squash d e))"
    using fold_squash_remove [of "map fst (sd_remove e)" "d\<lparr>sd_add := a\<rparr>" k] a inv(2)
    by (auto simp: squash_def Let_def map_add_def simp flip: a_def split: option.splits)
qed

lemma nhb_bytes_inj:
  assumes "hasher_ok H" "nhb_ok a" "nhb_ok b" "nhb_bytes H a = Some x" "nhb_bytes H b = Some x"
  shows "a = b"
proof -
  have tags: "ascii ''leaf'' = [108, 101, 97, 102]" "ascii ''root'' = [114, 111, 111, 116]"
    "ascii ''interior'' = [105, 110, 116, 101, 114, 105, 111, 114]"
    by (simp_all add: ascii_def of_char_def)
  show ?thesis
  proof (cases a)
    case (NHLeaf k v)
    then obtain k' v' where b: "b = NHLeaf k' v'"
      using assms(4,5) by (cases b) (auto simp: nhb_bytes_def tags Let_def)
    have "rid_bytes k @ to_be8 H (length v) @ v = rid_bytes k' @ to_be8 H (length v') @ v'"
      using assms(4,5) NHLeaf b by (auto simp: nhb_bytes_def)
    then have "rid_bytes k = rid_bytes k'" and rest: "to_be8 H (length v) @ v = to_be8 H (length v') @ v'"
      using assms(2,3) NHLeaf b by (auto simp: rid_ok_def)
    moreover have "length (to_be8 H (length v)) = length (to_be8 H (length v'))"
      using assms(1-3) NHLeaf b by (simp add: hasher_ok_def be_ok_def)
    ultimately show ?thesis
      using NHLeaf b by (auto intro: RecordId.expand)
  next
    case (NHInterior l r)
    then obtain l' r' where b: "b = NHInterior l' r'"
      using assms(4,5) by (cases b) (auto simp: nhb_bytes_def tags Let_def)
    obtain y where "branches_bytes H l r = Some y" "branches_bytes H l' r' = Some y"
      using assms(4,5) NHInterior b by (auto simp: nhb_bytes_def)
    then show ?thesis
      using branches_bytes_inj [OF assms(1), of l r l' r' y] assms(2,3) NHInterior b
      by (auto simp: branch_ok_def)
  next
    case (NHRoot rg l r)
    then obtain rg' l' r' where b: "b = NHRoot rg' l' r'"
      using assms(4,5) by (cases b) (auto simp: nhb_bytes_def tags Let_def)
    define z where "z = \<lparr>br_prefix = [], br_hash = zero_hash H\<rparr>"
    define d where "d = case_option z (\<lambda>x. x)"
    have z: "br_prefix z = []"
      by (simp add: z_def)
    obtain y y' where y: "branches_bytes H (d l) (d r) = Some y" "branches_bytes H (d l') (d r') = Some y'"
      and "rid_bytes (rg_start rg) @ rid_bytes (rg_end rg) @ y =
           rid_bytes (rg_start rg') @ rid_bytes (rg_end rg') @ y'"
      using assms(4,5) NHRoot b by (auto simp: nhb_bytes_def Let_def d_def z_def)
    then have "rid_bytes (rg_start rg) = rid_bytes (rg_start rg')"
      "rid_bytes (rg_end rg) = rid_bytes (rg_end rg')" "y = y'"
      using assms(2,3) NHRoot b by (auto simp: rid_ok_def)
    then have rg: "rg = rg'" and y': "branches_bytes H (d l') (d r') = Some y"
      using y by (auto intro!: OwnedRange.equality RecordId.expand)
    have "length (br_prefix (d o')) \<le> 256" if "pred_option branch_ok o'" for o'
      using that by (auto simp: d_def z branch_ok_def split: option.splits)
    then have "d l = d l'" "d r = d r'"
      using branches_bytes_inj [OF assms(1) _ _ _ _ y(1) y'] assms(2,3) NHRoot b by auto
    then show ?thesis
      using root_branch_default_inj [of l l' z] root_branch_default_inj [of r r' z] z rg
        assms(2,3) NHRoot b by (auto simp: d_def)
  qed
qed

lemma nhb_bytes_total:
  assumes "hasher_ok H" "nhb_ok a"
  shows "\<exists>x. nhb_bytes H a = Some x"
proof -
  have len: "\<exists>n. branch_len H b = Some n" if "length (br_prefix b) \<le> 256" for b
    using branch_len_ok [OF assms(1) that] by blast
  have two: "\<exists>x. branches_bytes H l r = Some x"
    if "length (br_prefix l) \<le> 256" "length (br_prefix r) \<le> 256" for l r
    using len [OF that(1)] len [OF that(2)] by (auto simp: branches_bytes_def)
  have def: "length (br_prefix (case o' of None \<Rightarrow> \<lparr>br_prefix = [], br_hash = zero_hash H\<rparr> | Some b \<Rightarrow> b)) \<le> 256"
    if "pred_option branch_ok o'" for o'
    using that by (auto simp: branch_ok_def split: option.splits)
  show ?thesis
    using assms(2) two def by (cases a) (auto simp: nhb_bytes_def branch_ok_def Let_def)
qed

section \<open>Properties\<close>

text \<open>
  C20: hashing a well-formed leaf, interior or root node never panics, and the byte strings hashed
  are unambiguous: two such nodes (of any kinds, with any record ids, ranges, prefixes, child hashes
  and values) that feed the same bytes to the hash function are the same node.
\<close>

theorem node_preimage_unambiguous:
  assumes "hasher_ok H"
  shows "(\<forall>a. nhb_ok a \<longrightarrow> nhb_bytes H a \<noteq> None) \<and> inj_on (nhb_bytes H) {a. nhb_ok a}"
  using nhb_bytes_total [OF assms] nhb_bytes_inj [OF assms]
  by (auto intro!: inj_onI) metis

theorem node_preimage_unambiguous_witness:
  "nhb_bytes example_hasher (NHLeaf record_id_min [1, 2]) \<noteq>
   nhb_bytes example_hasher (NHLeaf record_id_min [1])"
proof -
  have "nhb_ok (NHLeaf record_id_min [1, 2] :: u8 NodeHashBuilder)"
    "nhb_ok (NHLeaf record_id_min [1] :: u8 NodeHashBuilder)"
    by (simp_all add: rid_ok_def record_id_num_bytes_def record_id_min_def)
  then show ?thesis
    using node_preimage_unambiguous [OF example_hasher_ok] by (auto dest: inj_onD)
qed

text \<open>
  C31: a built \<open>StoreDelta\<close> never both adds and removes a node, whatever was recorded in the
  builder, and applying it to a store adds every node recorded as added and removes exactly the nodes
  recorded as removed and not added.
\<close>

theorem delta_build_apply:
  assumes "db_inv b"
  shows "delta_inv (db_build b) \<and>
         apply_delta (db_build b) st k =
           (case bt_get (to_add b) k of Some n \<Rightarrow> Some n
            | None \<Rightarrow> if bt_get (to_remove b) k = None then st k else None)"
  using assms db_build_inv apply_db_build by blast

theorem delta_build_apply_witness:
  "apply_delta (db_build (db_remove (NodeKey [True] (1::u64)) (db_add (NodeKey [] 2) (Leaf \<lparr>lf_value = [9]\<rparr>) db_new)))
     [NodeKey [True] 1 \<mapsto> Leaf \<lparr>lf_value = [8]\<rparr>] (NodeKey [True] 1) = None"
proof -
  let ?b = "db_remove (NodeKey [True] (1::u64)) (db_add (NodeKey [] 2) (Leaf \<lparr>lf_value = [9]\<rparr>) db_new)"
  have "db_inv ?b"
    by simp
  then show ?thesis
    using delta_build_apply [of ?b "[NodeKey [True] 1 \<mapsto> Leaf \<lparr>lf_value = [8]\<rparr>]" "NodeKey [True] 1"]
    by (simp add: db_remove_def db_add_def db_new_def bt_get_def)
qed

text \<open>
  C32: squashing two deltas.  A delta is written to storage by writing its nodes and then deleting
  the removed ones.  Writing the squash of two deltas treats a node differently from writing the two in
  turn in exactly two cases: the second delta adds a node back that the first one removes, or the first
  one adds a node that is already stored and the second one removes it.  The squash keeps the added and
  the removed nodes apart, as \<open>StoreDelta\<close> promises, exactly when the first case does not occur.
\<close>

theorem squash_apply_exact:
  assumes "delta_inv d" "delta_inv e"
  shows "(\<forall>k. apply_delta (squash d e) st k = apply_delta e (apply_delta d st) k \<longleftrightarrow>
      k \<notin> dom (bt_get (sd_remove d)) \<inter> dom (bt_get (sd_add e)) \<and>
      k \<notin> dom st \<inter> dom (bt_get (sd_add d)) \<inter> dom (bt_get (sd_remove e))) \<and>
    (delta_inv (squash d e) \<longleftrightarrow> dom (bt_get (sd_remove d)) \<inter> dom (bt_get (sd_add e)) = {})"
proof -
  note g = squash_get [OF assms]
  have apart: "bt_get (sd_add d) k = None \<or> bt_get (sd_remove d) k = None"
    "bt_get (sd_add e) k = None \<or> bt_get (sd_remove e) k = None" for k
    using assms by (auto simp: delta_inv_def dom_def)
  have "apply_delta (squash d e) st k = apply_delta e (apply_delta d st) k \<longleftrightarrow>
      \<not> (bt_get (sd_remove d) k \<noteq> None \<and> bt_get (sd_add e) k \<noteq> None) \<and>
      \<not> (st k \<noteq> None \<and> bt_get (sd_add d) k \<noteq> None \<and> bt_get (sd_remove e) k \<noteq> None)" for k
    using apart [of k] by (auto simp: apply_delta_def g(1,2) split: option.splits)
  moreover have "bt_get (sd_add (squash d e)) k \<noteq> None \<and> bt_get (sd_remove (squash d e)) k \<noteq> None \<longleftrightarrow>
      bt_get (sd_remove d) k \<noteq> None \<and> bt_get (sd_add e) k \<noteq> None" for k
    using apart [of k] by (auto simp: g(1,2) split: option.splits)
  then have "delta_inv (squash d e) \<longleftrightarrow> dom (bt_get (sd_remove d)) \<inter> dom (bt_get (sd_add e)) = {}"
    unfolding delta_inv_def dom_def using g(3,4) by blast
  ultimately show ?thesis
    by (simp add: domIff)
qed

theorem squash_apply_exact_witness:
  "\<exists>d e k (n :: u64 Node). delta_inv d \<and> delta_inv e \<and> \<not> delta_inv (squash d e) \<and>
     apply_delta (squash d e) [k \<mapsto> n] k \<noteq> apply_delta e (apply_delta d [k \<mapsto> n]) k"
proof (intro exI conjI)
  let ?k = "NodeKey [True] (1::u64)" and ?n = "Leaf \<lparr>lf_value = [1]\<rparr>"
  let ?d = "\<lparr>sd_add = [], sd_remove = [(?k, ())]\<rparr> :: u64 StoreDelta"
  let ?e = "\<lparr>sd_add = [(?k, ?n)], sd_remove = []\<rparr> :: u64 StoreDelta"
  show inv: "delta_inv ?d" "delta_inv ?e"
    by (auto simp: delta_inv_def bt_inv_def bt_get_def)
  have readd: "?k \<in> dom (bt_get (sd_remove ?d)) \<inter> dom (bt_get (sd_add ?e))"
    by (simp add: bt_get_def domIff)
  show "\<not> delta_inv (squash ?d ?e)" "apply_delta (squash ?d ?e) [?k \<mapsto> ?n] ?k \<noteq> apply_delta ?e (apply_delta ?d [?k \<mapsto> ?n]) ?k"
    using squash_apply_exact [OF inv, of "[?k \<mapsto> ?n]"] readd by blast+
qed

end
