(* ===== verification/MerkleTree.thy ===== *)
theory MerkleTree
  imports MerkleProof
begin

text \<open>
  The specification of the Merkle tree: an abstract compressed binary trie over record keys, its
  lookup, and the nodes and hashes that represent it.  The theorems say what the proofs of
  \<open>MerkleProof\<close> establish about such a tree: a proof that verifies against the root hash of a
  tree carries the leaf that the tree has for the key, unless two of the hashed byte strings
  involved collide; and the proof read off the tree verifies.
\<close>

datatype mtree = MLeaf bytes | MNode mbranch mbranch
     and mbranch = MNone | MBranch KeyVec mtree

fun t_lookup :: "mtree \<Rightarrow> KeyVec \<Rightarrow> bytes option"
  and b_lookup :: "mbranch \<Rightarrow> KeyVec \<Rightarrow> bytes option" where
  "t_lookup (MLeaf v) k = (if k = [] then Some v else None)"
| "t_lookup (MNode l r) k = (case k of [] \<Rightarrow> None | x # _ \<Rightarrow> if x then b_lookup r k else b_lookup l k)"
| "b_lookup MNone k = None"
| "b_lookup (MBranch p t) k = (if prefix p k then t_lookup t (drop (length p) k) else None)"

fun wf_tree :: "bool \<Rightarrow> nat \<Rightarrow> mtree \<Rightarrow> bool"
  and wf_branch :: "bool \<Rightarrow> nat \<Rightarrow> mbranch \<Rightarrow> bool" where
  "wf_tree root d (MLeaf v) \<longleftrightarrow> \<not> root \<and> d = 0 \<and> length v < 256 ^ 8"
| "wf_tree root d (MNode l r) \<longleftrightarrow>
     0 < d \<and> wf_branch False d l \<and> wf_branch True d r \<and> (root \<or> l \<noteq> MNone \<and> r \<noteq> MNone)"
| "wf_branch dir d MNone \<longleftrightarrow> True"
| "wf_branch dir d (MBranch p t) \<longleftrightarrow>
     p \<noteq> [] \<and> hd p = dir \<and> length p \<le> d \<and> wf_tree False (d - length p) t"

fun t_node :: "'h NodeHasher \<Rightarrow> OwnedRange \<Rightarrow> bool \<Rightarrow> KeyVec \<Rightarrow> mtree \<Rightarrow> ('h \<times> 'h Node) option"
  and t_branch :: "'h NodeHasher \<Rightarrow> OwnedRange \<Rightarrow> KeyVec \<Rightarrow> mbranch \<Rightarrow> 'h Branch option option" where
  "t_node H rg root pre (MLeaf v) = do {
     (h, l) \<leftarrow> new_leaf H (RecordId (bytes_of_bits pre)) v;
     Some (h, Leaf l)
   }"
| "t_node H rg root pre (MNode l r) = do {
     bl \<leftarrow> t_branch H rg pre l;
     br \<leftarrow> t_branch H rg pre r;
     (h, n) \<leftarrow> new_with_hash H rg root bl br;
     Some (h, Interior n)
   }"
| "t_branch H rg pre MNone = Some None"
| "t_branch H rg pre (MBranch p t) = do {
     (h, _) \<leftarrow> t_node H rg False (pre @ p) t;
     Some (Some \<lparr>br_prefix = p, br_hash = h\<rparr>)
   }"

fun t_walk :: "'h NodeHasher \<Rightarrow> OwnedRange \<Rightarrow> bool \<Rightarrow> KeyVec \<Rightarrow> mtree \<Rightarrow> KeyVec \<Rightarrow>
    'h InteriorNode list \<times> LeafNode option"
  and b_walk :: "'h NodeHasher \<Rightarrow> OwnedRange \<Rightarrow> KeyVec \<Rightarrow> mbranch \<Rightarrow> KeyVec \<Rightarrow>
    'h InteriorNode list \<times> LeafNode option" where
  "t_walk H rg root pre (MLeaf v) k = ([], Some \<lparr>lf_value = v\<rparr>)"
| "t_walk H rg root pre (MNode l r) k =
     (case (t_branch H rg pre l, t_branch H rg pre r, k) of
        (Some bl, Some br, x # _) \<Rightarrow>
          (let (p, lf) = (if x then b_walk H rg pre r k else b_walk H rg pre l k)
           in (\<lparr>in_left = bl, in_right = br\<rparr> # p, lf))
      | _ \<Rightarrow> ([], None))"
| "b_walk H rg pre MNone k = ([], None)"
| "b_walk H rg pre (MBranch p t) k =
     (if prefix p k then t_walk H rg False (pre @ p) t (drop (length p) k) else ([], None))"

definition t_proof :: "'h NodeHasher \<Rightarrow> OwnedRange \<Rightarrow> mtree \<Rightarrow> 'h \<Rightarrow> RecordId \<Rightarrow> 'h ReadProof" where
  "t_proof H rg t root_hash key =
     \<lparr>rp_key = key, rp_range = rg, rp_leaf = snd (t_walk H rg True [] t (rid_bits key)),
      rp_path = fst (t_walk H rg True [] t (rid_bits key)), rp_root_hash = root_hash\<rparr>"

definition node_builder :: "OwnedRange \<Rightarrow> bool \<Rightarrow> 'h Branch option \<Rightarrow> 'h Branch option \<Rightarrow> 'h NodeHashBuilder option" where
  "node_builder rg root left right =
     (if root then Some (NHRoot rg left right)
      else do { l \<leftarrow> left; r \<leftarrow> right; Some (NHInterior l r) })"

definition opt_list :: "'a option \<Rightarrow> 'a list" where
  "opt_list x = (case x of None \<Rightarrow> [] | Some y \<Rightarrow> [y])"

fun t_builders :: "'h NodeHasher \<Rightarrow> OwnedRange \<Rightarrow> bool \<Rightarrow> KeyVec \<Rightarrow> mtree \<Rightarrow> 'h NodeHashBuilder list"
  and b_builders :: "'h NodeHasher \<Rightarrow> OwnedRange \<Rightarrow> KeyVec \<Rightarrow> mbranch \<Rightarrow> 'h NodeHashBuilder list" where
  "t_builders H rg root pre (MLeaf v) = [NHLeaf (RecordId (bytes_of_bits pre)) v]"
| "t_builders H rg root pre (MNode l r) =
     opt_list (do { bl \<leftarrow> t_branch H rg pre l; br \<leftarrow> t_branch H rg pre r; node_builder rg root bl br }) @
     b_builders H rg pre l @ b_builders H rg pre r"
| "b_builders H rg pre MNone = []"
| "b_builders H rg pre (MBranch p t) = t_builders H rg False (pre @ p) t"

definition p_builders :: "'h ReadProof \<Rightarrow> 'h NodeHashBuilder list" where
  "p_builders p =
     (case rp_leaf p of None \<Rightarrow> [] | Some l \<Rightarrow> [NHLeaf (rp_key p) (lf_value l)]) @
     (case rp_path p of
        [] \<Rightarrow> []
      | n # ns \<Rightarrow>
          NHRoot (rp_range p) (in_left n) (in_right n) #
          concat (map (\<lambda>n. opt_list (node_builder (rp_range p) False (in_left n) (in_right n))) ns))"

definition no_collision :: "'h NodeHasher \<Rightarrow> 'h NodeHashBuilder list \<Rightarrow> 'h NodeHashBuilder list \<Rightarrow> bool" where
  "no_collision H as bs \<longleftrightarrow>
     list_all (\<lambda>a. list_all (\<lambda>b. nhb_build H a = nhb_build H b \<longrightarrow> nhb_bytes H a = nhb_bytes H b) bs) as"

definition node_ok :: "'h InteriorNode \<Rightarrow> bool" where
  "node_ok n \<longleftrightarrow> pred_option branch_ok (in_left n) \<and> pred_option branch_ok (in_right n)"

definition proof_ok :: "'h ReadProof \<Rightarrow> bool" where
  "proof_ok p \<longleftrightarrow> rid_ok (rp_key p) \<and> rid_ok (rg_start (rp_range p)) \<and> rid_ok (rg_end (rp_range p)) \<and>
     list_all node_ok (rp_path p) \<and> pred_option (\<lambda>l. length (lf_value l) < 256 ^ 8) (rp_leaf p)"

section \<open>Hashes of trees\<close>

lemma calc_hash_builder: "calc_hash H rg root l r = node_builder rg root l r \<bind> nhb_build H"
  by (simp add: calc_hash_def node_builder_def)

lemma new_with_hash_eq:
  "new_with_hash H rg root l r = Some (h, n) \<Longrightarrow>
   calc_hash H rg root l r = Some h \<and> n = \<lparr>in_left = l, in_right = r\<rparr>"
  by (auto simp: new_with_hash_def interior_new_def panic_simps)

lemma branch_collapse [simp]: "\<lparr>br_prefix = br_prefix b, br_hash = br_hash b\<rparr> = (b :: 'h Branch)"
  by simp

lemma with_same_child_hash:
  "branch n dir = Some b \<Longrightarrow>
   with_new_child_hash H n rg root dir (br_hash b) = new_with_hash H rg root (in_left n) (in_right n)"
  by (cases dir) (simp_all add: with_new_child_hash_def with_new_child_def branch_def)

lemma t_branch_prefix: "t_branch H rg pre b = Some (Some c) \<Longrightarrow> \<exists>t. b = MBranch (br_prefix c) t"
  by (cases b) (auto simp: panic_simps)

lemma t_branch_hash:
  "t_branch H rg pre (MBranch q t) = Some (Some c) \<Longrightarrow> \<exists>n. t_node H rg False (pre @ q) t = Some (br_hash c, n)"
  by (auto simp: panic_simps)

lemma t_branch_MBranchD:
  "t_branch H rg pre (MBranch q t) = Some c \<Longrightarrow>
   \<exists>h n. c = Some \<lparr>br_prefix = q, br_hash = h\<rparr> \<and> t_node H rg False (pre @ q) t = Some (h, n)"
  by (auto simp: panic_simps)

lemma t_branch_ok: "t_branch H rg pre b = Some c \<Longrightarrow> wf_branch dir d b \<Longrightarrow> d \<le> 256 \<Longrightarrow> pred_option branch_ok c"
  by (cases b) (auto simp: panic_simps branch_ok_def)

lemma node_builder_ok:
  "node_builder rg root l r = Some b \<Longrightarrow> rid_ok (rg_start rg) \<Longrightarrow> rid_ok (rg_end rg) \<Longrightarrow>
   pred_option branch_ok l \<Longrightarrow> pred_option branch_ok r \<Longrightarrow> nhb_ok b"
  by (auto simp: node_builder_def panic_simps split: if_splits)

lemma node_builder_inj:
  "node_builder rg root l r = Some b \<Longrightarrow> node_builder rg' root l' r' = Some b \<Longrightarrow>
   l = l' \<and> r = r' \<and> (root \<longrightarrow> rg = rg')"
  by (auto simp: node_builder_def panic_simps split: if_splits)

lemma no_collision_inj:
  assumes "hasher_ok H" "no_collision H as bs" "a \<in> set as" "b \<in> set bs" "nhb_ok a" "nhb_ok b"
    and "nhb_build H a = Some h" "nhb_build H b = Some h"
  shows "a = b"
proof -
  have "nhb_bytes H a = nhb_bytes H b"
    using assms by (auto simp: no_collision_def list_all_iff)
  moreover obtain x where "nhb_bytes H a = Some x"
    using assms(7) by (auto simp: nhb_build_def)
  ultimately show ?thesis
    using nhb_bytes_inj [OF assms(1,5,6)] by metis
qed

lemma t_node_interior:
  assumes "t_node H rg root pre (MNode l r) = Some (h, n)"
  obtains bl br b where "t_branch H rg pre l = Some bl" "t_branch H rg pre r = Some br"
    "n = Interior \<lparr>in_left = bl, in_right = br\<rparr>" "node_builder rg root bl br = Some b"
    "nhb_build H b = Some h" "b \<in> set (t_builders H rg root pre (MNode l r))"
  using assms by (auto simp: panic_simps calc_hash_builder opt_list_def dest!: new_with_hash_eq)

section \<open>Soundness of verification\<close>

lemma verify_path_ConsD:
  assumes "verify_path H p k root hash node (nxt # tail) = Some (Inr (h', lh))"
  obtains x b n where "index_get k 0 = Some x" "branch node (dir_from x) = Some b"
    "take (length (br_prefix b)) k = br_prefix b" "length (br_prefix b) \<le> length k"
    "verify_path H p (drop (length (br_prefix b)) k) False (br_hash b) nxt tail = Some (Inr (br_hash b, lh))"
    "new_with_hash H (rp_range p) root (in_left node) (in_right node) = Some (hash, n)" "h' = hash"
proof -
  obtain x where x: "index_get k 0 = Some x"
    using assms by (cases "index_get k 0") auto
  obtain b where b: "branch node (dir_from x) = Some b"
    using assms x by (cases "branch node (dir_from x)") auto
  have len: "length (br_prefix b) \<le> length k" "take (length (br_prefix b)) k = br_prefix b"
    using assms x b by (auto simp: kv_to_def split: if_splits)
  let ?sub = "verify_path H p (drop (length (br_prefix b)) k) False (br_hash b) nxt tail"
  obtain res where r: "?sub = Some res"
    using assms x b len by (cases ?sub) (auto simp: kv_to_def kv_from_def)
  moreover obtain c l where cl: "res = Inr (c, l)"
    using assms x b len r by (cases res) (auto simp: kv_to_def kv_from_def)
  moreover have c: "c = br_hash b"
    using assms x b len r cl by (auto simp: kv_to_def kv_from_def split: if_splits)
  moreover obtain nh n where nh: "new_with_hash H (rp_range p) root (in_left node) (in_right node) = Some (nh, n)"
    using assms x b len r cl c
    by (cases "new_with_hash H (rp_range p) root (in_left node) (in_right node)")
      (auto simp: kv_to_def kv_from_def with_same_child_hash)
  moreover have "nh = hash" "l = lh" "h' = hash"
    using assms x b len r cl c nh
    by (auto simp: kv_to_def kv_from_def with_same_child_hash split: if_splits)
  ultimately show thesis
    using that x b len by simp
qed

lemma verify_path_node_hash:
  assumes "verify_path H p k root hash node tail = Some (Inr (h', lh))"
  shows "calc_hash H (rp_range p) root (in_left node) (in_right node) = Some hash"
proof (cases tail)
  case Nil
  show ?thesis
    using assms unfolding Nil
    by (auto simp: panic_simps Let_def with_same_child_hash dest!: new_with_hash_eq
        split: option.splits if_splits)
next
  case (Cons n ns)
  show ?thesis
    by (rule verify_path_ConsD [OF assms [unfolded Cons]]) (auto dest: new_with_hash_eq)
qed

lemma bytes_of_rid_bits: "bytes_of_bits (rid_bits k) = rid_bytes k"
  by (simp add: rid_bits_def)

lemma record_id_of_bits: "RecordId (bytes_of_bits (rid_bits k)) = k"
  by (simp add: bytes_of_rid_bits)

definition builders_cover :: "'h ReadProof \<Rightarrow> bool \<Rightarrow> 'h InteriorNode \<Rightarrow> 'h InteriorNode list \<Rightarrow> bool" where
  "builders_cover p root node tail \<longleftrightarrow>
     set (opt_list (node_builder (rp_range p) root (in_left node) (in_right node))) \<subseteq> set (p_builders p) \<and>
     (\<forall>n \<in> set tail. set (opt_list (node_builder (rp_range p) False (in_left n) (in_right n))) \<subseteq> set (p_builders p))"

lemma verify_node_agrees:
  assumes H: "hasher_ok H" and nc: "no_collision H as (p_builders p)"
    and t: "t_node H rg root pre (MNode l r) = Some (hash, n)" "wf_tree root d (MNode l r)" "d \<le> 256"
    and as: "set (t_builders H rg root pre (MNode l r)) \<subseteq> set as"
    and rg: "rid_ok (rg_start rg)" "rid_ok (rg_end rg)"
    and p: "proof_ok p" "node_ok node" "builders_cover p root node tail"
    and v: "calc_hash H (rp_range p) root (in_left node) (in_right node) = Some hash"
  shows "t_branch H rg pre l = Some (in_left node) \<and> t_branch H rg pre r = Some (in_right node) \<and>
         (root \<longrightarrow> rp_range p = rg)"
proof -
  obtain bl br b where tb: "t_branch H rg pre l = Some bl" "t_branch H rg pre r = Some br"
    and b: "node_builder rg root bl br = Some b" "nhb_build H b = Some hash" "b \<in> set as"
    using t_node_interior [OF t(1)] as by (metis subsetD)
  have "pred_option branch_ok bl" "pred_option branch_ok br"
    using t_branch_ok tb t(2,3) by (metis wf_tree.simps(2))+
  then have "nhb_ok b"
    using node_builder_ok [OF b(1) rg] by blast
  moreover obtain c where c: "node_builder (rp_range p) root (in_left node) (in_right node) = Some c"
    "nhb_build H c = Some hash"
    using v by (auto simp: calc_hash_builder panic_simps)
  moreover have "nhb_ok c"
    using node_builder_ok [OF c(1)] p(1,2) by (auto simp: proof_ok_def node_ok_def)
  moreover have "c \<in> set (p_builders p)"
    using p(3) c(1) by (auto simp: builders_cover_def opt_list_def)
  ultimately have "b = c"
    using no_collision_inj [OF H nc b(3)] b(2) by blast
  then show ?thesis
    using node_builder_inj [OF b(1)] c(1) tb by blast
qed

lemma verify_path_interior:
  assumes "verify_path H p k root hash node tail = Some (Inr (h', lh))" "wf_tree root (length k) t"
  obtains x ks l r where "k = x # ks" "t = MNode l r"
proof -
  have "k \<noteq> []"
    using assms(1) by (cases tail) (auto simp: panic_simps)
  then show thesis
    using assms(2) that by (cases k; cases t) auto
qed

lemma verify_path_NilD:
  assumes "verify_path H p (x # ks) root hash node [] = Some (Inr (h', lh))"
  shows "case branch node (dir_from x) of
      None \<Rightarrow> rp_leaf p = None
    | Some b \<Rightarrow> (case rp_leaf p of
        None \<Rightarrow> \<not> prefix (br_prefix b) (x # ks)
      | Some lf \<Rightarrow> br_prefix b = x # ks \<and> nhb_build H (NHLeaf (rp_key p) (lf_value lf)) = Some (br_hash b))"
  using assms by (auto simp: panic_simps Let_def split: option.splits if_splits)

lemma leaf_agrees:
  assumes H: "hasher_ok H" and nc: "no_collision H as (p_builders p)" and p: "proof_ok p" "rp_leaf p = Some lf"
    and t: "t_node H rg False (rid_bits (rp_key p)) t = Some (h, n)" "wf_tree False 0 t"
    and as: "set (t_builders H rg False (rid_bits (rp_key p)) t) \<subseteq> set as"
    and h: "nhb_build H (NHLeaf (rp_key p) (lf_value lf)) = Some h"
  shows "t = MLeaf (lf_value lf)"
proof -
  obtain w where w: "t = MLeaf w" "length w < 256 ^ 8"
    using t(2) by (cases t) auto
  have key: "rid_ok (rp_key p)"
    using p by (simp add: proof_ok_def)
  then have "nhb_build H (NHLeaf (rp_key p) w) = Some h" "NHLeaf (rp_key p) w \<in> set as"
    using t(1) as w by (auto simp: new_leaf_def panic_simps record_id_of_bits)
  moreover have "NHLeaf (rp_key p) (lf_value lf) \<in> set (p_builders p)"
    "nhb_ok (NHLeaf (rp_key p) (lf_value lf) :: 'a NodeHashBuilder)"
    using p by (auto simp: p_builders_def proof_ok_def)
  ultimately have "(NHLeaf (rp_key p) w :: 'a NodeHashBuilder) = NHLeaf (rp_key p) (lf_value lf)"
    using no_collision_inj [OF H nc _ _ _ _ _ h] key w by simp
  then show ?thesis
    using w by simp
qed

lemma verify_path_sound:
  assumes H: "hasher_ok H" and nc: "no_collision H as (p_builders p)"
    and rg: "rid_ok (rg_start rg)" "rid_ok (rg_end rg)" and p: "proof_ok p"
  shows "verify_path H p k root hash node tail = Some (Inr (h', lh)) \<Longrightarrow>
    t_node H rg root pre t = Some (hash, n) \<Longrightarrow> wf_tree root (length k) t \<Longrightarrow>
    set (t_builders H rg root pre t) \<subseteq> set as \<Longrightarrow> pre @ k = rid_bits (rp_key p) \<Longrightarrow>
    list_all node_ok (node # tail) \<Longrightarrow> builders_cover p root node tail \<Longrightarrow>
    t_walk H rg root pre t k = (node # tail, rp_leaf p) \<and> (root \<longrightarrow> rp_range p = rg)"
proof (induction tail arbitrary: k root hash node h' pre t n)
  case (Nil k root hash node h' pre t n)
  obtain x ks l r where kt: "k = x # ks" "t = MNode l r"
    by (rule verify_path_interior [OF Nil.prems(1,3)])
  have len: "length k \<le> 256"
    using p arg_cong [OF Nil.prems(5), of length] by (simp add: proof_ok_def length_rid_bits)
  have ok: "node_ok node"
    using Nil.prems(6) by simp
  note agree = verify_node_agrees [OF H nc Nil.prems(2) [unfolded kt(2)] Nil.prems(3) [unfolded kt(2)] len
      Nil.prems(4) [unfolded kt(2)] rg p ok Nil.prems(7) verify_path_node_hash [OF Nil.prems(1)]]
  define bx where "bx = (if x then r else l)"
  have bx: "t_branch H rg pre bx = Some (branch node (dir_from x))" "wf_branch x (length k) bx"
    "set (b_builders H rg pre bx) \<subseteq> set as"
    using agree Nil.prems(3,4) by (auto simp: bx_def branch_def dir_from_def kt)
  note v = verify_path_NilD [OF Nil.prems(1) [unfolded kt]]
  have "b_walk H rg pre bx k = ([], rp_leaf p)"
  proof (cases bx)
    case MNone
    then show ?thesis
      using v bx(1) by simp
  next
    case (MBranch q t')
    then obtain h n' where n': "branch node (dir_from x) = Some \<lparr>br_prefix = q, br_hash = h\<rparr>"
      "t_node H rg False (pre @ q) t' = Some (h, n')"
      using t_branch_MBranchD bx(1) by metis
    show ?thesis
    proof (cases "rp_leaf p")
      case (Some lf)
      have q: "q = k" "nhb_build H (NHLeaf (rp_key p) (lf_value lf)) = Some h"
        using v n' Some kt by auto
      then have "t' = MLeaf (lf_value lf)"
        using leaf_agrees [OF H nc p Some, of rg t' h n'] n' bx(2,3) MBranch Nil.prems(5) by simp
      then show ?thesis
        using Some MBranch q by simp
    qed (use v n' MBranch kt in simp)
  qed
  then show ?case
    using agree by (auto simp: kt bx_def)
next
  case (Cons nxt tail k root hash node h' pre t n)
  obtain x ks l r where kt: "k = x # ks" "t = MNode l r"
    by (rule verify_path_interior [OF Cons.prems(1,3)])
  have len: "length k \<le> 256"
    using p arg_cong [OF Cons.prems(5), of length] by (simp add: proof_ok_def length_rid_bits)
  have ok: "node_ok node"
    using Cons.prems(6) by simp
  note agree = verify_node_agrees [OF H nc Cons.prems(2) [unfolded kt(2)] Cons.prems(3) [unfolded kt(2)] len
      Cons.prems(4) [unfolded kt(2)] rg p ok Cons.prems(7) verify_path_node_hash [OF Cons.prems(1)]]
  define bx where "bx = (if x then r else l)"
  have bx: "t_branch H rg pre bx = Some (branch node (dir_from x))" "wf_branch x (length k) bx"
    "set (b_builders H rg pre bx) \<subseteq> set as"
    using agree Cons.prems(3,4) by (auto simp: bx_def branch_def dir_from_def kt)
  obtain y b where y: "index_get k 0 = Some y" "branch node (dir_from y) = Some b"
    and b: "take (length (br_prefix b)) k = br_prefix b" "length (br_prefix b) \<le> length k"
    and sub: "verify_path H p (drop (length (br_prefix b)) k) False (br_hash b) nxt tail = Some (Inr (br_hash b, lh))"
    by (rule verify_path_ConsD [OF Cons.prems(1)])
  then have bb: "t_branch H rg pre bx = Some (Some b)"
    using bx(1) by (simp add: kt)
  then obtain t' where t': "bx = MBranch (br_prefix b) t'"
    using t_branch_prefix by blast
  obtain n' where n': "t_node H rg False (pre @ br_prefix b) t' = Some (br_hash b, n')"
    using t_branch_hash bb t' by metis
  have kk: "br_prefix b @ drop (length (br_prefix b)) k = k" "prefix (br_prefix b) k"
    using b(1) by (metis append_take_drop_id, metis take_is_prefix)
  have "builders_cover p False nxt tail"
    using Cons.prems(7) by (simp add: builders_cover_def)
  then have "t_walk H rg False (pre @ br_prefix b) t' (drop (length (br_prefix b)) k) = (nxt # tail, rp_leaf p)"
    using Cons.IH [OF sub n'] bx(2,3) t' Cons.prems(5,6) kk by simp
  then have "b_walk H rg pre bx k = (nxt # tail, rp_leaf p)"
    using t' kk by simp
  then show ?case
    using agree by (auto simp: kt bx_def)
qed

lemma verify_proof_InrD:
  assumes "verify_proof H p = Some (Inr lh)"
  obtains node tail h' where "rp_path p = node # tail" "range_contains (rp_range p) (rp_key p) = Some True"
    "verify_path H p (rid_bits (rp_key p)) True (rp_root_hash p) node tail = Some (Inr (h', lh))"
proof -
  obtain node tail where path: "rp_path p = node # tail"
    using assms by (cases "rp_path p") (auto simp: verify_proof_def)
  have rg: "range_contains (rp_range p) (rp_key p) = Some True"
    using assms path
    by (cases "range_contains (rp_range p) (rp_key p)") (auto simp: verify_proof_def split: if_splits)
  let ?v = "verify_path H p (rid_bits (rp_key p)) True (rp_root_hash p) node tail"
  obtain res where v: "?v = Some res"
    using assms path rg by (cases ?v) (auto simp: verify_proof_def)
  then obtain h' where "res = Inr (h', lh)"
    using assms path rg by (cases res) (auto simp: verify_proof_def)
  then show thesis
    using that path rg v by blast
qed

lemma t_walk_lookup:
  "wf_tree root (length k) t \<Longrightarrow> t_node H rg root pre t = Some (h, n) \<Longrightarrow>
     t_lookup t k = map_option lf_value (snd (t_walk H rg root pre t k))"
  "wf_branch dir (length k) b \<Longrightarrow> t_branch H rg pre b = Some c \<Longrightarrow>
     b_lookup b k = map_option lf_value (snd (b_walk H rg pre b k))"
proof (induction t and b arbitrary: root k pre h n and dir k pre c)
  case (MNode l r)
  then show ?case
    by (cases k) (auto simp: panic_simps split_def Let_def)
next
  case (MBranch p t)
  then show ?case
    by (auto simp: panic_simps)
qed auto

section \<open>Every well-formed tree has a hash\<close>

definition dir_ok :: "bool \<Rightarrow> 'h Branch option \<Rightarrow> bool" where
  "dir_ok d b \<longleftrightarrow> pred_option (\<lambda>b. branch_ok b \<and> hd (br_prefix b) = d) b"

definition ids_ok :: "OwnedRange \<Rightarrow> bool" where
  "ids_ok rg \<longleftrightarrow> rid_ok (rg_start rg) \<and> rid_ok (rg_end rg)"

lemma assert_dir_ok: "dir_ok d b \<Longrightarrow> assert_dir b (dir_from d) = Some ()"
  by (auto simp: dir_ok_def assert_dir_def branch_ok_def branch_dir_def hd_conv_nth split: option.splits)

lemma interior_new_ok:
  "dir_ok False l \<Longrightarrow> dir_ok True r \<Longrightarrow> interior_new l r = Some \<lparr>in_left = l, in_right = r\<rparr>"
  using assert_dir_ok [of False l] assert_dir_ok [of True r] by (simp add: interior_new_def dir_from_def)

lemma calc_hash_total:
  assumes "hasher_ok H" "ids_ok rg" "pred_option branch_ok l" "pred_option branch_ok r"
    "root \<or> l \<noteq> None \<and> r \<noteq> None"
  shows "\<exists>h. calc_hash H rg root l r = Some h"
proof -
  obtain b where b: "node_builder rg root l r = Some b"
    using assms(5) by (cases root; cases l; cases r) (auto simp: node_builder_def)
  then have "nhb_ok b"
    using node_builder_ok [OF b] assms(2-4) by (simp add: ids_ok_def)
  then show ?thesis
    using nhb_bytes_total [OF assms(1)] b by (auto simp: calc_hash_builder nhb_build_def)
qed

lemma new_with_hash_total:
  assumes "hasher_ok H" "ids_ok rg" "dir_ok False l" "dir_ok True r" "root \<or> l \<noteq> None \<and> r \<noteq> None"
  shows "\<exists>h. new_with_hash H rg root l r = Some (h, \<lparr>in_left = l, in_right = r\<rparr>)"
proof -
  have "pred_option branch_ok l" "pred_option branch_ok r"
    using assms(3,4) by (auto simp: dir_ok_def option.pred_mono_strong)
  then show ?thesis
    using calc_hash_total [OF assms(1,2) _ _ assms(5)] interior_new_ok [OF assms(3,4)]
    by (fastforce simp: new_with_hash_def)
qed

lemma t_branch_dir_ok: "t_branch H rg pre b = Some c \<Longrightarrow> wf_branch d n b \<Longrightarrow> n \<le> 256 \<Longrightarrow> dir_ok d c"
  by (cases b) (auto simp: panic_simps branch_ok_def dir_ok_def)

lemma t_branch_None: "t_branch H rg pre b = Some None \<longleftrightarrow> b = MNone"
  by (cases b) (auto simp: panic_simps)

lemma t_node_total:
  assumes "hasher_ok H" "ids_ok rg"
  shows "wf_tree root d t \<Longrightarrow> d \<le> 256 \<Longrightarrow> \<exists>h n. t_node H rg root pre t = Some (h, n)"
    and "wf_branch dir d b \<Longrightarrow> d \<le> 256 \<Longrightarrow> \<exists>c. t_branch H rg pre b = Some c"
proof (induction t and b arbitrary: root d pre and dir d pre)
  case (MLeaf v)
  then show ?case
    by (simp add: new_leaf_def nhb_build_def nhb_bytes_def)
next
  case (MNode l r)
  have wf: "wf_branch False d l" "wf_branch True d r" "root \<or> l \<noteq> MNone \<and> r \<noteq> MNone"
    using MNode.prems by auto
  obtain bl br where b: "t_branch H rg pre l = Some bl" "t_branch H rg pre r = Some br"
    using MNode.IH(1) [OF wf(1)] MNode.IH(2) [OF wf(2)] MNode.prems(2) by blast
  have "root \<or> bl \<noteq> None \<and> br \<noteq> None"
    using wf(3) b t_branch_None [of H rg pre l] t_branch_None [of H rg pre r] by auto
  then obtain h where "new_with_hash H rg root bl br = Some (h, \<lparr>in_left = bl, in_right = br\<rparr>)"
    using new_with_hash_total [OF assms] t_branch_dir_ok [OF b(1) wf(1)] t_branch_dir_ok [OF b(2) wf(2)]
      MNode.prems(2) by blast
  then show ?case
    using b by simp
next
  case (MBranch p t)
  then have "wf_tree False (d - length p) t" "d - length p \<le> 256"
    by auto
  then obtain h n where "t_node H rg False (pre @ p) t = Some (h, n)"
    using MBranch.IH by blast
  then show ?case
    by simp
qed simp

section \<open>Completeness of verification\<close>

lemma t_walk_MNode:
  assumes "t_branch H rg pre l = Some bl" "t_branch H rg pre r = Some br"
  shows "t_walk H rg root pre (MNode l r) (x # ks) =
    (\<lparr>in_left = bl, in_right = br\<rparr> # fst (b_walk H rg pre (if x then r else l) (x # ks)),
     snd (b_walk H rg pre (if x then r else l) (x # ks)))"
  using assms by (simp add: Let_def split_def)

lemma verify_path_complete:
  assumes H: "hasher_ok H" and rg: "ids_ok (rp_range p)" and key: "rid_ok (rp_key p)"
  shows "t_node H (rp_range p) root pre t = Some (hash, n) \<Longrightarrow> wf_tree root (length k) t \<Longrightarrow>
    pre @ k = rid_bits (rp_key p) \<Longrightarrow> t_walk H (rp_range p) root pre t k = (node # tail, rp_leaf p) \<Longrightarrow>
    \<exists>lh. verify_path H p k root hash node tail = Some (Inr (hash, lh))"
proof (induction tail arbitrary: k root hash node pre t n)
  case (Nil k root hash node pre t n)
  obtain l r where t: "t = MNode l r"
    using Nil.prems(4) by (cases t) auto
  obtain x ks where k: "k = x # ks"
    using Nil.prems(2) by (cases k) (auto simp: t)
  obtain bl br b where tb: "t_branch H (rp_range p) pre l = Some bl" "t_branch H (rp_range p) pre r = Some br"
    and b: "node_builder (rp_range p) root bl br = Some b" "nhb_build H b = Some hash"
    by (rule t_node_interior [OF Nil.prems(1) [unfolded t]])
  define bx where "bx = (if x then r else l)"
  have node: "node = \<lparr>in_left = bl, in_right = br\<rparr>" and walk: "b_walk H (rp_range p) pre bx k = ([], rp_leaf p)"
    using Nil.prems(4) t_walk_MNode [OF tb, of root x ks] by (auto simp: t k bx_def prod_eq_iff)
  have bx: "t_branch H (rp_range p) pre bx = Some (branch node (dir_from x))" "wf_branch x (length k) bx"
    using tb Nil.prems(2) by (auto simp: bx_def node branch_def dir_from_def t)
  have hash: "new_with_hash H (rp_range p) root (in_left node) (in_right node) = Some (hash, node)"
    using Nil.prems(1) tb by (auto simp: t panic_simps node dest: new_with_hash_eq)
  then have ch: "calc_hash H (rp_range p) root (in_left node) (in_right node) = Some hash"
    by (auto dest: new_with_hash_eq)
  show ?case
  proof (cases bx)
    case MNone
    then show ?thesis
      using walk bx(1) ch by (auto simp: k)
  next
    case (MBranch q t')
    obtain h n' where n': "branch node (dir_from x) = Some \<lparr>br_prefix = q, br_hash = h\<rparr>"
      "t_node H (rp_range p) False (pre @ q) t' = Some (h, n')"
      using t_branch_MBranchD bx(1) MBranch by metis
    show ?thesis
    proof (cases "prefix q k")
      case False
      then show ?thesis
        using walk MBranch n' ch by (auto simp: k)
    next
      case True
      then obtain w where w: "t' = MLeaf w" "rp_leaf p = Some \<lparr>lf_value = w\<rparr>"
        using walk MBranch n'(2) bx(2)
        by (cases t') (auto simp: panic_simps split: list.splits prod.splits dest: prefix_length_le)
      then have "q = k"
        using bx(2) True MBranch by (auto simp: prefix_def)
      then have "nhb_build H (NHLeaf (rp_key p) w) = Some h"
        using n'(2) w Nil.prems(3) key by (auto simp: new_leaf_def panic_simps record_id_of_bits)
      then show ?thesis
        using w n' hash \<open>q = k\<close> with_same_child_hash [OF n'(1), of H "rp_range p" root] by (auto simp: k)
    qed
  qed
next
  case (Cons nxt tail k root hash node pre t n)
  obtain l r where t: "t = MNode l r"
    using Cons.prems(4) by (cases t) auto
  obtain x ks where k: "k = x # ks"
    using Cons.prems(2) by (cases k) (auto simp: t)
  obtain bl br b where tb: "t_branch H (rp_range p) pre l = Some bl" "t_branch H (rp_range p) pre r = Some br"
    and b: "node_builder (rp_range p) root bl br = Some b" "nhb_build H b = Some hash"
    by (rule t_node_interior [OF Cons.prems(1) [unfolded t]])
  define bx where "bx = (if x then r else l)"
  have node: "node = \<lparr>in_left = bl, in_right = br\<rparr>" and walk: "b_walk H (rp_range p) pre bx k = (nxt # tail, rp_leaf p)"
    using Cons.prems(4) t_walk_MNode [OF tb, of root x ks] by (auto simp: t k bx_def prod_eq_iff)
  have bx: "t_branch H (rp_range p) pre bx = Some (branch node (dir_from x))" "wf_branch x (length k) bx"
    using tb Cons.prems(2) by (auto simp: bx_def node branch_def dir_from_def t)
  have hash: "new_with_hash H (rp_range p) root (in_left node) (in_right node) = Some (hash, node)"
    using Cons.prems(1) tb by (auto simp: t panic_simps node dest: new_with_hash_eq)
  obtain q t' where q: "bx = MBranch q t'" "prefix q k"
    and sub: "t_walk H (rp_range p) False (pre @ q) t' (drop (length q) k) = (nxt # tail, rp_leaf p)"
    using walk by (cases bx) (auto split: if_splits)
  obtain h n' where n': "branch node (dir_from x) = Some \<lparr>br_prefix = q, br_hash = h\<rparr>"
    "t_node H (rp_range p) False (pre @ q) t' = Some (h, n')"
    using t_branch_MBranchD bx(1) q(1) by metis
  have kk: "take (length q) k = q" "length q \<le> length k" "q @ drop (length q) k = k"
    using q(2) by (auto simp: prefix_def)
  then obtain lh where "verify_path H p (drop (length q) k) False h nxt tail = Some (Inr (h, lh))"
    using Cons.IH [OF n'(2) _ _ sub] bx(2) q(1) Cons.prems(3) by auto
  then show ?case
    using n' hash kk with_same_child_hash [OF n'(1), of H "rp_range p" root]
    by (auto simp: k kv_to_def kv_from_def)
qed

lemma t_proof_verifies:
  assumes "hasher_ok H" "wf_tree True 256 t" "range_ok rg" "key \<in> range_set rg"
    and "t_node H rg True [] t = Some (root_hash, n)"
  shows "(\<exists>lh. verify_proof H (t_proof H rg t root_hash key) = Some (Inr lh)) \<and>
         map_option lf_value (rp_leaf (t_proof H rg t root_hash key)) = t_lookup t (rid_bits key)"
proof -
  let ?p = "t_proof H rg t root_hash key"
  have key: "rid_ok key" "range_contains rg key = Some True" "length (rid_bits key) = 256"
    using assms(3,4) by (auto simp: range_set_def range_ok_def range_contains_def length_rid_bits)
  obtain node tail lf where walk: "t_walk H rg True [] t (rid_bits key) = (node # tail, lf)"
  proof (cases t)
    case (MNode l r)
    then obtain bl br where "t_branch H rg [] l = Some bl" "t_branch H rg [] r = Some br"
      using assms(5) by (auto elim: t_node_interior simp del: t_node.simps)
    moreover obtain x ks where "rid_bits key = x # ks"
      using key(3) by (cases "rid_bits key") auto
    ultimately show thesis
      using that by (simp add: MNode t_walk_MNode del: t_walk.simps)
  qed (use assms(2) in simp)
  then have p: "?p = \<lparr>rp_key = key, rp_range = rg, rp_leaf = lf, rp_path = node # tail, rp_root_hash = root_hash\<rparr>"
    by (simp add: t_proof_def)
  have "\<exists>lh. verify_path H ?p (rid_bits key) True root_hash node tail = Some (Inr (root_hash, lh))"
    using verify_path_complete [of H ?p True "[]" t root_hash n "rid_bits key" node tail] walk assms key
    by (simp add: p range_ok_def ids_ok_def)
  then show ?thesis
    using walk key t_walk_lookup(1) [OF _ assms(5), of "rid_bits key"] assms(2)
    by (auto simp: verify_proof_def p)
qed

section \<open>Properties\<close>

lemma verify_proof_walk:
  assumes "hasher_ok H" "wf_tree True 256 t" "rid_ok (rg_start rg)" "rid_ok (rg_end rg)"
    and "t_node H rg True [] t = Some (rp_root_hash p, n)"
    and "proof_ok p" "no_collision H (t_builders H rg True [] t) (p_builders p)"
    and "verify_proof H p = Some (Inr lh)"
  shows "t_walk H rg True [] t (rid_bits (rp_key p)) = (rp_path p, rp_leaf p) \<and> rp_range p = rg"
proof -
  obtain node tail h' where path: "rp_path p = node # tail"
    and v: "verify_path H p (rid_bits (rp_key p)) True (rp_root_hash p) node tail = Some (Inr (h', lh))"
    by (rule verify_proof_InrD [OF assms(8)])
  have k: "length (rid_bits (rp_key p)) = 256"
    using assms(6) by (simp add: proof_ok_def length_rid_bits)
  have "builders_cover p True node tail"
    using path by (auto simp: builders_cover_def p_builders_def node_builder_def opt_list_def)
  then show ?thesis
    using verify_path_sound [OF assms(1,7,3,4,6) v assms(5)] assms(2,6) k path by (auto simp: proof_ok_def)
qed

text \<open>
  C14: soundness of read proofs.  If a proof verifies against the root hash of a tree, and no
  byte string hashed for the tree collides with a different one hashed for the proof, then the proof
  is for the tree's own range and its leaf is what the tree holds for the proof's key, present or
  absent.
\<close>

theorem verify_proof_sound:
  assumes "hasher_ok H" "wf_tree True 256 t" "rid_ok (rg_start rg)" "rid_ok (rg_end rg)"
    and "t_node H rg True [] t = Some (rp_root_hash p, n)"
    and "proof_ok p" "no_collision H (t_builders H rg True [] t) (p_builders p)"
    and "verify_proof H p = Some (Inr lh)"
  shows "rp_range p = rg \<and> map_option lf_value (rp_leaf p) = t_lookup t (rid_bits (rp_key p))"
proof -
  have "length (rid_bits (rp_key p)) = 256"
    using assms(6) by (simp add: proof_ok_def length_rid_bits)
  then show ?thesis
    using verify_proof_walk [OF assms] t_walk_lookup(1) [OF _ assms(5)] assms(2) by simp
qed

definition example_tree :: mtree where
  "example_tree =
     MNode (MBranch (rid_bits record_id_min) (MLeaf [1, 2]))
           (MBranch (rid_bits (RecordId (0x80 # replicate 31 0))) (MLeaf [3]))"

definition example_root :: u8 where
  "example_root = (case t_node example_hasher range_full True [] example_tree of
     None \<Rightarrow> 0 | Some (h, _) \<Rightarrow> h)"

lemma example_tree_ok:
  "wf_tree True 256 example_tree" "ids_ok range_full"
  "\<exists>n. t_node example_hasher range_full True [] example_tree = Some (example_root, n)"
proof -
  have "rid_bits record_id_min \<noteq> []" "hd (rid_bits record_id_min) = False"
    "rid_bits (RecordId (0x80 # replicate 31 0)) \<noteq> []" "hd (rid_bits (RecordId (0x80 # replicate 31 0))) = True"
    by code_simp+
  moreover have "length (rid_bits record_id_min) = 256"
    by (simp add: length_rid_bits)
  moreover have "length (rid_bits (RecordId (0x80 # replicate 31 0))) = 256"
    by (simp add: length_rid_bits rid_ok_def record_id_num_bytes_def)
  ultimately show wf: "wf_tree True 256 example_tree"
    by (simp add: example_tree_def)
  show ids: "ids_ok range_full"
    by (simp add: ids_ok_def range_full_def)
  show "\<exists>n. t_node example_hasher range_full True [] example_tree = Some (example_root, n)"
    using t_node_total(1) [OF example_hasher_ok ids wf, of "[]"] by (auto simp: example_root_def)
qed

lemma example_range:
  "range_ok range_full" "record_id_min \<in> range_set range_full" "record_id_max \<in> range_set range_full"
  by (auto simp: range_ok_def range_is_valid_def range_full_def range_set_def rid_le)

lemma example_branches:
  "t_branch example_hasher range_full [] (MBranch (rid_bits record_id_min) (MLeaf [1, 2])) =
     Some (Some \<lparr>br_prefix = rid_bits record_id_min, br_hash = 46\<rparr>)"
  "t_branch example_hasher range_full [] (MBranch (rid_bits (RecordId (0x80 # replicate 31 0))) (MLeaf [3])) =
     Some (Some \<lparr>br_prefix = rid_bits (RecordId (0x80 # replicate 31 0)), br_hash = 45\<rparr>)"
  by (simp_all add: new_leaf_def nhb_build_def nhb_bytes_def example_hasher_def ascii_def bytes_of_rid_bits)
    (simp add: record_id_min_def record_id_num_bytes_def)

lemma example_branches_bytes:
  assumes "length p = 256" "length q = 256"
  shows "\<exists>bs. branches_bytes example_hasher \<lparr>br_prefix = p, br_hash = a\<rparr> \<lparr>br_prefix = q, br_hash = b\<rparr> = Some bs \<and>
    length bs = 72"
  using assms
  by (simp add: branches_bytes_def branch_len_def branch_bytes_def example_hasher_def length_bytes_of_bits)

definition example_proof :: "u8 ReadProof" where
  "example_proof = t_proof example_hasher range_full example_tree example_root record_id_min"

lemma example_proof_ok:
  shows "proof_ok example_proof"
    and "no_collision example_hasher (t_builders example_hasher range_full True [] example_tree) (p_builders example_proof)"
    and "\<exists>lh. verify_proof example_hasher example_proof = Some (Inr lh)"
    and "\<exists>n. t_node example_hasher range_full True [] example_tree = Some (rp_root_hash example_proof, n)"
    and "t_lookup example_tree (rid_bits (rp_key example_proof)) = Some [1, 2]"
  unfolding example_proof_def
proof -
  let ?p = "t_proof example_hasher range_full example_tree example_root record_id_min"
  let ?k = "RecordId (0x80 # replicate 31 0)"
  let ?l = "\<lparr>br_prefix = rid_bits record_id_min, br_hash = 46 :: u8\<rparr>"
  let ?r = "\<lparr>br_prefix = rid_bits ?k, br_hash = 45 :: u8\<rparr>"
  have "rid_bits record_id_min \<noteq> []" "\<not> hd (rid_bits record_id_min)"
    by code_simp+
  then obtain ks where ks: "rid_bits record_id_min = False # ks"
    by (cases "rid_bits record_id_min") auto
  have len: "length (rid_bits record_id_min) = 256" "length (rid_bits ?k) = 256"
    by (simp_all add: length_rid_bits) (simp add: length_rid_bits rid_ok_def record_id_num_bytes_def)
  have walk: "t_walk example_hasher range_full True [] example_tree (rid_bits record_id_min) =
      ([\<lparr>in_left = Some ?l, in_right = Some ?r\<rparr>], Some \<lparr>lf_value = [1, 2]\<rparr>)"
    unfolding example_tree_def
    by (subst ks, subst t_walk_MNode [OF example_branches]) (simp add: ks)
  obtain bs where bs: "branches_bytes example_hasher ?l ?r = Some bs" "length bs = 72"
    using example_branches_bytes [OF len] by blast
  have "proof_ok ?p"
    using walk len by (auto simp: t_proof_def proof_ok_def node_ok_def branch_ok_def range_full_def)
  moreover have "p_builders ?p = [NHLeaf record_id_min [1, 2], NHRoot range_full (Some ?l) (Some ?r)]"
    using walk by (simp add: p_builders_def t_proof_def)
  moreover have "t_builders example_hasher range_full True [] example_tree =
      [NHRoot range_full (Some ?l) (Some ?r), NHLeaf record_id_min [1, 2], NHLeaf ?k [3]]"
    using example_branches
    by (simp add: example_tree_def node_builder_def opt_list_def record_id_of_bits del: t_branch.simps)
  ultimately show "proof_ok ?p"
    and "no_collision example_hasher (t_builders example_hasher range_full True [] example_tree) (p_builders ?p)"
    using bs by (simp_all add: no_collision_def nhb_build_def nhb_bytes_def example_hasher_def ascii_def
        record_id_min_def record_id_max_def record_id_num_bytes_def range_full_def)
  show "\<exists>lh. verify_proof example_hasher ?p = Some (Inr lh)"
    using t_proof_verifies [OF example_hasher_ok example_tree_ok(1) example_range(1,2)] example_tree_ok(3)
    by blast
  show "\<exists>n. t_node example_hasher range_full True [] example_tree = Some (rp_root_hash ?p, n)"
    using example_tree_ok(3) by (auto simp: t_proof_def)
  show "t_lookup example_tree (rid_bits (rp_key ?p)) = Some [1, 2]"
    by (simp add: t_proof_def example_tree_def ks)
qed

theorem verify_proof_sound_witness:
  "map_option lf_value (rp_leaf example_proof) = Some [1, 2]"
  using example_proof_ok example_tree_ok(2)
    verify_proof_sound [OF example_hasher_ok example_tree_ok(1) _ _ _ example_proof_ok(1,2)]
  by (auto simp: ids_ok_def)

text \<open>
  C19: completeness of read proofs.  The proof read off any well-formed tree for any record in its
  range (the interior nodes on the path and the leaf, if there is one) is accepted against the
  tree's root hash, without a panic, and carries the tree's value for the key.
\<close>

theorem verify_proof_complete:
  assumes "hasher_ok H" "wf_tree True 256 t" "range_ok rg" "key \<in> range_set rg"
    and "t_node H rg True [] t = Some (root_hash, n)"
  shows "(\<exists>lh. verify_proof H (t_proof H rg t root_hash key) = Some (Inr lh)) \<and>
         map_option lf_value (rp_leaf (t_proof H rg t root_hash key)) = t_lookup t (rid_bits key)"
  using t_proof_verifies [OF assms] .

theorem verify_proof_complete_witness:
  "\<exists>lh. verify_proof example_hasher (t_proof example_hasher range_full example_tree example_root record_id_max)
     = Some (Inr lh)"
proof -
  show ?thesis
    using verify_proof_complete [OF example_hasher_ok example_tree_ok(1) example_range(1,3)] example_tree_ok(3)
    by blast
qed

end
