(* ===== verification/MerkleInsert.thy ===== *)
theory MerkleInsert
  imports MerkleTree
begin

text \<open>
  \<open>Tree::insert\<close> (\<open>src/hsm_core/src/merkle/insert.rs\<close>): from a verified path, the new
  root hash and the nodes to write and to delete.  The specification is insertion into the abstract tree
  of \<open>MerkleTree\<close>: the incremental computation gives the root hash of that tree, and
  applying its delta to a store that holds the old tree yields one that holds the new tree.
\<close>

definition insert_last ::
  "'h::linorder NodeHasher \<Rightarrow> OwnedRange \<Rightarrow> KeyVec \<Rightarrow> 'h PathStep \<Rightarrow> 'h \<Rightarrow> 'h DeltaBuilder \<Rightarrow>
   ('h \<times> 'h DeltaBuilder) option" where
  "insert_last H rg key lst leaf_hash delta =
     (case branch (ps_node lst) (ps_next_dir lst) of
        None \<Rightarrow> do {
          p \<leftarrow> kv_from key (length (ps_prefix lst));
          let b = \<lparr>br_prefix = p, br_hash = leaf_hash\<rparr>;
          (hash, updated_n) \<leftarrow> with_new_child H (ps_node lst) rg True (ps_next_dir lst) b;
          Some (hash,
            db_remove (NodeKey (ps_prefix lst) (ps_hash lst))
              (db_add (NodeKey (ps_prefix lst) hash) (Interior updated_n) delta))
        }
      | Some b \<Rightarrow> do {
          key_tail \<leftarrow> kv_from key (length (ps_prefix lst));
          if key_tail = br_prefix b
          then do {
            (new_hash, updated_n) \<leftarrow>
              with_new_child_hash H (ps_node lst) rg (ps_prefix lst = []) (ps_next_dir lst) leaf_hash;
            Some (new_hash,
              db_remove (NodeKey (ps_prefix lst) (ps_hash lst))
                (db_add (NodeKey (ps_prefix lst) new_hash) (Interior updated_n) delta))
          }
          else do {
            let comm = longest_common_prefix key_tail (br_prefix b);
            rust_assert (comm \<noteq> []);
            kp \<leftarrow> kv_from key (length (ps_prefix lst) + length comm);
            bp \<leftarrow> kv_from (br_prefix b) (length comm);
            (child_hash, new_child) \<leftarrow> construct H rg False
              (Some \<lparr>br_prefix = kp, br_hash = leaf_hash\<rparr>)
              (Some \<lparr>br_prefix = bp, br_hash = br_hash b\<rparr>);
            (new_hash, updated_n) \<leftarrow>
              with_new_child H (ps_node lst) rg (ps_prefix lst = []) (ps_next_dir lst)
                \<lparr>br_prefix = comm, br_hash = child_hash\<rparr>;
            cp \<leftarrow> kv_to key (length (ps_prefix lst) + length comm);
            Some (new_hash,
              db_remove (NodeKey (ps_prefix lst) (ps_hash lst))
                (db_add (NodeKey (ps_prefix lst) new_hash) (Interior updated_n)
                  (db_add (NodeKey cp child_hash) (Interior new_child) delta)))
          }
        })"

fun roll_up ::
  "'h::linorder NodeHasher \<Rightarrow> OwnedRange \<Rightarrow> 'h PathStep list \<Rightarrow> 'h \<Rightarrow> 'h DeltaBuilder \<Rightarrow>
   ('h \<times> 'h DeltaBuilder) option" where
  "roll_up H rg [] child_hash delta = Some (child_hash, delta)"
| "roll_up H rg (parent # rest) child_hash delta = do {
     (h, updated_n) \<leftarrow>
       with_new_child_hash H (ps_node parent) rg (ps_prefix parent = []) (ps_next_dir parent) child_hash;
     roll_up H rg rest h
       (db_remove (NodeKey (ps_prefix parent) (ps_hash parent))
         (db_add (NodeKey (ps_prefix parent) h) (Interior updated_n) delta))
   }"

definition insert_path ::
  "'h::linorder NodeHasher \<Rightarrow> 'h VerifiedProof \<Rightarrow> bytes \<Rightarrow> ('h \<times> 'h StoreDelta) option" where
  "insert_path H vp v = do {
     let key = rid_bits (vp_key vp);
     rust_assert (vp_path vp \<noteq> []);
     let last_step = last (vp_path vp);
     delta0 \<leftarrow> (case vp_leaf vp of
        None \<Rightarrow> Some db_new
      | Some leaf \<Rightarrow> do {
          b \<leftarrow> branch (ps_node last_step) (ps_next_dir last_step);
          Some (db_remove (NodeKey key (br_hash b)) db_new)
        });
     (leaf_hash, leaf) \<leftarrow> new_leaf H (vp_key vp) v;
     let delta1 = db_add (NodeKey key leaf_hash) (Leaf leaf) delta0;
     (h, delta2) \<leftarrow> insert_last H (vp_range vp) key last_step leaf_hash delta1;
     (root, delta3) \<leftarrow> roll_up H (vp_range vp) (rev (butlast (vp_path vp))) h delta2;
     Some (root, db_build delta3)
   }"

definition tree_insert ::
  "'h::linorder NodeHasher \<Rightarrow> 'h Tree \<Rightarrow> 'h VerifiedProof \<Rightarrow> bytes \<Rightarrow>
   ('h Tree \<times> (ProofError + 'h \<times> 'h StoreDelta)) option" where
  "tree_insert H t vp v = do {
     root \<leftarrow> vp_root_hash vp;
     if root \<noteq> ov_latest_root (tr_overlay t) then Some (t, Inl Stale)
     else if map_option lf_value (vp_leaf vp) = Some v
     then Some (t, Inr (ov_latest_root (tr_overlay t), delta_default))
     else do {
       (h, final_delta) \<leftarrow> insert_path H vp v;
       Some (t\<lparr>tr_overlay := add_delta h final_delta (tr_overlay t)\<rparr>, Inr (h, final_delta))
     }
   }"

section \<open>Insertion into the abstract tree\<close>

fun t_insert :: "mtree \<Rightarrow> KeyVec \<Rightarrow> bytes \<Rightarrow> mtree"
  and b_insert :: "mbranch \<Rightarrow> KeyVec \<Rightarrow> bytes \<Rightarrow> mbranch" where
  "t_insert (MLeaf w) k v = MLeaf v"
| "t_insert (MNode l r) k v =
     (case k of
        [] \<Rightarrow> MNode l r
      | x # _ \<Rightarrow> if x then MNode l (b_insert r k v) else MNode (b_insert l k v) r)"
| "b_insert MNone k v = MBranch k (MLeaf v)"
| "b_insert (MBranch p t) k v =
     (if prefix p k then MBranch p (t_insert t (drop (length p) k) v)
      else let c = longest_common_prefix k p;
               new = MBranch (drop (length c) k) (MLeaf v);
               old = MBranch (drop (length c) p) t
           in MBranch c (if hd (drop (length c) k) then MNode old new else MNode new old))"

lemma lcp_facts:
  assumes "\<not> prefix p k" "length p \<le> length k"
  defines "c \<equiv> longest_common_prefix k p"
  shows "prefix c k" "prefix c p" "length c < length k" "length c < length p"
    and "hd (drop (length c) k) \<noteq> hd (drop (length c) p)"
proof -
  show ck: "prefix c k" and cp: "prefix c p"
    by (simp_all add: c_def longest_common_prefix_prefix1 longest_common_prefix_prefix2)
  have "c \<noteq> p"
    using ck assms(1) by auto
  then show lp: "length c < length p"
    using cp by (auto simp: prefix_def)
  then show lk: "length c < length k"
    using assms(2) by simp
  obtain k' p' where k: "k = c @ k'" and p: "p = c @ p'"
    using ck cp by (auto simp: prefix_def)
  then have "k' \<noteq> []" "p' \<noteq> []"
    using lk lp by auto
  then obtain x ks y ps where xy: "k' = x # ks" "p' = y # ps"
    by (meson neq_Nil_conv)
  have "x \<noteq> y"
  proof
    assume "x = y"
    then have "prefix (c @ [x]) k" "prefix (c @ [x]) p"
      using k p xy by auto
    then have "prefix (c @ [x]) c"
      unfolding c_def by (rule longest_common_prefix_max_prefix)
    then show False
      using prefix_length_le by fastforce
  qed
  then show "hd (drop (length c) k) \<noteq> hd (drop (length c) p)"
    using k p xy by simp
qed

lemma prefix_full: "length k' = length k \<Longrightarrow> prefix k k' \<longleftrightarrow> k' = k"
  by (auto simp: prefix_def)

lemma t_insert_wf:
  "wf_tree root (length k) t \<Longrightarrow> length v < 256 ^ 8 \<Longrightarrow> wf_tree root (length k) (t_insert t k v)"
  "wf_branch dir (length k) b \<Longrightarrow> length v < 256 ^ 8 \<Longrightarrow> k \<noteq> [] \<Longrightarrow> hd k = dir \<Longrightarrow>
     wf_branch dir (length k) (b_insert b k v) \<and> b_insert b k v \<noteq> MNone"
proof (induction t and b arbitrary: root k and dir k)
  case (MNode l r)
  show ?case
  proof (cases k)
    case (Cons x ks)
    then show ?thesis
      using MNode.IH(1) [of False k] MNode.IH(2) [of True k] MNode.prems by (cases x) auto
  qed (use MNode.prems in simp)
next
  case (MBranch p t)
  show ?case
  proof (cases "prefix p k")
    case True
    then show ?thesis
      using MBranch.IH [of False "drop (length p) k"] MBranch.prems by auto
  next
    case False
    let ?c = "longest_common_prefix k p"
    note lcp = lcp_facts [OF False]
    have len: "length p \<le> length k"
      using MBranch.prems by simp
    have "?c \<noteq> []" "hd ?c = dir"
    proof -
      obtain ks ps where "k = dir # ks" "p = dir # ps"
        using MBranch.prems by (cases k; cases p) auto
      then show "?c \<noteq> []" "hd ?c = dir"
        by simp_all
    qed
    then show ?thesis
      using MBranch.prems False lcp [OF len] by (auto simp: Let_def)
  qed
qed auto

lemma t_insert_lookup:
  "wf_tree root (length k) t \<Longrightarrow> length k' = length k \<Longrightarrow>
     t_lookup (t_insert t k v) k' = (if k' = k then Some v else t_lookup t k')"
  "wf_branch dir (length k) b \<Longrightarrow> length k' = length k \<Longrightarrow> k \<noteq> [] \<Longrightarrow> hd k = dir \<Longrightarrow>
     b_lookup (b_insert b k v) k' = (if k' = k then Some v else b_lookup b k')"
proof (induction t and b arbitrary: root k k' and dir k k')
  case (MLeaf w)
  then show ?case
    by simp
next
  case (MNode l r)
  then obtain x ks y ks' where k: "k = x # ks" "k' = y # ks'"
    by (cases k; cases k') auto
  then show ?case
    using MNode.IH(1) [of False k k'] MNode.IH(2) [of True k k'] MNode.prems by (cases x; cases y) auto
next
  case MNone
  then show ?case
    by (auto simp: prefix_full)
next
  case (MBranch p t)
  show ?case
  proof (cases "prefix p k")
    case True
    then obtain ks where ks: "k = p @ ks"
      by (auto simp: prefix_def)
    show ?thesis
    proof (cases "prefix p k'")
      case True
      then obtain ks' where "k' = p @ ks'"
        by (auto simp: prefix_def)
      then show ?thesis
        using MBranch.IH [of False ks ks'] MBranch.prems ks by simp
    qed (use ks in auto)
  next
    case False
    define c where "c = longest_common_prefix k p"
    have len: "length p \<le> length k"
      using MBranch.prems by simp
    note lcp = lcp_facts [OF False len, folded c_def]
    obtain ks ps where ks: "k = c @ ks" and ps: "p = c @ ps"
      using lcp by (auto simp: prefix_def)
    have ne: "ks \<noteq> []" "ps \<noteq> []" "hd ks \<noteq> hd ps"
      using lcp ks ps by auto
    have ins: "b_insert (MBranch p t) k v = MBranch c
        (if hd ks then MNode (MBranch ps t) (MBranch ks (MLeaf v)) else MNode (MBranch ks (MLeaf v)) (MBranch ps t))"
    proof -
      have "drop (length c) k = ks" "drop (length c) p = ps"
        by (simp_all add: ks ps)
      then show ?thesis
        using False by (simp add: Let_def c_def [symmetric])
    qed
    show ?thesis
    proof (cases "prefix c k'")
      case True
      then obtain zs where zs: "k' = c @ zs"
        by (auto simp: prefix_def)
      then have "length zs = length ks"
        using MBranch.prems(2) ks by simp
      moreover from this obtain z zs' where "zs = z # zs'"
        using ne by (cases zs) auto
      ultimately show ?thesis
        using ne unfolding ins by (cases ks; cases ps) (auto simp: ks ps zs prefix_full)
    next
      case nc: False
      then have "k' \<noteq> k" "\<not> prefix p k'"
        using lcp by (auto dest: prefix_order.trans)
      then show ?thesis
        using nc unfolding ins by simp
    qed
  qed
qed

section \<open>Nodes and paths of a tree\<close>

fun t_nodes :: "'h NodeHasher \<Rightarrow> OwnedRange \<Rightarrow> bool \<Rightarrow> KeyVec \<Rightarrow> mtree \<Rightarrow> ('h NodeKey \<times> 'h Node) list"
  and b_nodes :: "'h NodeHasher \<Rightarrow> OwnedRange \<Rightarrow> KeyVec \<Rightarrow> mbranch \<Rightarrow> ('h NodeKey \<times> 'h Node) list" where
  "t_nodes H rg root pre (MLeaf v) =
     map (\<lambda>(h, n). (NodeKey pre h, n)) (opt_list (t_node H rg root pre (MLeaf v)))"
| "t_nodes H rg root pre (MNode l r) =
     map (\<lambda>(h, n). (NodeKey pre h, n)) (opt_list (t_node H rg root pre (MNode l r))) @
     b_nodes H rg pre l @ b_nodes H rg pre r"
| "b_nodes H rg pre MNone = []"
| "b_nodes H rg pre (MBranch p t) = t_nodes H rg False (pre @ p) t"

definition holds_tree :: "'h NodeHasher \<Rightarrow> OwnedRange \<Rightarrow> ('h NodeKey \<rightharpoonup> 'h Node) \<Rightarrow> mtree \<Rightarrow> bool" where
  "holds_tree H rg st t \<longleftrightarrow> list_all (\<lambda>(k, n). st k = Some n) (t_nodes H rg True [] t)"

fun t_steps :: "'h NodeHasher \<Rightarrow> OwnedRange \<Rightarrow> bool \<Rightarrow> KeyVec \<Rightarrow> mtree \<Rightarrow> KeyVec \<Rightarrow> 'h PathStep list"
  and b_steps :: "'h NodeHasher \<Rightarrow> OwnedRange \<Rightarrow> KeyVec \<Rightarrow> mbranch \<Rightarrow> KeyVec \<Rightarrow> 'h PathStep list" where
  "t_steps H rg root pre (MLeaf v) k = []"
| "t_steps H rg root pre (MNode l r) k =
     (case (t_node H rg root pre (MNode l r), k) of
        (Some (h, Interior n), x # _) \<Rightarrow>
          \<lparr>ps_hash = h, ps_node = n, ps_prefix = pre, ps_next_dir = dir_from x\<rparr> #
          (if x then b_steps H rg pre r k else b_steps H rg pre l k)
      | _ \<Rightarrow> [])"
| "b_steps H rg pre MNone k = []"
| "b_steps H rg pre (MBranch p t) k =
     (if prefix p k then t_steps H rg False (pre @ p) t (drop (length p) k) else [])"

definition verified_for ::
  "'h NodeHasher \<Rightarrow> OwnedRange \<Rightarrow> mtree \<Rightarrow> RecordId \<Rightarrow> 'h VerifiedProof \<Rightarrow> bool" where
  "verified_for H rg t key vp \<longleftrightarrow> vp_key vp = key \<and> vp_range vp = rg \<and>
     vp_path vp = t_steps H rg True [] t (rid_bits key) \<and>
     vp_leaf vp = snd (t_walk H rg True [] t (rid_bits key))"

lemma t_steps_MNode:
  assumes "t_node H rg root pre (MNode l r) = Some (h, Interior n)"
  shows "t_steps H rg root pre (MNode l r) (x # ks) =
    \<lparr>ps_hash = h, ps_node = n, ps_prefix = pre, ps_next_dir = dir_from x\<rparr> #
    b_steps H rg pre (if x then r else l) (x # ks)"
  using assms by (simp del: t_node.simps)

lemma t_nodes_prefix:
  "e \<in> set (t_nodes H rg root pre t) \<Longrightarrow> prefix pre (nk_prefix (fst e))"
  "e \<in> set (b_nodes H rg pre b) \<Longrightarrow>
     \<exists>p t. b = MBranch p t \<and> prefix (pre @ p) (nk_prefix (fst e))"
proof (induction t and b arbitrary: root pre and pre)
  case (MNode l r)
  then show ?case
    by (fastforce simp: opt_list_def dest: append_prefixD split: option.splits simp del: t_node.simps)
qed (auto simp: opt_list_def simp del: t_node.simps split: option.splits)

lemma off_path_node:
  assumes "e \<in> set (b_nodes H rg pre b)" "wf_branch d n b" "d \<noteq> x"
  shows "\<not> prefix (nk_prefix (fst e)) (pre @ x # ks)"
proof
  assume "prefix (nk_prefix (fst e)) (pre @ x # ks)"
  moreover obtain p t where "b = MBranch p t" "prefix (pre @ p) (nk_prefix (fst e))"
    using t_nodes_prefix(2) [OF assms(1)] by blast
  ultimately have "prefix p (x # ks)" "b = MBranch p t"
    by (auto dest: prefix_order.trans)
  then show False
    using assms(2,3) by (cases p) auto
qed

lemma on_path_node:
  assumes "e \<in> set (b_nodes H rg pre b)" "wf_branch d n b"
  shows "strict_prefix pre (nk_prefix (fst e))"
proof -
  obtain p t where "b = MBranch p t" "prefix (pre @ p) (nk_prefix (fst e))"
    using t_nodes_prefix(2) [OF assms(1)] by blast
  then show ?thesis
    using assms(2) by (auto simp: prefix_def strict_prefix_def)
qed

lemma with_new_child_eq:
  "with_new_child H n rg root (dir_from x) b =
   new_with_hash H rg root (if x then in_left n else Some b) (if x then Some b else in_right n)"
  by (simp add: with_new_child_def dir_from_def)

section \<open>One step of the update\<close>

definition nodes_ok ::
  "KeyVec \<Rightarrow> 'h::linorder DeltaBuilder \<Rightarrow> ('h NodeKey \<times> 'h Node) list \<Rightarrow> ('h NodeKey \<times> 'h Node) list \<Rightarrow> bool" where
  "nodes_ok full d old new \<longleftrightarrow>
     (\<forall>e \<in> set new. if prefix (nk_prefix (fst e)) full then bt_get (to_add d) (fst e) = Some (snd e) else e \<in> set old)"

definition local_change :: "(KeyVec \<Rightarrow> bool) \<Rightarrow> KeyVec \<Rightarrow> 'h::linorder DeltaBuilder \<Rightarrow> 'h DeltaBuilder \<Rightarrow> bool" where
  "local_change P full d d' \<longleftrightarrow>
     (\<forall>k. bt_get (to_add d') k \<noteq> bt_get (to_add d) k \<longrightarrow> P (nk_prefix k) \<and> strict_prefix (nk_prefix k) full) \<and>
     (\<forall>k. bt_get (to_remove d') k \<noteq> bt_get (to_remove d) k \<longrightarrow> prefix (nk_prefix k) full)"

definition set_branch :: "bool \<Rightarrow> mbranch \<Rightarrow> mbranch \<Rightarrow> mbranch \<Rightarrow> mtree" where
  "set_branch x l r b = (if x then MNode l b else MNode b r)"

lemma local_change_mono:
  "local_change P full d d' \<Longrightarrow> (\<And>k. P k \<Longrightarrow> Q k) \<Longrightarrow> local_change Q full d d'"
  by (auto simp: local_change_def)

lemma local_change_refl: "local_change P full d d"
  by (simp add: local_change_def)

lemma db_update_get:
  assumes "db_inv d"
  shows "bt_get (to_add (db_remove k (db_add k' n d))) = (bt_get (to_add d))(k' \<mapsto> n)"
    and "bt_get (to_remove (db_remove k (db_add k' n d))) = (bt_get (to_remove d))(k \<mapsto> ())"
  using assms by (auto simp: db_inv_def db_add_def db_remove_def bt.get_insert)

lemma update_step:
  fixes d0 :: "'h::linorder DeltaBuilder"
  assumes t: "t_node H rg root pre (MNode l r) = Some (h, Interior n)"
    and wf: "wf_branch False m l" "wf_branch True m r" "wf_branch x m b"
    and b: "t_branch H rg pre b = Some (Some br)"
    and new: "t_node H rg root pre (set_branch x l r b) = Some (h', n')"
    and d: "db_inv d" "local_change (strict_prefix pre) (pre @ x # ks) d0 d"
    and ok: "nodes_ok (pre @ x # ks) d (b_nodes H rg pre (if x then r else l)) (b_nodes H rg pre b)"
  shows "\<exists>u. with_new_child H n rg root (dir_from x) br = Some (h', u) \<and> n' = Interior u \<and>
    (let d' = db_remove (NodeKey pre hr) (db_add (NodeKey pre h') (Interior u) d)
     in db_inv d' \<and> local_change (prefix pre) (pre @ x # ks) d0 d' \<and>
        nodes_ok (pre @ x # ks) d' (t_nodes H rg root pre (MNode l r))
          (t_nodes H rg root pre (set_branch x l r b)))"
proof -
  obtain bl br' where tb: "t_branch H rg pre l = Some bl" "t_branch H rg pre r = Some br'"
    "n = \<lparr>in_left = bl, in_right = br'\<rparr>"
    by (rule t_node_interior [OF t]) simp
  obtain u where u: "with_new_child H n rg root (dir_from x) br = Some (h', u)" "n' = Interior u"
    using new tb b by (auto simp: set_branch_def with_new_child_eq panic_simps split: if_splits)
  let ?full = "pre @ x # ks"
  let ?d' = "db_remove (NodeKey pre hr) (db_add (NodeKey pre h') (Interior u) d)"
  note get = db_update_get [OF d(1), of "NodeKey pre hr" "NodeKey pre h'" "Interior u"]
  have "local_change (prefix pre) ?full d0 ?d'"
    using d(2) by (auto simp: local_change_def get strict_prefix_def)
  moreover have "nodes_ok ?full ?d' (t_nodes H rg root pre (MNode l r)) (t_nodes H rg root pre (set_branch x l r b))"
  proof -
    have keep: "bt_get (to_add ?d') (fst e) = Some (snd e)"
      if "e \<in> set (b_nodes H rg pre b)" "prefix (nk_prefix (fst e)) ?full" for e
      using ok that on_path_node [OF that(1) wf(3)] by (auto simp: nodes_ok_def get)
    have off: "\<not> prefix (nk_prefix (fst e)) ?full" if "e \<in> set (b_nodes H rg pre (if x then l else r))" for e
      using off_path_node [OF that, of "\<not> x" m x ks] wf by (auto split: if_splits)
    have self: "bt_get (to_add ?d') (NodeKey pre h') = Some (Interior u)"
      by (simp add: get)
    have set_new: "set (t_nodes H rg root pre (set_branch x l r b)) =
        insert (NodeKey pre h', Interior u) (set (b_nodes H rg pre b) \<union> set (b_nodes H rg pre (if x then l else r)))"
      using new u by (auto simp: set_branch_def opt_list_def simp del: t_node.simps)
    have set_old: "set (b_nodes H rg pre l) \<union> set (b_nodes H rg pre r) \<subseteq> set (t_nodes H rg root pre (MNode l r))"
      by auto
    show ?thesis
      unfolding nodes_ok_def set_new
    proof
      fix e
      assume "e \<in> insert (NodeKey pre h', Interior u)
        (set (b_nodes H rg pre b) \<union> set (b_nodes H rg pre (if x then l else r)))"
      then consider "e = (NodeKey pre h', Interior u)" | "e \<in> set (b_nodes H rg pre b)"
        | "e \<in> set (b_nodes H rg pre (if x then l else r))"
        by blast
      then show "if prefix (nk_prefix (fst e)) ?full then bt_get (to_add ?d') (fst e) = Some (snd e)
          else e \<in> set (t_nodes H rg root pre (MNode l r))"
      proof cases
        case 2
        then show ?thesis
          using keep [OF 2] ok set_old by (auto simp: nodes_ok_def split: if_splits)
      next
        case 3
        then show ?thesis
          using off [OF 3] set_old by (auto split: if_splits)
      qed (use self in auto)
    qed
  qed
  ultimately show ?thesis
    using u d(1) by (auto simp: Let_def)
qed

section \<open>The whole path\<close>

definition insert_steps ::
  "'h::linorder NodeHasher \<Rightarrow> OwnedRange \<Rightarrow> KeyVec \<Rightarrow> 'h PathStep list \<Rightarrow> 'h \<Rightarrow> 'h DeltaBuilder \<Rightarrow>
   ('h \<times> 'h DeltaBuilder) option" where
  "insert_steps H rg key steps leaf_hash delta = do {
     (h, d) \<leftarrow> insert_last H rg key (last steps) leaf_hash delta;
     roll_up H rg (rev (butlast steps)) h d
   }"

definition insert_ok ::
  "'h::linorder NodeHasher \<Rightarrow> OwnedRange \<Rightarrow> KeyVec \<Rightarrow> bool \<Rightarrow> KeyVec \<Rightarrow> mtree \<Rightarrow> mtree \<Rightarrow>
   'h DeltaBuilder \<Rightarrow> ('h \<times> 'h DeltaBuilder) option \<Rightarrow> bool" where
  "insert_ok H rg full root pre old new d0 res \<longleftrightarrow>
     (\<exists>h n d. res = Some (h, d) \<and> t_node H rg root pre new = Some (h, n) \<and> db_inv d \<and>
        local_change (prefix pre) full d0 d \<and>
        nodes_ok full d (t_nodes H rg root pre old) (t_nodes H rg root pre new))"

lemma roll_up_append:
  "roll_up H rg (xs @ ys) h d = do { (h', d') \<leftarrow> roll_up H rg xs h d; roll_up H rg ys h' d' }"
proof (induction xs arbitrary: h d)
  case (Cons s xs)
  show ?case
    by (cases "with_new_child_hash H (ps_node s) rg (ps_prefix s = []) (ps_next_dir s) h")
      (simp_all add: Cons.IH split_def)
qed simp

lemma insert_steps_Cons:
  "rest \<noteq> [] \<Longrightarrow> insert_steps H rg key (s # rest) lh d =
     do { (h, d') \<leftarrow> insert_steps H rg key rest lh d; roll_up H rg [s] h d' }"
  by (cases "insert_last H rg key (last rest) lh d")
    (simp_all add: insert_steps_def roll_up_append split_def)

lemma insert_single:
  fixes d0 :: "'h::linorder DeltaBuilder"
  assumes t: "t_node H rg root pre (MNode l r) = Some (h, Interior n)"
    and wf: "wf_tree root m (MNode l r)" "wf_tree root m (set_branch x l r b)"
    and b: "t_branch H rg pre b = Some (Some br)"
    and H: "hasher_ok H" "ids_ok rg" "m \<le> 256"
    and d: "db_inv d" "local_change (strict_prefix pre) (pre @ x # ks) d0 d"
      "nodes_ok (pre @ x # ks) d (b_nodes H rg pre (if x then r else l)) (b_nodes H rg pre b)"
    and res: "\<And>h' u. with_new_child H n rg root (dir_from x) br = Some (h', u) \<Longrightarrow>
      res = Some (h', db_remove (NodeKey pre h) (db_add (NodeKey pre h') (Interior u) d))"
  shows "insert_ok H rg (pre @ x # ks) root pre (MNode l r) (set_branch x l r b) d0 res"
proof -
  obtain h' n' where new: "t_node H rg root pre (set_branch x l r b) = Some (h', n')"
    using t_node_total(1) [OF H(1,2) wf(2) H(3)] by blast
  have wfb: "wf_branch False m l" "wf_branch True m r" "wf_branch x m b"
    using wf by (auto simp: set_branch_def split: if_splits)
  show ?thesis
    using update_step [OF t wfb b new d, where hr = h] res new by (auto simp: insert_ok_def Let_def)
qed

lemma t_insert_MNode:
  "t_insert (MNode l r) (x # ks) v = set_branch x l r (b_insert (if x then r else l) (x # ks) v)"
  by (simp add: set_branch_def)

lemma insert_leaf_branch:
  assumes "t_node H rg False full (MLeaf v) = Some (lh, Leaf lf)" "full = pre @ k" "db_inv d0"
    "bt_get (to_add d0) (NodeKey full lh) = Some (Leaf lf)"
  shows "t_branch H rg pre (MBranch k (MLeaf v)) = Some (Some \<lparr>br_prefix = k, br_hash = lh\<rparr>)"
    and "nodes_ok full d0 old (b_nodes H rg pre (MBranch k (MLeaf v)))"
  using assms by (auto simp: nodes_ok_def opt_list_def simp del: t_node.simps)

lemma insert_split:
  fixes d0 :: "'h::linorder DeltaBuilder"
  assumes H: "hasher_ok H" "ids_ok rg" and leaf: "t_node H rg False (pre @ k) (MLeaf v) = Some (lh, Leaf lf)"
    and wf: "wf_branch x (length k) (MBranch p t)" "k = x # ks" "length v < 256 ^ 8" "length k \<le> 256"
    and np: "\<not> prefix p k" and old: "t_branch H rg pre (MBranch p t) = Some (Some ob)"
    and d0: "db_inv d0" "bt_get (to_add d0) (NodeKey (pre @ k) lh) = Some (Leaf lf)"
  defines "c \<equiv> longest_common_prefix k p"
  shows "\<exists>ch cn. construct H rg False (Some \<lparr>br_prefix = drop (length c) k, br_hash = lh\<rparr>)
        (Some \<lparr>br_prefix = drop (length c) p, br_hash = br_hash ob\<rparr>) = Some (ch, cn) \<and>
      t_branch H rg pre (b_insert (MBranch p t) k v) = Some (Some \<lparr>br_prefix = c, br_hash = ch\<rparr>) \<and>
      (let d = db_add (NodeKey (pre @ c) ch) (Interior cn) d0
       in db_inv d \<and> local_change (strict_prefix pre) (pre @ k) d0 d \<and>
          nodes_ok (pre @ k) d (b_nodes H rg pre (MBranch p t)) (b_nodes H rg pre (b_insert (MBranch p t) k v)))"
proof -
  have "length p \<le> length k"
    using wf(1) by simp
  note lcp = lcp_facts [OF np this, folded c_def]
  obtain kt pt where kt: "k = c @ kt" and pt: "p = c @ pt"
    using lcp(1,2) by (auto simp: prefix_def)
  have dr: "drop (length c) k = kt" "drop (length c) p = pt"
    using kt pt by simp_all
  have ne: "kt \<noteq> []" "pt \<noteq> []" "hd kt \<noteq> hd pt"
    using lcp(3-5) dr by auto
  let ?nb = "MBranch kt (MLeaf v)"
  let ?ob = "MBranch pt t"
  let ?ct = "if hd kt then MNode ?ob ?nb else MNode ?nb ?ob"
  have ins: "b_insert (MBranch p t) k v = MBranch c ?ct"
    using np dr by (simp add: Let_def c_def [symmetric])
  have wfc: "wf_branch x (length k) (MBranch c ?ct)"
    using t_insert_wf(2) [OF wf(1,3)] wf(2) ins by simp
  then have wft: "wf_tree False (length k - length c) ?ct" "c \<noteq> []"
    by auto
  obtain ch cnode where ct: "t_node H rg False (pre @ c) ?ct = Some (ch, cnode)"
    using t_node_total(1) [OF H wft(1)] wf(4) by fastforce
  have tb: "t_branch H rg (pre @ c) ?nb = Some (Some \<lparr>br_prefix = kt, br_hash = lh\<rparr>)"
    using leaf kt by (simp del: t_node.simps)
  have to: "t_branch H rg (pre @ c) ?ob = Some (Some \<lparr>br_prefix = pt, br_hash = br_hash ob\<rparr>)"
    using t_branch_hash [OF old] pt by (auto simp del: t_node.simps)
  obtain cn where cn: "cnode = Interior cn" "construct H rg False (Some \<lparr>br_prefix = kt, br_hash = lh\<rparr>)
        (Some \<lparr>br_prefix = pt, br_hash = br_hash ob\<rparr>) = Some (ch, cn)"
  proof -
    have "branch_dir \<lparr>br_prefix = kt, br_hash = lh\<rparr> = Some (dir_from (hd kt))"
      using ne(1) by (simp add: branch_dir_def hd_conv_nth)
    then show thesis
      using that ct tb to
      by (auto simp: construct_def dir_from_def panic_simps simp del: t_branch.simps split: if_splits)
  qed
  let ?d = "db_add (NodeKey (pre @ c) ch) (Interior cn) d0"
  have get: "bt_get (to_add ?d) = (bt_get (to_add d0))(NodeKey (pre @ c) ch \<mapsto> Interior cn)"
    "bt_get (to_remove ?d) = bt_get (to_remove d0)"
    using d0(1) by (simp_all add: db_add_def db_inv_def bt.get_insert)
  have sp: "strict_prefix pre (pre @ c)" "strict_prefix (pre @ c) (pre @ k)"
    using wft(2) kt ne by (auto simp: strict_prefix_def)
  have "nodes_ok (pre @ k) ?d (b_nodes H rg pre (MBranch p t)) (b_nodes H rg pre (MBranch c ?ct))"
    unfolding nodes_ok_def
  proof
    fix e
    assume "e \<in> set (b_nodes H rg pre (MBranch c ?ct))"
    then consider "e = (NodeKey (pre @ c) ch, Interior cn)" | "e = (NodeKey (pre @ k) lh, Leaf lf)"
      | "e \<in> set (t_nodes H rg False (pre @ p) t)"
      using ct cn leaf kt pt
      by (auto simp: opt_list_def simp del: t_node.simps split: if_splits)
    then show "if prefix (nk_prefix (fst e)) (pre @ k) then bt_get (to_add ?d) (fst e) = Some (snd e)
        else e \<in> set (b_nodes H rg pre (MBranch p t))"
    proof cases
      case 1
      then show ?thesis
        using kt by (simp add: get)
    next
      case 2
      then show ?thesis
        using d0(2) kt ne by (auto simp: get)
    next
      case 3
      then have "\<not> prefix (nk_prefix (fst e)) (pre @ k)"
        using t_nodes_prefix(1) [OF 3] np by (auto dest: prefix_order.trans)
      then show ?thesis
        using 3 by simp
    qed
  qed
  moreover have "local_change (strict_prefix pre) (pre @ k) d0 ?d"
    using sp by (auto simp: local_change_def get)
  moreover have "t_branch H rg pre (MBranch c ?ct) = Some (Some \<lparr>br_prefix = c, br_hash = ch\<rparr>)"
    using ct by (simp del: t_node.simps)
  ultimately show ?thesis
    using cn(2) d0(1) unfolding ins dr by (auto simp: Let_def simp del: t_branch.simps b_nodes.simps)
qed

lemma t_branch_Some: "t_branch H rg pre (MBranch q t) = Some c \<Longrightarrow> \<exists>b. c = Some b \<and> br_prefix b = q"
  by (auto simp: panic_simps)

lemma insert_point:
  fixes H :: "'h::linorder NodeHasher"
  assumes H: "hasher_ok H" "ids_ok rg" and leaf: "t_node H rg False full (MLeaf v) = Some (lh, Leaf lf)"
    and v: "length v < 256 ^ 8" "length full = 256"
    and d0: "db_inv d0" "bt_get (to_add d0) (NodeKey full lh) = Some (Leaf lf)"
    and t: "t_node H rg root pre (MNode l r) = Some (h, Interior n)" "wf_tree root (length k) (MNode l r)"
    and full: "full = pre @ k" "root = (pre = [])" "k = x # ks"
    and bx: "(if x then r else l) = MNone \<or> (\<exists>w. (if x then r else l) = MBranch k (MLeaf w))"
  shows "insert_ok H rg full root pre (MNode l r) (t_insert (MNode l r) k v) d0
    (insert_steps H rg full [\<lparr>ps_hash = h, ps_node = n, ps_prefix = pre, ps_next_dir = dir_from x\<rparr>] lh d0)"
proof -
  define b where "b = (if x then r else l)"
  have br: "t_branch H rg pre b = Some (branch n (dir_from x))"
    using t(1) by (auto elim!: t_node_interior simp: b_def branch_def dir_from_def simp del: t_node.simps)
  have ins: "b_insert b k v = MBranch k (MLeaf v)"
    using bx by (auto simp: b_def)
  have new: "t_insert (MNode l r) k v = set_branch x l r (MBranch k (MLeaf v))"
    using t_insert_MNode [of l r x ks v] ins by (simp add: full(3) b_def)
  have wfn: "wf_tree root (length k) (set_branch x l r (MBranch k (MLeaf v)))"
    using t_insert_wf(1) [OF t(2) v(1)] new by simp
  have len: "length k \<le> 256" "pre @ x # ks = full" "kv_from full (length pre) = Some k"
    using v(2) full by (auto simp: kv_from_def)
  note leafb = insert_leaf_branch [OF leaf full(1) d0]
  have "insert_ok H rg (pre @ x # ks) root pre (MNode l r) (set_branch x l r (MBranch k (MLeaf v))) d0
    (insert_steps H rg full [\<lparr>ps_hash = h, ps_node = n, ps_prefix = pre, ps_next_dir = dir_from x\<rparr>] lh d0)"
  proof (rule insert_single [OF t wfn leafb(1) H len(1) d0(1) local_change_refl], goal_cases)
    case 1
    show ?case
      using leafb(2) len(2) by simp
  next
    case (2 h' u)
    show ?case
    proof (cases "b = MNone")
      case True
      then have "root" "branch n (dir_from x) = None"
        using t(2) br by (auto simp: b_def split: if_splits)
      then show ?thesis
        using 2 len(3) by (simp add: insert_steps_def insert_last_def)
    next
      case False
      then obtain w where "b = MBranch k (MLeaf w)"
        using bx b_def by auto
      then obtain c where "branch n (dir_from x) = Some c" "br_prefix c = k"
        using t_branch_Some [of H rg pre k "MLeaf w"] br by blast
      then show ?thesis
        using 2 len(3) full(2) by (simp add: insert_steps_def insert_last_def with_new_child_hash_def)
    qed
  qed
  then show ?thesis
    using new len(2) by simp
qed

lemma insert_at_split:
  fixes H :: "'h::linorder NodeHasher"
  assumes H: "hasher_ok H" "ids_ok rg" and leaf: "t_node H rg False full (MLeaf v) = Some (lh, Leaf lf)"
    and v: "length v < 256 ^ 8" "length full = 256"
    and d0: "db_inv d0" "bt_get (to_add d0) (NodeKey full lh) = Some (Leaf lf)"
    and t: "t_node H rg root pre (MNode l r) = Some (h, Interior n)" "wf_tree root (length k) (MNode l r)"
    and full: "full = pre @ k" "root = (pre = [])" "k = x # ks"
    and bx: "(if x then r else l) = MBranch p t'" "\<not> prefix p k"
  shows "insert_ok H rg full root pre (MNode l r) (t_insert (MNode l r) k v) d0
    (insert_steps H rg full [\<lparr>ps_hash = h, ps_node = n, ps_prefix = pre, ps_next_dir = dir_from x\<rparr>] lh d0)"
proof -
  let ?b = "b_insert (MBranch p t') k v"
  let ?c = "longest_common_prefix k p"
  have br: "t_branch H rg pre (MBranch p t') = Some (branch n (dir_from x))"
    unfolding bx(1) [symmetric]
    using t(1) by (auto elim!: t_node_interior simp: branch_def dir_from_def simp del: t_node.simps)
  then obtain ob where ob: "branch n (dir_from x) = Some ob" "br_prefix ob = p"
    using t_branch_Some [OF br] by blast
  have wfb: "wf_branch x (length k) (MBranch p t')"
    unfolding bx(1) [symmetric] using t(2) by auto
  have new: "t_insert (MNode l r) k v = set_branch x l r ?b"
    using t_insert_MNode [of l r x ks v] bx(1) by (simp add: full(3))
  have wfn: "wf_tree root (length k) (set_branch x l r ?b)"
    using t_insert_wf(1) [OF t(2) v(1)] new by simp
  have len: "length k \<le> 256" "pre @ x # ks = full" "kv_from full (length pre) = Some k"
    using v(2) full by (auto simp: kv_from_def)
  obtain ch cn where cons: "construct H rg False (Some \<lparr>br_prefix = drop (length ?c) k, br_hash = lh\<rparr>)
        (Some \<lparr>br_prefix = drop (length ?c) p, br_hash = br_hash ob\<rparr>) = Some (ch, cn)"
    and tb: "t_branch H rg pre ?b = Some (Some \<lparr>br_prefix = ?c, br_hash = ch\<rparr>)"
    and d: "db_inv (db_add (NodeKey (pre @ ?c) ch) (Interior cn) d0)"
      "local_change (strict_prefix pre) (pre @ k) d0 (db_add (NodeKey (pre @ ?c) ch) (Interior cn) d0)"
      "nodes_ok (pre @ k) (db_add (NodeKey (pre @ ?c) ch) (Interior cn) d0)
         (b_nodes H rg pre (MBranch p t')) (b_nodes H rg pre ?b)"
    using insert_split [OF H leaf [unfolded full(1)] wfb full(3) v(1) len(1) bx(2) br [unfolded ob(1)]
        d0 [unfolded full(1)]] unfolding Let_def by blast
  obtain ps where ps: "p = x # ps"
    using wfb by (cases p) auto
  have lc: "prefix ?c k" "prefix ?c p"
    by (rule longest_common_prefix_prefix1, rule longest_common_prefix_prefix2)
  then have c: "length ?c \<le> length k" "length ?c \<le> length p"
    by (simp_all add: prefix_length_le)
  moreover have "?c \<noteq> []" "k \<noteq> p"
    using bx(2) by (auto simp: full(3) ps)
  moreover have "take (length ?c) k = ?c"
    using lc(1) by (metis append_eq_conv_conj prefixE)
  ultimately have c: "?c \<noteq> []" "length ?c \<le> length k" "length ?c \<le> length p" "k \<noteq> p" "take (length ?c) k = ?c"
    by blast+
  have "insert_ok H rg (pre @ x # ks) root pre (MNode l r) (set_branch x l r ?b) d0
    (insert_steps H rg full [\<lparr>ps_hash = h, ps_node = n, ps_prefix = pre, ps_next_dir = dir_from x\<rparr>] lh d0)"
  proof (rule insert_single [OF t wfn tb H len(1) d(1)], goal_cases)
    case (3 h' u)
    then show ?case
      using ob len(3) c full(2) cons
      by (simp add: insert_steps_def insert_last_def Let_def) (simp add: kv_from_def kv_to_def full(1))
  qed (use d(2,3) bx(1) full(3) in simp_all)
  then show ?thesis
    using new len(2) by simp
qed

lemma insert_steps_ok:
  fixes H :: "'h::linorder NodeHasher"
  assumes H: "hasher_ok H" "ids_ok rg" and leaf: "t_node H rg False full (MLeaf v) = Some (lh, Leaf lf)"
    and v: "length v < 256 ^ 8" "length full = 256"
    and d0: "db_inv d0" "bt_get (to_add d0) (NodeKey full lh) = Some (Leaf lf)"
  shows "t_node H rg root pre (MNode l r) = Some (h, Interior n) \<Longrightarrow> wf_tree root (length k) (MNode l r) \<Longrightarrow>
    full = pre @ k \<Longrightarrow> root = (pre = []) \<Longrightarrow>
    insert_ok H rg full root pre (MNode l r) (t_insert (MNode l r) k v) d0
      (insert_steps H rg full (t_steps H rg root pre (MNode l r) k) lh d0)"
proof (induction "length k" arbitrary: k root pre l r h n rule: less_induct)
  case less
  note t = less.prems(1,2) and full = less.prems(3,4)
  obtain x ks where k: "k = x # ks"
    using t(2) by (cases k) auto
  define bx where "bx = (if x then r else l)"
  define s where "s = \<lparr>ps_hash = h, ps_node = n, ps_prefix = pre, ps_next_dir = dir_from x\<rparr>"
  have steps: "t_steps H rg root pre (MNode l r) k = s # b_steps H rg pre bx k"
    using t_steps_MNode [OF t(1), of x ks] by (simp add: k bx_def s_def)
  have bx: "t_branch H rg pre bx = Some (branch n (dir_from x))" "wf_branch x (length k) bx"
    using t by (auto elim!: t_node_interior simp: bx_def branch_def dir_from_def simp del: t_node.simps)
  note point = insert_point [OF H leaf v d0 t full k, folded s_def bx_def]
  show ?case
  proof (cases bx)
    case MNone
    then have "b_steps H rg pre bx k = []"
      by simp
    then show ?thesis
      unfolding steps using point MNone by (metis (no_types))
  next
    case (MBranch p t')
    show ?thesis
    proof (cases "prefix p k")
      case False
      then have "b_steps H rg pre bx k = []"
        by (simp add: MBranch)
      then show ?thesis
        unfolding steps
        using insert_at_split [OF H leaf v d0 t full k, folded s_def bx_def, OF MBranch False] by (metis (no_types))
    next
      case True
      have wf': "p \<noteq> []" "wf_tree False (length (drop (length p) k)) t'"
        using bx(2) by (auto simp: MBranch)
      have kk: "k = p @ drop (length p) k"
        using True by (auto simp: prefix_def)
      show ?thesis
      proof (cases t')
        case (MLeaf w)
        then have "p = k"
          using wf'(2) kk by simp
        then have "b_steps H rg pre bx k = []" "bx = MBranch k (MLeaf w)"
          by (simp_all add: MBranch MLeaf)
        then show ?thesis
          unfolding steps using point by (metis (no_types))
      next
        case (MNode l' r')
        let ?k = "drop (length p) k"
        obtain h1 n1 where n1: "branch n (dir_from x) = Some \<lparr>br_prefix = p, br_hash = h1\<rparr>"
          "t_node H rg False (pre @ p) (MNode l' r') = Some (h1, n1)"
          using t_branch_MBranchD bx(1) unfolding MBranch MNode by blast
        then obtain i1 where i1: "n1 = Interior i1"
          by (auto elim: t_node_interior simp del: t_node.simps)
        have "length ?k < length k" "full = (pre @ p) @ ?k" "False = (pre @ p = [])"
          using wf'(1) kk full(1) by (auto simp: k)
        note IH = less.hyps [OF this(1) n1(2) [unfolded i1] wf'(2) [unfolded MNode] this(2,3)]
        let ?new = "t_insert (MNode l' r') ?k v"
        let ?sub = "insert_steps H rg full (t_steps H rg False (pre @ p) (MNode l' r') ?k) lh d0"
        obtain h2 n2 d2 where sub: "?sub = Some (h2, d2)" "t_node H rg False (pre @ p) ?new = Some (h2, n2)"
          "db_inv d2" "local_change (prefix (pre @ p)) full d0 d2"
          "nodes_ok full d2 (t_nodes H rg False (pre @ p) (MNode l' r')) (t_nodes H rg False (pre @ p) ?new)"
          using IH unfolding insert_ok_def by blast
        let ?b = "MBranch p ?new"
        have new: "t_insert (MNode l r) k v = set_branch x l r ?b"
          using t_insert_MNode [of l r x ks v] True by (simp add: k [symmetric] bx_def [symmetric] MBranch MNode)
        have wfn: "wf_tree root (length k) (set_branch x l r ?b)"
          using t_insert_wf(1) [OF t(2) v(1)] new by simp
        have len: "length k \<le> 256" "pre @ x # ks = full"
          using v(2) full(1) k by auto
        have tb: "t_branch H rg pre ?b = Some (Some \<lparr>br_prefix = p, br_hash = h2\<rparr>)"
          using sub(2) by (simp del: t_node.simps t_insert.simps)
        have rest: "b_steps H rg pre bx k = t_steps H rg False (pre @ p) (MNode l' r') ?k"
          using True by (simp add: MBranch MNode del: t_steps.simps)
        obtain y ys where "?k = y # ys"
          using wf'(2) MNode by (cases ?k) auto
        then have rest_ne: "b_steps H rg pre bx k \<noteq> []"
          unfolding rest using t_steps_MNode [OF n1(2) [unfolded i1], of y ys] by (simp del: t_steps.simps)
        have "insert_ok H rg (pre @ x # ks) root pre (MNode l r) (set_branch x l r ?b) d0
            (insert_steps H rg full (s # b_steps H rg pre bx k) lh d0)"
        proof (rule insert_single [OF t wfn tb H len(1) sub(3)], goal_cases)
          case 1
          show ?case
            using sub(4) len(2) wf'(1) by (auto elim!: local_change_mono simp: strict_prefix_def prefix_def)
        next
          case 2
          show ?case
            using sub(5) by (simp add: len(2) bx_def [symmetric] MBranch MNode del: t_nodes.simps t_insert.simps)
        next
          case (3 h' u)
          then show ?case
            unfolding insert_steps_Cons [OF rest_ne]
            using sub(1) n1(1) full(2) by (simp add: rest s_def with_new_child_hash_def del: t_steps.simps)
        qed
        then show ?thesis
          unfolding steps new len(2) .
      qed
    qed
  qed
qed

lemma t_steps_last_branch:
  "t_node H rg root pre (MNode l r) = Some (h, Interior n) \<Longrightarrow> wf_tree root (length k) (MNode l r) \<Longrightarrow>
   t_steps H rg root pre (MNode l r) k \<noteq> [] \<and>
   (snd (t_walk H rg root pre (MNode l r) k) \<noteq> None \<longrightarrow>
      (let s = last (t_steps H rg root pre (MNode l r) k) in branch (ps_node s) (ps_next_dir s) \<noteq> None))"
proof (induction "length k" arbitrary: k root pre l r h n rule: less_induct)
  case less
  note t = less.prems
  obtain x ks where k: "k = x # ks"
    using t(2) by (cases k) auto
  obtain bl br where tb: "t_branch H rg pre l = Some bl" "t_branch H rg pre r = Some br"
    "n = \<lparr>in_left = bl, in_right = br\<rparr>"
    by (rule t_node_interior [OF t(1)]) simp
  define bx where "bx = (if x then r else l)"
  have bx: "t_branch H rg pre bx = Some (branch n (dir_from x))" "wf_branch x (length k) bx"
    using tb t(2) by (auto simp: bx_def branch_def dir_from_def)
  have steps: "t_steps H rg root pre (MNode l r) k =
      \<lparr>ps_hash = h, ps_node = n, ps_prefix = pre, ps_next_dir = dir_from x\<rparr> # b_steps H rg pre bx k"
    using t_steps_MNode [OF t(1), of x ks] by (simp add: k bx_def)
  have walk: "snd (t_walk H rg root pre (MNode l r) k) = snd (b_walk H rg pre bx k)"
    using t_walk_MNode [OF tb(1,2), of root x ks] by (simp add: k bx_def)
  show ?case
  proof (cases bx)
    case MNone
    then show ?thesis
      unfolding steps walk by simp
  next
    case (MBranch p t')
    obtain h1 n1 where n1: "branch n (dir_from x) = Some \<lparr>br_prefix = p, br_hash = h1\<rparr>"
      "t_node H rg False (pre @ p) t' = Some (h1, n1)"
      using t_branch_MBranchD bx(1) unfolding MBranch by blast
    show ?thesis
    proof (cases "prefix p k \<and> (\<exists>l' r'. t' = MNode l' r')")
      case True
      then obtain l' r' where t': "t' = MNode l' r'" and pk: "prefix p k"
        by blast
      obtain i1 where "n1 = Interior i1"
        using n1(2) t' by (auto elim: t_node_interior simp del: t_node.simps)
      moreover have "length (drop (length p) k) < length k" "wf_tree False (length (drop (length p) k)) t'"
        using bx(2) by (auto simp: MBranch k)
      ultimately show ?thesis
        using less.hyps [of "drop (length p) k" False "pre @ p" l' r' h1 i1] n1(2) pk unfolding steps walk
        by (simp add: MBranch t' Let_def del: t_steps.simps t_node.simps t_walk.simps)
    next
      case False
      then have "b_steps H rg pre bx k = []"
        by (cases t') (auto simp: MBranch)
      then show ?thesis
        unfolding steps using n1(1) by simp
    qed
  qed
qed

lemma already_latest_steps:
  assumes "length full = 256"
  shows "t_node H rg root pre t = Some (h, n) \<Longrightarrow> wf_tree root (length k) t \<Longrightarrow> full = pre @ k \<Longrightarrow>
    already_latest_loop full (length pre) h (fst (t_walk H rg root pre t k)) = Some (t_steps H rg root pre t k)"
proof (induction "length k" arbitrary: k root pre t h n rule: less_induct)
  case less
  note t = less.prems
  show ?case
  proof (cases t)
    case (MNode l r)
    obtain x ks where k: "k = x # ks"
      using t(2) MNode by (cases k) auto
    obtain bl br i where tb: "t_branch H rg pre l = Some bl" "t_branch H rg pre r = Some br"
      "n = Interior i" "i = \<lparr>in_left = bl, in_right = br\<rparr>"
      by (rule t_node_interior [OF t(1) [unfolded MNode]]) simp
    define bx where "bx = (if x then r else l)"
    have bx: "t_branch H rg pre bx = Some (branch i (dir_from x))" "wf_branch x (length k) bx"
      using tb t(2) by (auto simp: bx_def branch_def dir_from_def MNode)
    have steps: "t_steps H rg root pre t k =
        \<lparr>ps_hash = h, ps_node = i, ps_prefix = pre, ps_next_dir = dir_from x\<rparr> # b_steps H rg pre bx k"
      using t_steps_MNode [OF t(1) [unfolded MNode tb(3)], of x ks] by (simp add: MNode k bx_def)
    have walk: "fst (t_walk H rg root pre t k) = i # fst (b_walk H rg pre bx k)"
      using t_walk_MNode [OF tb(1,2), of root x ks] by (simp add: MNode k bx_def tb(4))
    have ix: "index_get full (length pre) = Some x" "kv_to full (length pre) = Some pre"
      "kv_from full (length pre) = Some k"
      using t(3) k by (auto simp: index_get_def kv_to_def kv_from_def)
    show ?thesis
    proof (cases bx)
      case MNone
      then show ?thesis
        unfolding steps walk using bx(1) ix by simp
    next
      case (MBranch p t')
      obtain h1 n1 where n1: "branch i (dir_from x) = Some \<lparr>br_prefix = p, br_hash = h1\<rparr>"
        "t_node H rg False (pre @ p) t' = Some (h1, n1)"
        using t_branch_MBranchD bx(1) unfolding MBranch by blast
      have sub: "length (drop (length p) k) < length k" "wf_tree False (length (drop (length p) k)) t'"
        using bx(2) by (auto simp: MBranch k)
      show ?thesis
      proof (cases "prefix p k")
        case True
        then have "full = (pre @ p) @ drop (length p) k"
          using t(3) by (auto simp: prefix_def)
        then show ?thesis
          unfolding steps walk
          using less.hyps [OF sub(1) n1(2) sub(2)] n1(1) ix True by (simp add: MBranch)
      next
        case False
        then show ?thesis
          unfolding steps walk using n1(1) ix by (simp add: MBranch)
      qed
    qed
  qed simp
qed

lemma insert_path_ok:
  fixes H :: "'h::linorder NodeHasher"
  assumes H: "hasher_ok H" "ids_ok rg" and t: "wf_tree True 256 t" "t_node H rg True [] t = Some (root, n)"
    and key: "rid_ok key" "length v < 256 ^ 8" and vp: "verified_for H rg t key vp"
  shows "\<exists>h n' d. insert_path H vp v = Some (h, db_build d) \<and> db_inv d \<and>
    t_node H rg True [] (t_insert t (rid_bits key) v) = Some (h, n') \<and>
    nodes_ok (rid_bits key) d (t_nodes H rg True [] t) (t_nodes H rg True [] (t_insert t (rid_bits key) v)) \<and>
    (\<forall>k. bt_get (to_add d) k \<noteq> None \<or> bt_get (to_remove d) k \<noteq> None \<longrightarrow> prefix (nk_prefix k) (rid_bits key))"
proof -
  let ?k = "rid_bits key"
  have len: "length ?k = 256"
    using key(1) by (rule length_rid_bits)
  obtain l r where lr: "t = MNode l r"
    using t(1) by (cases t) auto
  obtain i where i: "n = Interior i"
    using t(2) lr by (auto elim: t_node_interior simp del: t_node.simps)
  have path: "vp_path vp = t_steps H rg True [] t ?k" "vp_key vp = key" "vp_range vp = rg"
    "vp_leaf vp = snd (t_walk H rg True [] t ?k)"
    using vp by (auto simp: verified_for_def)
  note tn = t(2) [unfolded lr i] and wf = t(1) [folded len, unfolded lr]
  note last = t_steps_last_branch [OF tn wf, folded lr]
  obtain lh where leaf: "new_leaf H key v = Some (lh, \<lparr>lf_value = v\<rparr>)"
    by (simp add: new_leaf_def nhb_build_def nhb_bytes_def)
  then have tleaf: "t_node H rg False ?k (MLeaf v) = Some (lh, Leaf \<lparr>lf_value = v\<rparr>)"
    by (simp add: record_id_of_bits)
  obtain d0 where d0: "db_inv d0" "bt_get (to_add d0) = Map.empty"
      "\<And>k. bt_get (to_remove d0) k \<noteq> None \<Longrightarrow> nk_prefix k = ?k"
    and run: "insert_path H vp v = do {
      (h, d) \<leftarrow> insert_steps H rg ?k (t_steps H rg True [] t ?k) lh (db_add (NodeKey ?k lh) (Leaf \<lparr>lf_value = v\<rparr>) d0);
      Some (h, db_build d) }"
  proof (cases "vp_leaf vp")
    case None
    then show thesis
      using that [of db_new] last leaf path
      by (simp add: insert_path_def insert_steps_def Let_def db_new_def bt_get_def db_inv_def bt_inv_def fun_eq_iff split_def)
  next
    case (Some lf)
    define s where "s = last (t_steps H rg True [] t ?k)"
    obtain b where b: "branch (ps_node s) (ps_next_dir s) = Some b"
      using last Some path(4) by (auto simp: Let_def s_def)
    let ?d = "db_remove (NodeKey ?k (br_hash b)) db_new"
    have get: "bt_get (to_remove ?d) = [NodeKey ?k (br_hash b) \<mapsto> ()]"
      by (simp add: db_remove_def db_new_def bt_get_def fun_eq_iff)
    show thesis
    proof (rule that [of ?d])
      show "db_inv ?d" "bt_get (to_add ?d) = Map.empty"
        by (simp_all add: db_remove_def db_new_def db_inv_def bt_inv_def bt_get_def fun_eq_iff)
      show "nk_prefix k = ?k" if "bt_get (to_remove ?d) k \<noteq> None" for k
        using that by (simp add: get split: if_splits)
      show "insert_path H vp v = do {
        (h, d) \<leftarrow> insert_steps H rg ?k (t_steps H rg True [] t ?k) lh (db_add (NodeKey ?k lh) (Leaf \<lparr>lf_value = v\<rparr>) ?d);
        Some (h, db_build d) }"
        using last leaf path(1-3) Some b by (simp add: insert_path_def insert_steps_def Let_def s_def split_def)
    qed
  qed
  define d1 where "d1 = db_add (NodeKey ?k lh) (Leaf \<lparr>lf_value = v\<rparr>) d0"
  have d1: "db_inv d1" "bt_get (to_add d1) = [NodeKey ?k lh \<mapsto> Leaf \<lparr>lf_value = v\<rparr>]"
    "bt_get (to_remove d1) = bt_get (to_remove d0)"
    using d0 by (auto simp: d1_def db_add_def db_inv_def bt.get_insert bt.invar_insert)
  have "insert_ok H rg ?k True [] t (t_insert t ?k v) d1 (insert_steps H rg ?k (t_steps H rg True [] t ?k) lh d1)"
    using insert_steps_ok [OF H tleaf key(2) len d1(1) _ tn wf] d1(2) lr by simp
  then obtain h n' d where res: "insert_steps H rg ?k (t_steps H rg True [] t ?k) lh d1 = Some (h, d)"
    "t_node H rg True [] (t_insert t ?k v) = Some (h, n')" "db_inv d" "local_change (prefix []) ?k d1 d"
    "nodes_ok ?k d (t_nodes H rg True [] t) (t_nodes H rg True [] (t_insert t ?k v))"
    unfolding insert_ok_def by blast
  have "prefix (nk_prefix k) ?k" if "bt_get (to_add d) k \<noteq> None \<or> bt_get (to_remove d) k \<noteq> None" for k
  proof (cases "bt_get (to_add d) k = bt_get (to_add d1) k \<and> bt_get (to_remove d) k = bt_get (to_remove d1) k")
    case True
    then show ?thesis
      using that d0(3) [of k] by (auto simp: d1 split: if_splits)
  next
    case False
    then show ?thesis
      using res(4) by (auto simp: local_change_def dest: prefix_order.less_imp_le)
  qed
  then show ?thesis
    using run res(1-3,5) by (auto simp: d1_def [symmetric])
qed

lemma holds_tree_apply:
  assumes "db_inv d" "nodes_ok full d old (t_nodes H rg True [] t')"
    and "\<And>k. bt_get (to_add d) k \<noteq> None \<or> bt_get (to_remove d) k \<noteq> None \<Longrightarrow> prefix (nk_prefix k) full"
    and "list_all (\<lambda>(k, n). st k = Some n) old"
  shows "holds_tree H rg (apply_delta (db_build d) st) t'"
  unfolding holds_tree_def list_all_iff
proof (intro ballI, clarify)
  fix k n
  assume kn: "(k, n) \<in> set (t_nodes H rg True [] t')"
  show "apply_delta (db_build d) st k = Some n"
  proof (cases "prefix (nk_prefix k) full")
    case True
    then have "bt_get (to_add d) k = Some n"
      using assms(2) kn by (force simp: nodes_ok_def)
    then show ?thesis
      by (simp add: apply_db_build assms(1))
  next
    case False
    then have "(k, n) \<in> set old"
      using assms(2) kn by (force simp: nodes_ok_def)
    then have "st k = Some n"
      using assms(4) by (auto simp: list_all_iff)
    moreover have "bt_get (to_add d) k = None" "bt_get (to_remove d) k = None"
      using assms(3) [of k] False by blast+
    ultimately show ?thesis
      by (simp add: apply_db_build assms(1))
  qed
qed

lemma already_latest_verified_for:
  assumes "hasher_ok H" "wf_tree True 256 t" "ids_ok rg"
    and "t_node H rg True [] t = Some (rp_root_hash p, n)"
    and "proof_ok p" "no_collision H (t_builders H rg True [] t) (p_builders p)"
    and v: "verify_proof H p = Some (Inr lh)" and vp: "new_already_latest p = Some vp"
  shows "verified_for H rg t (rp_key p) vp"
proof -
  have walk: "t_walk H rg True [] t (rid_bits (rp_key p)) = (rp_path p, rp_leaf p)" "rp_range p = rg"
    using verify_proof_walk [OF assms(1,2) _ _ assms(4-6) v] assms(3) by (auto simp: ids_ok_def)
  have len: "length (rid_bits (rp_key p)) = 256"
    using assms(5) by (simp add: proof_ok_def length_rid_bits)
  have "already_latest_loop (rid_bits (rp_key p)) 0 (rp_root_hash p) (rp_path p) =
      Some (t_steps H rg True [] t (rid_bits (rp_key p)))"
    using already_latest_steps [OF len assms(4), of "rid_bits (rp_key p)"] assms(2) walk(1) len by simp
  then show ?thesis
    using vp walk by (auto simp: new_already_latest_def verified_for_def)
qed

lemma latest_proof_verified_for:
  assumes "hasher_ok H" "wf_tree True 256 t" "ids_ok rg"
    and "t_node H rg True [] t = Some (rp_root_hash p, n)"
    and "proof_ok p" "no_collision H (t_builders H rg True [] t) (p_builders p)"
    and "ov_latest_root (tr_overlay tree) = rp_root_hash p"
    and "latest_proof H tree p = Some (Inr vp)"
  shows "verified_for H rg t (rp_key p) vp"
proof -
  obtain lh where "verify_proof H p = Some (Inr lh)" "new_already_latest p = Some vp"
    using assms(7,8)
    by (cases "verify_proof H p"; cases "the (verify_proof H p)"; cases "new_already_latest p")
      (auto simp: latest_proof_def verify_def new_make_latest_def panic_simps split: if_splits)
  then show ?thesis
    by (rule already_latest_verified_for [OF assms(1-6)])
qed

lemma foreign_proof_verified_for:
  assumes "hasher_ok H" "wf_tree True 256 t" "ids_ok rg"
    and "t_node H rg True [] t = Some (rp_root_hash p, n)"
    and "proof_ok p" "no_collision H (t_builders H rg True [] t) (p_builders p)"
    and "verify_foreign_proof H p = Some (Inr vp)"
  shows "verified_for H rg t (rp_key p) vp"
proof -
  obtain lh where "verify_proof H p = Some (Inr lh)" "new_already_latest p = Some vp"
    using assms(7)
    by (cases "verify_proof H p"; cases "the (verify_proof H p)"; cases "new_already_latest p")
      (auto simp: verify_foreign_proof_def panic_simps)
  then show ?thesis
    by (rule already_latest_verified_for [OF assms(1-6)])
qed

lemma t_insert_same:
  "t_lookup t k = Some v \<Longrightarrow> t_insert t k v = t"
  "b_lookup b k = Some v \<Longrightarrow> b_insert b k v = b"
  by (induction t and b arbitrary: k and k) (auto split: list.splits if_splits)

lemma apply_delta_default [simp]: "apply_delta delta_default st = st"
  by (simp add: apply_delta_def delta_default_def bt_get_def fun_eq_iff)

lemma add_delta_latest [simp]: "ov_latest_root (add_delta h d ov) = h"
  by (simp add: add_delta_def add_cleanup_def expire_oldest_delta_def Let_def split: list.splits)

lemma verified_for_root:
  assumes "wf_tree True 256 t" "t_node H rg True [] t = Some (root, n)" "rid_ok key" "verified_for H rg t key vp"
  shows "vp_root_hash vp = Some root" "map_option lf_value (vp_leaf vp) = t_lookup t (rid_bits key)"
proof -
  have len: "length (rid_bits key) = 256"
    using assms(3) by (rule length_rid_bits)
  obtain l r where lr: "t = MNode l r"
    using assms(1) by (cases t) auto
  obtain i where i: "n = Interior i"
    using assms(2) lr by (auto elim: t_node_interior simp del: t_node.simps)
  obtain x ks where ks: "rid_bits key = x # ks"
    using len by (cases "rid_bits key") auto
  have "t_steps H rg True [] t (rid_bits key) = \<lparr>ps_hash = root, ps_node = i, ps_prefix = [], ps_next_dir = dir_from x\<rparr> #
      b_steps H rg [] (if x then r else l) (rid_bits key)"
    using t_steps_MNode [OF assms(2) [unfolded lr i], of x ks] by (simp only: ks lr)
  then show "vp_root_hash vp = Some root"
    using assms(4) by (simp add: vp_root_hash_def verified_for_def)
  show "map_option lf_value (vp_leaf vp) = t_lookup t (rid_bits key)"
    using assms(4) t_walk_lookup(1) [OF _ assms(2)] assms(1) len by (simp add: verified_for_def)
qed

lemma tree_insert_changes:
  fixes H :: "'h::linorder NodeHasher"
  assumes "hasher_ok H" "ids_ok rg" "wf_tree True 256 t" "t_node H rg True [] t = Some (ov_latest_root (tr_overlay tree), n)"
    and "rid_ok key" "length v < 256 ^ 8" "verified_for H rg t key vp" "t_lookup t (rid_bits key) \<noteq> Some v"
  shows "\<exists>h d n'. tree_insert H tree vp v = Some (tree\<lparr>tr_overlay := add_delta h (db_build d) (tr_overlay tree)\<rparr>, Inr (h, db_build d)) \<and>
    t_node H rg True [] (t_insert t (rid_bits key) v) = Some (h, n') \<and>
    nodes_ok (rid_bits key) d (t_nodes H rg True [] t) (t_nodes H rg True [] (t_insert t (rid_bits key) v)) \<and>
    (\<forall>st. holds_tree H rg st t \<longrightarrow> holds_tree H rg (apply_delta (db_build d) st) (t_insert t (rid_bits key) v))"
proof -
  note vp = verified_for_root [OF assms(3-5,7)]
  obtain h n' d where ins: "insert_path H vp v = Some (h, db_build d)" "t_node H rg True [] (t_insert t (rid_bits key) v) = Some (h, n')"
    and d: "db_inv d" "nodes_ok (rid_bits key) d (t_nodes H rg True [] t) (t_nodes H rg True [] (t_insert t (rid_bits key) v))"
      "\<And>k. bt_get (to_add d) k \<noteq> None \<or> bt_get (to_remove d) k \<noteq> None \<Longrightarrow> prefix (nk_prefix k) (rid_bits key)"
    using insert_path_ok [OF assms(1-7)] by blast
  have "tree_insert H tree vp v =
      Some (tree\<lparr>tr_overlay := add_delta h (db_build d) (tr_overlay tree)\<rparr>, Inr (h, db_build d))"
    using assms(8) vp ins(1) by (simp add: tree_insert_def)
  then show ?thesis
    using ins(2) d(2) holds_tree_apply [OF d(1,2) d(3), folded holds_tree_def] by blast
qed

lemma tree_insert_ok:
  fixes H :: "'h::linorder NodeHasher"
  assumes "hasher_ok H" "ids_ok rg" "wf_tree True 256 t" "t_node H rg True [] t = Some (ov_latest_root (tr_overlay tree), n)"
    and "rid_ok key" "length v < 256 ^ 8" "verified_for H rg t key vp"
  shows "\<exists>tree' h d t' n'. tree_insert H tree vp v = Some (tree', Inr (h, d)) \<and>
    ov_latest_root (tr_overlay tree') = h \<and>
    wf_tree True 256 t' \<and> t_node H rg True [] t' = Some (h, n') \<and>
    (\<forall>k. rid_ok k \<longrightarrow> t_lookup t' (rid_bits k) = (if k = key then Some v else t_lookup t (rid_bits k))) \<and>
    (\<forall>st. holds_tree H rg st t \<longrightarrow> holds_tree H rg (apply_delta d st) t')"
proof -
  let ?t' = "t_insert t (rid_bits key) v"
  have t': "wf_tree True 256 ?t'"
    "\<And>k. rid_ok k \<Longrightarrow> t_lookup ?t' (rid_bits k) = (if k = key then Some v else t_lookup t (rid_bits k))"
    using t_insert_wf(1) [of True "rid_bits key" t v] t_insert_lookup(1) [of True "rid_bits key" t _ v] assms(3,5,6)
    by (simp_all add: length_rid_bits rid_bits_inj)
  show ?thesis
  proof (cases "t_lookup t (rid_bits key) = Some v")
    case True
    then have "?t' = t"
      by (simp add: t_insert_same)
    then show ?thesis
      using True verified_for_root [OF assms(3-5,7)] assms(3,4) t'(2) by (auto simp: tree_insert_def)
  next
    case False
    then show ?thesis
      using tree_insert_changes [OF assms] t' by fastforce
  qed
qed

text \<open>
  C15: insertion.  Let a proof verify against the latest root of a tree.  Then inserting a value for
  the proof's record with the resulting verified proof does not panic and does not fail.  The hash
  it returns becomes the latest root and is the root hash of a well-formed tree that holds the new
  value for that record and the old contents for every other record.  Applying the returned delta
  to any store that holds the nodes of the old tree gives a store that holds the nodes of the new
  one.
\<close>

theorem tree_insert_correct:
  fixes H :: "'h::linorder NodeHasher"
  assumes "hasher_ok H" "wf_tree True 256 t" "ids_ok rg"
    and "t_node H rg True [] t = Some (rp_root_hash p, n)"
    and "proof_ok p" "no_collision H (t_builders H rg True [] t) (p_builders p)"
    and "ov_latest_root (tr_overlay tree) = rp_root_hash p"
    and "latest_proof H tree p = Some (Inr vp)" and "length v < 256 ^ 8"
  shows "\<exists>tree' h d t' n'. tree_insert H tree vp v = Some (tree', Inr (h, d)) \<and>
    ov_latest_root (tr_overlay tree') = h \<and>
    wf_tree True 256 t' \<and> t_node H rg True [] t' = Some (h, n') \<and>
    (\<forall>k. rid_ok k \<longrightarrow> t_lookup t' (rid_bits k) = (if k = rp_key p then Some v else t_lookup t (rid_bits k))) \<and>
    (\<forall>st. holds_tree H rg st t \<longrightarrow> holds_tree H rg (apply_delta d st) t')"
proof -
  have "rid_ok (rp_key p)"
    using assms(5) by (simp add: proof_ok_def)
  then show ?thesis
    using tree_insert_ok [OF assms(1,3,2) assms(4) [folded assms(7)] _ assms(9) latest_proof_verified_for [OF assms(1-8)]] by simp
qed

lemma example_latest_proof:
  "\<exists>vp. latest_proof example_hasher (with_existing_root example_root 3) example_proof = Some (Inr vp)"
proof -
  obtain lh where v: "verify_proof example_hasher example_proof = Some (Inr lh)"
    using example_proof_ok(3) by blast
  have root: "rp_root_hash example_proof = example_root"
    by (simp add: example_proof_def t_proof_def)
  obtain n where n: "t_node example_hasher range_full True [] example_tree = Some (rp_root_hash example_proof, n)"
    using example_proof_ok(4) by blast
  have len: "length (rid_bits (rp_key example_proof)) = 256"
    using example_proof_ok(1) by (simp add: proof_ok_def length_rid_bits)
  have "t_walk example_hasher range_full True [] example_tree (rid_bits (rp_key example_proof)) =
      (rp_path example_proof, rp_leaf example_proof)"
    using verify_proof_walk [OF example_hasher_ok example_tree_ok(1) _ _ n example_proof_ok(1,2) v] example_tree_ok(2)
    by (auto simp: ids_ok_def)
  then show ?thesis
    using already_latest_steps [OF len n, of "rid_bits (rp_key example_proof)"] example_tree_ok(1) len v root
    by (simp add: latest_proof_def verify_def new_make_latest_def new_already_latest_def with_existing_root_def
        overlay_new_def panic_simps)
qed

theorem tree_insert_correct_witness:
  "\<exists>vp tree' h d t' n'. latest_proof example_hasher (with_existing_root example_root 3) example_proof = Some (Inr vp) \<and>
    tree_insert example_hasher (with_existing_root example_root 3) vp [9] = Some (tree', Inr (h, d)) \<and>
    t_node example_hasher range_full True [] t' = Some (h, n') \<and> t_lookup t' (rid_bits record_id_min) = Some [9]"
proof -
  obtain vp where vp: "latest_proof example_hasher (with_existing_root example_root 3) example_proof = Some (Inr vp)"
    using example_latest_proof by blast
  obtain n where n: "t_node example_hasher range_full True [] example_tree = Some (rp_root_hash example_proof, n)"
    using example_proof_ok(4) by blast
  have "ov_latest_root (tr_overlay (with_existing_root example_root 3)) = rp_root_hash example_proof"
    by (simp add: with_existing_root_def overlay_new_def example_proof_def t_proof_def)
  moreover have "rp_key example_proof = record_id_min" "rid_ok record_id_min"
    by (simp_all add: example_proof_def t_proof_def)
  ultimately show ?thesis
    using tree_insert_correct [OF example_hasher_ok example_tree_ok(1,2) n example_proof_ok(1,2) _ vp, of "[9]"] vp
    by fastforce
qed

end
