(* ===== verification/MerkleSplit.thy ===== *)
theory MerkleSplit
  imports MerkleInsert
begin

text \<open>
  Splitting a tree's range at a record (\<open>range_split\<close> of \<open>src/hsm_core/src/merkle/split.rs\<close>): the
  record becomes the first one of the right half.
\<close>

section \<open>The operation\<close>

record 'h SplitRoot =
  sr_root_hash :: 'h
  sr_range :: OwnedRange

record 'h SplitResult =
  split_left :: "'h SplitRoot"
  split_right :: "'h SplitRoot"
  split_delta :: "'h StoreDelta"

datatype SplitLocation = PathIndex nat | SideOfRoot Dir

fun rposition :: "('a \<Rightarrow> bool) \<Rightarrow> 'a list \<Rightarrow> nat option" where
  "rposition p [] = None"
| "rposition p (x # xs) = (case rposition p xs of Some i \<Rightarrow> Some (Suc i) | None \<Rightarrow> if p x then Some 0 else None)"

definition split_location :: "KeyVec \<Rightarrow> 'h PathStep list \<Rightarrow> SplitLocation option" where
  "split_location key path = do {
     rust_assert (path \<noteq> []);
     let last_step = last path;
     gt_left \<leftarrow> (case in_left (ps_node last_step) of
         None \<Rightarrow> Some True
       | Some b \<Rightarrow> do { p \<leftarrow> kv_concat (ps_prefix last_step) (br_prefix b); Some (key > p) });
     lte_right \<leftarrow> (case in_right (ps_node last_step) of
         None \<Rightarrow> Some True
       | Some b \<Rightarrow> do { p \<leftarrow> kv_concat (ps_prefix last_step) (br_prefix b); Some (key \<le> p) });
     if gt_left \<and> lte_right then Some (PathIndex (length path - 1))
     else
       let dir = (if \<not> gt_left then Left else Right)
       in case rposition (\<lambda>step. ps_next_dir step = opposite dir) path of
            Some idx \<Rightarrow> Some (PathIndex idx)
          | None \<Rightarrow> Some (SideOfRoot dir)
   }"

text \<open>The loop that walks up from the split node; the steps above it are given bottom up.\<close>

fun split_up ::
  "'h::linorder NodeHasher \<Rightarrow> OwnedRange \<Rightarrow> OwnedRange \<Rightarrow> 'h PathStep list \<Rightarrow> 'h Branch \<Rightarrow> 'h Branch \<Rightarrow> 'h DeltaBuilder \<Rightarrow>
   ('h Branch \<times> 'h Branch \<times> 'h DeltaBuilder) option" where
  "split_up H left_range right_range [] l r delta = Some (l, r, delta)"
| "split_up H left_range right_range (step # up) l r delta = do {
     parent_b \<leftarrow> branch (ps_node step) (ps_next_dir step);
     let (gets_new_node, new_node_range, extends_prefix) = (case ps_next_dir step of
         Left \<Rightarrow> (r, right_range, l)
       | Right \<Rightarrow> (l, left_range, r));
     new_prefix \<leftarrow> kv_concat (br_prefix parent_b) (br_prefix gets_new_node);
     (new_hash, new_node) \<leftarrow> with_new_child H (ps_node step) new_node_range (up = []) (ps_next_dir step)
       \<lparr>br_prefix = new_prefix, br_hash = br_hash gets_new_node\<rparr>;
     let new_node_res = \<lparr>br_prefix = [], br_hash = new_hash\<rparr>;
     let delta1 = db_add (NodeKey (ps_prefix step) new_hash) (Interior new_node) delta;
     ext_prefix \<leftarrow> kv_concat (br_prefix parent_b) (br_prefix extends_prefix);
     let ext_prefix_res = \<lparr>br_prefix = ext_prefix, br_hash = br_hash extends_prefix\<rparr>;
     let (l', r') = (case ps_next_dir step of
         Left \<Rightarrow> (ext_prefix_res, new_node_res)
       | Right \<Rightarrow> (new_node_res, ext_prefix_res));
     split_up H left_range right_range up l' r' (db_remove (NodeKey (ps_prefix step) (ps_hash step)) delta1)
   }"

definition split_half_root ::
  "'h::linorder NodeHasher \<Rightarrow> OwnedRange \<Rightarrow> 'h Branch \<Rightarrow> 'h DeltaBuilder \<Rightarrow> ('h \<times> 'h DeltaBuilder) option" where
  "split_half_root H rg b delta =
     (if br_prefix b \<noteq> [] then do {
        (h, n) \<leftarrow> construct H rg True None (Some b);
        Some (h, db_add (NodeKey [] h) (Interior n) delta)
      }
      else Some (br_hash b, delta))"

definition split_roots ::
  "'h::linorder PathStep \<Rightarrow> OwnedRange \<Rightarrow> 'h \<times> 'h InteriorNode \<Rightarrow> OwnedRange \<Rightarrow> 'h \<times> 'h InteriorNode \<Rightarrow> 'h SplitResult" where
  "split_roots root left_range l right_range r =
     \<lparr>split_left = \<lparr>sr_root_hash = fst l, sr_range = left_range\<rparr>,
      split_right = \<lparr>sr_root_hash = fst r, sr_range = right_range\<rparr>,
      split_delta = db_build (db_remove (NodeKey [] (ps_hash root))
        (db_add (NodeKey [] (fst r)) (Interior (snd r)) (db_add (NodeKey [] (fst l)) (Interior (snd l)) db_new)))\<rparr>"

definition split_verified ::
  "'h::linorder NodeHasher \<Rightarrow> 'h VerifiedProof \<Rightarrow> 'h SplitResult option" where
  "split_verified H vp = do {
     let key = rid_bits (vp_key vp);
     loc \<leftarrow> split_location key (vp_path vp);
     left_end \<leftarrow> record_id_prev (vp_key vp);
     let left_range = \<lparr>rg_start = rg_start (vp_range vp), rg_end = left_end\<rparr>;
     let right_range = \<lparr>rg_start = vp_key vp, rg_end = rg_end (vp_range vp)\<rparr>;
     root \<leftarrow> index_get (vp_path vp) 0;
     case loc of
       SideOfRoot Left \<Rightarrow> do {
         l \<leftarrow> new_with_hash H left_range True None None;
         r \<leftarrow> root_with_new_partition H (ps_node root) right_range;
         Some (split_roots root left_range l right_range r)
       }
     | SideOfRoot Right \<Rightarrow> do {
         l \<leftarrow> root_with_new_partition H (ps_node root) left_range;
         r \<leftarrow> new_with_hash H right_range True None None;
         Some (split_roots root left_range l right_range r)
       }
     | PathIndex split_idx \<Rightarrow>
         if split_idx = 0 then do {
           l \<leftarrow> new_with_hash H left_range True (in_left (ps_node root)) None;
           r \<leftarrow> new_with_hash H right_range True None (in_right (ps_node root));
           Some (split_roots root left_range l right_range r)
         }
         else do {
           split_step \<leftarrow> index_get (vp_path vp) split_idx;
           l0 \<leftarrow> in_left (ps_node split_step);
           r0 \<leftarrow> in_right (ps_node split_step);
           let delta0 = db_remove (NodeKey (ps_prefix split_step) (ps_hash split_step)) db_new;
           (l, r, delta1) \<leftarrow> split_up H left_range right_range (rev (take split_idx (vp_path vp))) l0 r0 delta0;
           (left_root, delta2) \<leftarrow> split_half_root H left_range l delta1;
           (right_root, delta3) \<leftarrow> split_half_root H right_range r delta2;
           Some \<lparr>split_left = \<lparr>sr_root_hash = left_root, sr_range = left_range\<rparr>,
             split_right = \<lparr>sr_root_hash = right_root, sr_range = right_range\<rparr>,
             split_delta = db_build delta3\<rparr>
         }
   }"

definition range_split ::
  "'h::linorder NodeHasher \<Rightarrow> 'h Tree \<Rightarrow> 'h ReadProof \<Rightarrow> (ProofError + 'h SplitResult) option" where
  "range_split H t proof = do {
     rust_assert (rp_key proof > record_id_min);
     r \<leftarrow> verify H proof (tr_overlay t);
     case r of
       Inl e \<Rightarrow> Some (Inl e)
     | Inr vp \<Rightarrow> map_option Inr (split_verified H vp)
   }"

end
