(* ===== verification/MerkleSplitTree.thy ===== *)
theory MerkleSplitTree
  imports MerkleSplit
begin

text \<open>
  What \<open>range_split\<close> computes, in terms of the abstract trees of \<open>MerkleTree\<close>: the
  specification \<open>t_split\<close> separates the records below a key from the others, and the incremental
  computation of \<open>MerkleSplit\<close> gives the root hashes of the two trees and a delta that turns a
  store of the old tree into a store of both.
\<close>

section \<open>Splitting the abstract tree\<close>

fun extend_branch :: "KeyVec \<Rightarrow> mbranch \<Rightarrow> mbranch" where
  "extend_branch p MNone = MNone"
| "extend_branch p (MBranch q t) = MBranch (p @ q) t"

definition join_node :: "mbranch \<Rightarrow> mbranch \<Rightarrow> mbranch" where
  "join_node l r = (if l = MNone then r else if r = MNone then l else MBranch [] (MNode l r))"

fun t_split :: "mtree \<Rightarrow> KeyVec \<Rightarrow> mbranch \<times> mbranch"
  and b_split :: "mbranch \<Rightarrow> KeyVec \<Rightarrow> mbranch \<times> mbranch" where
  "t_split (MLeaf v) k = (MNone, MBranch [] (MLeaf v))"
| "t_split (MNode l r) k =
     (case k of
        [] \<Rightarrow> (MNone, MNone)
      | x # _ \<Rightarrow> if x then apfst (join_node l) (b_split r k) else apsnd (\<lambda>b. join_node b r) (b_split l k))"
| "b_split MNone k = (MNone, MNone)"
| "b_split (MBranch p t) k =
     (if prefix p k then map_prod (extend_branch p) (extend_branch p) (t_split t (drop (length p) k))
      else if p < k then (MBranch p t, MNone)
      else (MNone, MBranch p t))"

definition root_of :: "mbranch \<Rightarrow> mtree" where
  "root_of b =
     (case b of
        MNone \<Rightarrow> MNode MNone MNone
      | MBranch [] t \<Rightarrow> t
      | MBranch (x # _) _ \<Rightarrow> if x then MNode MNone b else MNode b MNone)"

definition wf_half :: "nat \<Rightarrow> mbranch \<Rightarrow> bool" where
  "wf_half d b = (case b of MNone \<Rightarrow> True | MBranch p t \<Rightarrow> length p \<le> d \<and> wf_tree False (d - length p) t)"

lemma wf_half_simps [simp]:
  "wf_half d MNone"
  "wf_half d (MBranch p t) \<longleftrightarrow> length p \<le> d \<and> wf_tree False (d - length p) t"
  by (simp_all add: wf_half_def)

lemma wf_branch_half: "wf_branch dir d b \<Longrightarrow> wf_half d b"
  by (cases b) auto

lemma wf_extend: "wf_half (d - length p) b \<Longrightarrow> p \<noteq> [] \<Longrightarrow> length p \<le> d \<Longrightarrow> wf_branch (hd p) d (extend_branch p b)"
  by (cases b) auto

lemma extend_MNone [simp]: "extend_branch p b = MNone \<longleftrightarrow> b = MNone"
  by (cases b) auto

lemma wf_join: "wf_branch False d l \<Longrightarrow> wf_branch True d r \<Longrightarrow> 0 < d \<Longrightarrow> wf_half d (join_node l r)"
  by (auto simp: join_node_def wf_branch_half)

lemma t_split_Cons:
  "k = x # ks \<Longrightarrow> t_split (MNode l r) k =
     (if x then apfst (join_node l) (b_split r k) else apsnd (\<lambda>b. join_node b r) (b_split l k))"
  by simp

lemma wf_root_of: "wf_half d b \<Longrightarrow> 0 < d \<Longrightarrow> wf_tree True d (root_of b)"
proof (cases b)
  case (MBranch p t)
  moreover assume "wf_half d b" "0 < d"
  ultimately show ?thesis
    by (cases p; cases t) (auto simp: root_of_def)
qed (simp add: root_of_def)

lemma root_of_join:
  assumes "wf_branch False d l" "wf_branch True d r"
  shows "root_of (join_node l r) = MNode l r"
  using assms by (cases l; cases r) (auto simp: root_of_def join_node_def split: list.splits)

lemma t_split_wf:
  "wf_tree root (length k) t \<Longrightarrow> wf_half (length k) (fst (t_split t k)) \<and> wf_half (length k) (snd (t_split t k))"
  "wf_branch dir (length k) b \<Longrightarrow> wf_branch dir (length k) (fst (b_split b k)) \<and> wf_branch dir (length k) (snd (b_split b k))"
proof (induction t and b arbitrary: root k and dir k)
  case (MNode l r)
  then show ?case
    using MNode.IH(1) [of False k] MNode.IH(2) [of True k]
    by (cases k) (auto intro: wf_join wf_branch_half)
next
  case (MBranch p t)
  then show ?case
    using MBranch.IH [of False "drop (length p) k"] wf_extend [of "length k" p] by auto
qed auto

lemma b_lookup_extend: "b_lookup (extend_branch p b) k = (if prefix p k then b_lookup b (drop (length p) k) else None)"
  by (cases b) (auto simp: prefix_def drop_append add.commute dest: append_prefixD)

lemma b_lookup_dir: "wf_branch dir d b \<Longrightarrow> hd k \<noteq> dir \<Longrightarrow> b_lookup b k = None"
  by (cases b; cases k) (auto simp: prefix_Cons split: if_splits)

lemma b_lookup_join:
  assumes "wf_branch False d l" "wf_branch True d r"
  shows "b_lookup (join_node l r) (x # ks) = (if x then b_lookup r (x # ks) else b_lookup l (x # ks))"
  using b_lookup_dir [OF assms(1), of "x # ks"] b_lookup_dir [OF assms(2), of "x # ks"]
  by (auto simp: join_node_def)

lemma prefix_less_iff:
  "\<not> prefix p k \<Longrightarrow> length p \<le> length k \<Longrightarrow> p @ (a :: bool list) < k \<longleftrightarrow> p < k"
proof (induction p arbitrary: k)
  case (Cons x p)
  then show ?case
    by (cases k) auto
qed simp

lemma t_split_lookup:
  "wf_tree root (length k) t \<Longrightarrow> length k' = length k \<Longrightarrow>
     b_lookup (fst (t_split t k)) k' = (if k' < k then t_lookup t k' else None) \<and>
     b_lookup (snd (t_split t k)) k' = (if k' < k then None else t_lookup t k')"
  "wf_branch dir (length k) b \<Longrightarrow> length k' = length k \<Longrightarrow>
     b_lookup (fst (b_split b k)) k' = (if k' < k then b_lookup b k' else None) \<and>
     b_lookup (snd (b_split b k)) k' = (if k' < k then None else b_lookup b k')"
proof (induction t and b arbitrary: root k k' and dir k k')
  case (MNode l r)
  then obtain x ks y ks' where k: "k = x # ks" "k' = y # ks'"
    by (cases k; cases k') auto
  have wf: "wf_branch False (length k) l" "wf_branch True (length k) r"
    using MNode.prems by auto
  note split = t_split_wf(2) [OF wf(1)] t_split_wf(2) [OF wf(2)]
  show ?case
    using MNode.IH(1) [OF wf(1) MNode.prems(2)] MNode.IH(2) [OF wf(2) MNode.prems(2)] split wf
      b_lookup_dir [OF wf(1), of k'] b_lookup_dir [OF wf(2), of k']
    by (cases x; cases y) (auto simp: k b_lookup_join)
next
  case (MBranch p t)
  show ?case
  proof (cases "prefix p k")
    case True
    then obtain ks where ks: "k = p @ ks"
      by (auto simp: prefix_def)
    then show ?thesis
      using MBranch.IH [of False ks] MBranch.prems True
      by (auto simp: b_lookup_extend prefix_def append_less_cases)
  next
    case False
    then show ?thesis
      using MBranch.prems prefix_less_iff [OF False] by (auto simp: prefix_def)
  qed
qed auto

lemma b_lookup_root_of: "k \<noteq> [] \<Longrightarrow> t_lookup (root_of b) k = b_lookup b k"
  by (cases b; cases k) (auto simp: root_of_def prefix_Cons split: list.splits)

section \<open>Only the root depends on the range\<close>

lemma new_with_hash_nonroot: "new_with_hash H rg False l r = new_with_hash H rg' False l r"
  by (simp add: new_with_hash_def calc_hash_def)

lemma nonroot_hash:
  "t_node H rg False pre t = t_node H rg' False pre t"
  "t_branch H rg pre b = t_branch H rg' pre b"
proof (induction t and b arbitrary: pre and pre)
  case (MNode l r)
  then show ?case
    by (simp add: MNode.IH [of pre] new_with_hash_nonroot [of H rg _ _ rg'] cong: Option.bind_cong)
next
  case (MBranch p t)
  then show ?case
    by (simp add: MBranch.IH [of "pre @ p"])
qed simp_all

lemma nonroot_nodes:
  "t_nodes H rg False pre t = t_nodes H rg' False pre t"
  "b_nodes H rg pre b = b_nodes H rg' pre b"
proof (induction t and b arbitrary: pre and pre)
  case (MNode l r)
  then show ?case
    using nonroot_hash(1) [of H rg pre "MNode l r" rg'] by (simp del: t_node.simps)
qed (use nonroot_hash(1) [of H rg _ _ rg'] in \<open>simp_all del: t_node.simps\<close>)

section \<open>Where the tree is split\<close>

lemma split_location_Cons:
  assumes "rest \<noteq> []"
  shows "split_location key (s # rest) =
    (case split_location key rest of
       None \<Rightarrow> None
     | Some (PathIndex i) \<Rightarrow> Some (PathIndex (Suc i))
     | Some (SideOfRoot d) \<Rightarrow> Some (if ps_next_dir s = opposite d then PathIndex 0 else SideOfRoot d))"
proof -
  have "Suc (length rest - Suc 0) = length rest"
    using assms by (cases rest) auto
  then show ?thesis
    using assms by (auto simp: split_location_def Let_def panic_simps split: option.splits if_splits)
qed

text \<open>The climb with the root recognised by its prefix, so that it can be taken apart.\<close>

fun split_climb ::
  "'h::linorder NodeHasher \<Rightarrow> OwnedRange \<Rightarrow> OwnedRange \<Rightarrow> 'h PathStep list \<Rightarrow> 'h Branch \<Rightarrow> 'h Branch \<Rightarrow> 'h DeltaBuilder \<Rightarrow>
   ('h Branch \<times> 'h Branch \<times> 'h DeltaBuilder) option" where
  "split_climb H left_range right_range [] l r delta = Some (l, r, delta)"
| "split_climb H left_range right_range (step # up) l r delta = do {
     parent_b \<leftarrow> branch (ps_node step) (ps_next_dir step);
     let (gets_new_node, new_node_range, extends_prefix) = (case ps_next_dir step of
         Left \<Rightarrow> (r, right_range, l)
       | Right \<Rightarrow> (l, left_range, r));
     new_prefix \<leftarrow> kv_concat (br_prefix parent_b) (br_prefix gets_new_node);
     (new_hash, new_node) \<leftarrow> with_new_child H (ps_node step) new_node_range (ps_prefix step = []) (ps_next_dir step)
       \<lparr>br_prefix = new_prefix, br_hash = br_hash gets_new_node\<rparr>;
     let new_node_res = \<lparr>br_prefix = [], br_hash = new_hash\<rparr>;
     let delta1 = db_add (NodeKey (ps_prefix step) new_hash) (Interior new_node) delta;
     ext_prefix \<leftarrow> kv_concat (br_prefix parent_b) (br_prefix extends_prefix);
     let ext_prefix_res = \<lparr>br_prefix = ext_prefix, br_hash = br_hash extends_prefix\<rparr>;
     let (l', r') = (case ps_next_dir step of
         Left \<Rightarrow> (ext_prefix_res, new_node_res)
       | Right \<Rightarrow> (new_node_res, ext_prefix_res));
     split_climb H left_range right_range up l' r' (db_remove (NodeKey (ps_prefix step) (ps_hash step)) delta1)
   }"

lemma split_up_climb:
  assumes "ps_prefix s = []"
  shows "(\<forall>x \<in> set ups. ps_prefix x \<noteq> []) \<Longrightarrow>
    split_up H lr rr (ups @ [s]) l r d = split_climb H lr rr (ups @ [s]) l r d"
  by (induction ups arbitrary: l r d) (simp_all add: assms cong: Option.bind_cong)

lemma split_climb_append:
  "split_climb H lr rr (xs @ ys) l r d =
     do { (l', r', d') \<leftarrow> split_climb H lr rr xs l r d; split_climb H lr rr ys l' r' d' }"
  by (induction xs arbitrary: l r d) (simp_all add: Let_def split_def)

lemma t_steps_prefix:
  "s \<in> set (t_steps H rg root pre t k) \<Longrightarrow> prefix pre (ps_prefix s)"
  "s \<in> set (b_steps H rg pre b k) \<Longrightarrow> \<exists>p t. b = MBranch p t \<and> prefix (pre @ p) (ps_prefix s)"
proof (induction t and b arbitrary: root pre k and pre k)
  case (MNode l r)
  then show ?case
    by (fastforce dest: append_prefixD split: option.splits list.splits prod.splits Node.splits if_splits simp del: t_node.simps)
qed (auto split: if_splits)

section \<open>One step of the climb\<close>

definition halves_ok ::
  "'h::linorder NodeHasher \<Rightarrow> OwnedRange \<Rightarrow> KeyVec \<Rightarrow> KeyVec \<Rightarrow> ('h NodeKey \<times> 'h Node) list \<Rightarrow> mbranch \<times> mbranch \<Rightarrow>
   'h Branch \<times> 'h Branch \<times> 'h DeltaBuilder \<Rightarrow> bool" where
  "halves_ok H rg spos pre old halves res = (case (halves, res) of ((ml, mr), (bl, br, d)) \<Rightarrow>
     prefix pre spos \<and> t_branch H rg pre ml = Some (Some bl) \<and> t_branch H rg pre mr = Some (Some br) \<and>
     db_inv d \<and> local_change (prefix pre) spos db_new d \<and>
     nodes_ok spos d old (b_nodes H rg pre ml) \<and> nodes_ok spos d old (b_nodes H rg pre mr))"

lemma halves_okI:
  assumes "strict_prefix pre spos" "t_branch H rg pre mn = Some (Some bn)" "t_branch H rg pre me = Some (Some be)"
    and "db_inv d" "local_change (prefix pre) spos db_new d"
    and "nodes_ok spos d old (b_nodes H rg pre mn)" "nodes_ok spos d old (b_nodes H rg pre me)"
  shows "halves_ok H rg spos pre old (if x then (mn, me) else (me, mn)) (if x then (bn, be, d) else (be, bn, d))"
  using assms by (simp add: halves_ok_def strict_prefix_def)

lemma nodes_ok_below:
  assumes "\<And>e. e \<in> set new \<Longrightarrow> \<not> prefix (nk_prefix (fst e)) spos \<and> e \<in> set old"
  shows "nodes_ok spos d old new"
  using assms by (auto simp: nodes_ok_def)

lemma nodes_ok_mono: "nodes_ok spos d old new \<Longrightarrow> set old \<subseteq> set old' \<Longrightarrow> nodes_ok spos d old' new"
  by (auto simp: nodes_ok_def split: if_splits)

lemma branch_below:
  assumes "e \<in> set (b_nodes H rg pre b)" "wf_branch dir m b"
  shows "\<not> prefix (nk_prefix (fst e)) pre"
  using on_path_node [OF assms] by (auto simp: strict_prefix_def)

lemma t_node_branches:
  assumes "t_node H rg root pre (MNode l r) = Some (h, Interior n)"
  shows "t_branch H rg pre l = Some (in_left n)" "t_branch H rg pre r = Some (in_right n)"
  using assms by (auto elim!: t_node_interior simp del: t_node.simps)

lemma split_here:
  assumes "t_node H rg root pre (MNode l r) = Some (h, Interior n)" "wf_tree root m (MNode l r)"
    and "l \<noteq> MNone" "r \<noteq> MNone"
  shows "\<exists>bl br. in_left n = Some bl \<and> in_right n = Some br \<and>
    halves_ok H rg pre pre (t_nodes H rg root pre (MNode l r)) (l, r) (bl, br, db_remove (NodeKey pre h) db_new)"
proof -
  note tb = t_node_branches [OF assms(1)]
  obtain bl br where b: "in_left n = Some bl" "in_right n = Some br"
    using tb assms(3,4) by (metis option.exhaust t_branch_None)
  have wf: "wf_branch False m l" "wf_branch True m r"
    using assms(2) by auto
  have "local_change (prefix pre) pre db_new (db_remove (NodeKey pre h) db_new)"
    by (auto simp: local_change_def db_remove_def db_new_def bt_get_def split: if_splits)
  moreover have "nodes_ok pre d (t_nodes H rg root pre (MNode l r)) (b_nodes H rg pre l)" for d
    using branch_below [OF _ wf(1), of _ H rg pre] by (intro nodes_ok_below) (auto simp del: t_node.simps)
  moreover have "nodes_ok pre d (t_nodes H rg root pre (MNode l r)) (b_nodes H rg pre r)" for d
    using branch_below [OF _ wf(2), of _ H rg pre] by (intro nodes_ok_below) (auto simp del: t_node.simps)
  ultimately show ?thesis
    using tb b by (simp add: halves_ok_def)
qed

lemma t_branch_extend:
  assumes "t_branch H rg (pre @ p) b = Some (Some c)"
  shows "t_branch H rg pre (extend_branch p b) = Some (Some \<lparr>br_prefix = p @ br_prefix c, br_hash = br_hash c\<rparr>)"
  using assms by (cases b) (auto simp: panic_simps)

lemma b_nodes_extend: "b_nodes H rg pre (extend_branch p b) = b_nodes H rg (pre @ p) b"
  by (cases b) simp_all

text \<open>
  One step up, at a node whose child \<open>t'\<close> is split properly: the half on the child's side of the
  node is extended and the other one becomes a node.
\<close>

definition split_new :: "bool \<Rightarrow> mbranch \<times> mbranch \<Rightarrow> mbranch" where
  "split_new x halves = (if x then fst halves else snd halves)"

definition split_ext :: "bool \<Rightarrow> mbranch \<times> mbranch \<Rightarrow> mbranch" where
  "split_ext x halves = (if x then snd halves else fst halves)"

lemma split_above:
  fixes H :: "'h::linorder NodeHasher"
  assumes H: "hasher_ok H" "ids_ok lr" "ids_ok rr"
    and t: "t_node H (if x then lr else rr) root pre (MNode l r) = Some (h2, Interior n)"
    and wf: "wf_tree root (length k) (MNode l r)" "k = x # ks" "length k \<le> 256" "root = (pre = [])"
    and bx: "(if x then r else l) = MBranch p t'" "prefix p k"
    and child: "halves_ok H rg spos (pre @ p) (t_nodes H rg False (pre @ p) t') (t_split t' (drop (length p) k)) (bl, br, d)"
  defines "new \<equiv> set_branch x l r (extend_branch p (split_new x (t_split t' (drop (length p) k))))"
    and "ext \<equiv> extend_branch p (split_ext x (t_split t' (drop (length p) k)))"
  shows "\<exists>h' u eb d'.
    split_climb H lr rr [\<lparr>ps_hash = h, ps_node = n, ps_prefix = pre, ps_next_dir = dir_from x\<rparr>] bl br d =
      Some (if x then (\<lparr>br_prefix = [], br_hash = h'\<rparr>, eb, d') else (eb, \<lparr>br_prefix = [], br_hash = h'\<rparr>, d')) \<and>
    d' = db_remove (NodeKey pre h) (db_add (NodeKey pre h') (Interior u) d) \<and>
    t_node H (if x then lr else rr) root pre new = Some (h', Interior u) \<and> wf_tree root (length k) new \<and>
    t_branch H rg pre ext = Some (Some eb) \<and> wf_branch x (length k) ext \<and>
    db_inv d' \<and> local_change (prefix pre) spos db_new d' \<and> strict_prefix pre spos \<and>
    nodes_ok spos d' (b_nodes H rg pre l @ b_nodes H rg pre r) (b_nodes H rg pre ext) \<and>
    nodes_ok spos d' (t_nodes H (if x then lr else rr) root pre (MNode l r))
      (t_nodes H (if x then lr else rr) root pre new)"
proof -
  define rg' where "rg' = (if x then lr else rr)"
  define halves where "halves = t_split t' (drop (length p) k)"
  define mn me bn be where "mn = split_new x halves" and "me = split_ext x halves"
    and "bn = (if x then bl else br)" and "be = (if x then br else bl)"
  have wfb: "wf_branch False (length k) l" "wf_branch True (length k) r" "wf_branch x (length k) (MBranch p t')"
    unfolding bx(1) [symmetric] using wf(1) by auto
  have wft: "p \<noteq> []" "hd p = x" "length p \<le> length k" "wf_tree False (length (drop (length p) k)) t'"
    using wfb(3) by auto
  have wfh: "wf_branch x (length k) (extend_branch p mn)" "wf_branch x (length k) (extend_branch p me)"
    using t_split_wf(1) [OF wft(4)] wf_extend [of "length k" p] wft
    by (auto simp: mn_def me_def split_new_def split_ext_def halves_def)
  have ch: "prefix (pre @ p) spos" "t_branch H rg (pre @ p) mn = Some (Some bn)" "t_branch H rg (pre @ p) me = Some (Some be)"
    "db_inv d" "local_change (prefix (pre @ p)) spos db_new d"
    "nodes_ok spos d (t_nodes H rg False (pre @ p) t') (b_nodes H rg (pre @ p) mn)"
    "nodes_ok spos d (t_nodes H rg False (pre @ p) t') (b_nodes H rg (pre @ p) me)"
    using child
    by (auto simp: halves_ok_def mn_def me_def bn_def be_def split_new_def split_ext_def halves_def [symmetric] split: prod.splits)
  note ext = t_branch_extend [OF ch(2)] t_branch_extend [OF ch(3)]
  obtain qs where qs: "spos = pre @ x # qs"
    using ch(1) wft(1,2) by (cases p) (auto simp: prefix_def)
  have new: "new = set_branch x l r (extend_branch p mn)"
    by (simp add: new_def mn_def halves_def)
  have "extend_branch p mn \<noteq> MNone"
    using ch(2) by auto
  then have wfn: "wf_tree root (length k) new"
    using wf(1) wfh(1) by (auto simp: new set_branch_def)
  have "ids_ok rg'"
    using H by (simp add: rg'_def)
  then obtain h' n' where hn: "t_node H rg' root pre new = Some (h', n')"
    using t_node_total(1) [OF H(1) _ wfn wf(3)] by blast
  have "local_change (strict_prefix pre) spos db_new d"
    using ch(5) wft(1) by (auto elim!: local_change_mono simp: strict_prefix_def prefix_def)
  moreover have "b_nodes H rg' pre (if x then r else l) = t_nodes H rg False (pre @ p) t'"
    by (simp add: bx(1) nonroot_nodes(1) [of H rg' _ _ rg])
  then have "nodes_ok spos d (b_nodes H rg' pre (if x then r else l)) (b_nodes H rg' pre (extend_branch p mn))"
    using ch(6) by (simp add: b_nodes_extend nonroot_nodes(2) [of H rg' _ _ rg])
  moreover have "t_branch H rg' pre (extend_branch p mn) = Some (Some \<lparr>br_prefix = p @ br_prefix bn, br_hash = br_hash bn\<rparr>)"
    using ext(1) nonroot_hash(2) [of H rg pre] by metis
  ultimately obtain u where u: "with_new_child H n rg' root (dir_from x) \<lparr>br_prefix = p @ br_prefix bn, br_hash = br_hash bn\<rparr> = Some (h', u)"
    "n' = Interior u" and d': "db_inv (db_remove (NodeKey pre h) (db_add (NodeKey pre h') (Interior u) d))"
    "local_change (prefix pre) spos db_new (db_remove (NodeKey pre h) (db_add (NodeKey pre h') (Interior u) d))"
    "nodes_ok spos (db_remove (NodeKey pre h) (db_add (NodeKey pre h') (Interior u) d))
       (t_nodes H rg' root pre (MNode l r)) (t_nodes H rg' root pre new)"
    using update_step [OF t [folded rg'_def] wfb(1,2) wfh(1) _ hn [unfolded new] ch(4), of _ qs db_new h]
    unfolding qs new Let_def by blast
  let ?d' = "db_remove (NodeKey pre h) (db_add (NodeKey pre h') (Interior u) d)"
  have "nodes_ok spos ?d' (b_nodes H rg pre l @ b_nodes H rg pre r) (b_nodes H rg pre (extend_branch p me))"
    unfolding nodes_ok_def
  proof
    fix e
    assume e: "e \<in> set (b_nodes H rg pre (extend_branch p me))"
    have "set (t_nodes H rg False (pre @ p) t') \<subseteq> set (b_nodes H rg pre l @ b_nodes H rg pre r)"
      using bx(1) by (auto split: if_splits)
    moreover have "nk_prefix (fst e) \<noteq> pre"
      using on_path_node [OF e wfh(2)] by (auto simp: strict_prefix_def)
    ultimately show "if prefix (nk_prefix (fst e)) spos then bt_get (to_add ?d') (fst e) = Some (snd e)
        else e \<in> set (b_nodes H rg pre l @ b_nodes H rg pre r)"
      using ch(7) e unfolding nodes_ok_def b_nodes_extend
      by (auto simp: db_update_get [OF ch(4)] split: if_splits)
  qed
  moreover have "kv_concat p (br_prefix bn) = Some (p @ br_prefix bn)" "kv_concat p (br_prefix be) = Some (p @ br_prefix be)"
    using wfh ext wf(3) by (cases mn; cases me; auto simp: kv_concat_def panic_simps)+
  moreover obtain h1 where "branch n (dir_from x) = Some \<lparr>br_prefix = p, br_hash = h1\<rparr>"
    using t_node_branches [OF t] bx(1) t_branch_MBranchD [of H _ pre p t']
    by (metis branch_def dir_from_def Dir.simps(3,4))
  moreover have "strict_prefix pre spos"
    by (simp add: qs strict_prefix_def)
  ultimately show ?thesis
    using u d' hn wfn ext(2) wfh(2) wf(4)
    unfolding ext_def rg'_def [symmetric] me_def [symmetric] halves_def [symmetric]
    by (cases x) (auto simp: bn_def be_def dir_from_def rg'_def Let_def)
qed

section \<open>The path below the root\<close>

definition split_claim ::
  "'h::linorder NodeHasher \<Rightarrow> OwnedRange \<Rightarrow> OwnedRange \<Rightarrow> OwnedRange \<Rightarrow> KeyVec \<Rightarrow> KeyVec \<Rightarrow> mtree \<Rightarrow> KeyVec \<Rightarrow>
   'h PathStep list \<Rightarrow> bool" where
  "split_claim H lr rr rg full pre t k steps \<longleftrightarrow>
     (\<exists>loc. split_location full steps = Some loc \<and>
       (case loc of
          SideOfRoot Left \<Rightarrow> t_split t k = (MNone, MBranch [] t)
        | SideOfRoot Right \<Rightarrow> t_split t k = (MBranch [] t, MNone)
        | PathIndex i \<Rightarrow> i < length steps \<and>
            (\<exists>l0 r0 bl br d. in_left (ps_node (steps ! i)) = Some l0 \<and> in_right (ps_node (steps ! i)) = Some r0 \<and>
               split_climb H lr rr (rev (take i steps)) l0 r0
                 (db_remove (NodeKey (ps_prefix (steps ! i)) (ps_hash (steps ! i))) db_new) = Some (bl, br, d) \<and>
               halves_ok H rg (ps_prefix (steps ! i)) pre (t_nodes H rg False pre t) (t_split t k) (bl, br, d))))"

text \<open>Where the split is, given that it leaves the child on the path whole.\<close>

definition sided :: "mbranch \<Rightarrow> KeyVec \<Rightarrow> SplitLocation option \<Rightarrow> bool" where
  "sided bx k loc \<longleftrightarrow>
     b_split bx k = (MNone, bx) \<and> loc = Some (if hd k \<or> bx = MNone then PathIndex 0 else SideOfRoot Left) \<or>
     b_split bx k = (bx, MNone) \<and> loc = Some (if hd k \<and> bx \<noteq> MNone then SideOfRoot Right else PathIndex 0)"

lemma append_prefix_less: "pre @ a < pre @ b \<longleftrightarrow> a < (b :: bool list)"
  by (simp add: append_less_cases)

lemma append_prefix_le: "pre @ a \<le> pre @ b \<longleftrightarrow> a \<le> (b :: bool list)"
  by (metis append_prefix_less linorder_not_less)

lemma split_last_sides:
  assumes "t_branch H rg pre b = Some c" "wf_branch dir (length k) b" "length (pre @ k) = 256"
  shows "(case c of None \<Rightarrow> Some True | Some b \<Rightarrow> do { p \<leftarrow> kv_concat pre (br_prefix b); Some (pre @ k > p) }) =
      Some (case b of MNone \<Rightarrow> True | MBranch p _ \<Rightarrow> p < k)"
    and "(case c of None \<Rightarrow> Some True | Some b \<Rightarrow> do { p \<leftarrow> kv_concat pre (br_prefix b); Some (pre @ k \<le> p) }) =
      Some (case b of MNone \<Rightarrow> True | MBranch p _ \<Rightarrow> k \<le> p)"
  using assms by (cases b; auto simp: panic_simps kv_concat_def append_prefix_less append_prefix_le)+

lemma split_last:
  assumes t: "t_node H rg root pre (MNode l r) = Some (h, Interior n)" "wf_tree root (length k) (MNode l r)"
    and k: "length (pre @ k) = 256" "k = x # ks"
    and bx: "bx = (if x then r else l)" "\<And>p t'. bx = MBranch p t' \<Longrightarrow> \<not> prefix p k \<or> (\<exists>v. t' = MLeaf v)"
  shows "sided bx k (split_location (pre @ k) [\<lparr>ps_hash = h, ps_node = n, ps_prefix = pre, ps_next_dir = dir_from x\<rparr>])"
proof -
  have wf: "wf_branch False (length k) l" "wf_branch True (length k) r"
    using t(2) by auto
  note tb = t_node_branches [OF t(1)]
  have off: "x \<Longrightarrow> l = MBranch p t' \<Longrightarrow> p < k" "\<not> x \<Longrightarrow> r = MBranch p t' \<Longrightarrow> k \<le> p" for p t'
    using wf k(2) by (cases p; auto)+
  define s where "s = \<lparr>ps_hash = h, ps_node = n, ps_prefix = pre, ps_next_dir = dir_from x\<rparr>"
  have s: "last [s] = s" "ps_prefix s = pre" "ps_node s = n" "ps_next_dir s = dir_from x"
    by (simp_all add: s_def)
  have loc: "split_location (pre @ k) [s] =
      (let gt_left = (case l of MNone \<Rightarrow> True | MBranch p _ \<Rightarrow> p < k); lte_right = (case r of MNone \<Rightarrow> True | MBranch p _ \<Rightarrow> k \<le> p)
       in Some (if gt_left \<and> lte_right then PathIndex 0
          else if \<not> gt_left then (if x then PathIndex 0 else SideOfRoot Left)
          else (if x then SideOfRoot Right else PathIndex 0)))"
    unfolding split_location_def Let_def s
      split_last_sides(1) [OF tb(1) wf(1) k(1)] split_last_sides(2) [OF tb(2) wf(2) k(1)]
    by (simp add: s(4) dir_from_def opposite_def)
  show ?thesis
  proof (cases bx)
    case MNone
    then show ?thesis
      unfolding s_def [symmetric] loc using bx(1) off k(2) by (cases x) (auto simp: sided_def Let_def split: mbranch.splits)
  next
    case (MBranch p t')
    have wfx: "wf_branch x (length k) (MBranch p t')"
      using wf bx(1) MBranch by (cases x) auto
    have split: "b_split bx k = (if p < k then (bx, MNone) else (MNone, bx))"
    proof (cases "prefix p k")
      case True
      then obtain v where "t' = MLeaf v"
        using bx(2) MBranch by blast
      moreover from this have "p = k"
        using wfx True by (auto simp: prefix_def)
      ultimately show ?thesis
        by (simp add: MBranch)
    qed (simp add: MBranch)
    show ?thesis
      unfolding s_def [symmetric] loc using split bx(1) off k(2) MBranch
      by (cases x) (auto simp: sided_def Let_def split: mbranch.splits)
  qed
qed

lemma sided_claim:
  assumes t: "t_node H rg False pre (MNode l r) = Some (h, Interior n)" "wf_tree False (length k) (MNode l r)"
    and k: "k = x # ks" and steps: "steps = \<lparr>ps_hash = h, ps_node = n, ps_prefix = pre, ps_next_dir = dir_from x\<rparr> # rest"
    and "sided (if x then r else l) k (split_location full steps)"
  shows "split_claim H lr rr rg full pre (MNode l r) k steps"
proof -
  have ne: "l \<noteq> MNone" "r \<noteq> MNone"
    using t(2) by auto
  then have "t_split (MNode l r) k = (MNone, MBranch [] (MNode l r)) \<and> split_location full steps = Some (SideOfRoot Left) \<or>
      t_split (MNode l r) k = (MBranch [] (MNode l r), MNone) \<and> split_location full steps = Some (SideOfRoot Right) \<or>
      t_split (MNode l r) k = (l, r) \<and> split_location full steps = Some (PathIndex 0)"
    using assms(5) k by (cases x) (auto simp: sided_def join_node_def)
  then show ?thesis
    using split_here [OF t ne] by (auto simp: split_claim_def steps)
qed

lemma split_steps_ok:
  fixes H :: "'h::linorder NodeHasher"
  assumes H: "hasher_ok H" "ids_ok lr" "ids_ok rr"
  shows "t_node H rg False pre (MNode l r) = Some (h, Interior n) \<Longrightarrow> wf_tree False (length k) (MNode l r) \<Longrightarrow>
    length (pre @ k) = 256 \<Longrightarrow> pre \<noteq> [] \<Longrightarrow>
    split_claim H lr rr rg (pre @ k) pre (MNode l r) k (t_steps H rg False pre (MNode l r) k)"
proof (induction "length k" arbitrary: k pre l r h n rule: less_induct)
  case less
  note t = less.prems(1,2) and len = less.prems(3)
  obtain x ks where k: "k = x # ks"
    using t(2) by (cases k) auto
  define bx where "bx = (if x then r else l)"
  define s where "s = \<lparr>ps_hash = h, ps_node = n, ps_prefix = pre, ps_next_dir = dir_from x\<rparr>"
  have steps: "t_steps H rg False pre (MNode l r) k = s # b_steps H rg pre bx k"
    using t_steps_MNode [OF t(1), of x ks] by (simp add: k bx_def s_def)
  have bx: "t_branch H rg pre bx = Some (branch n (dir_from x))" "wf_branch x (length k) bx" "bx \<noteq> MNone"
    using t t_node_branches [OF t(1)] by (auto simp: bx_def branch_def dir_from_def)
  note claim = sided_claim [OF t k, of _ "b_steps H rg pre bx k" "pre @ k" lr rr, folded s_def bx_def]
  show ?case
  proof (cases "\<exists>p l' r'. bx = MBranch p (MNode l' r') \<and> prefix p k")
    case False
    then have no: "\<not> prefix p k \<or> (\<exists>v. t' = MLeaf v)" if "bx = MBranch p t'" for p t'
      using that by (cases t') auto
    then have "b_steps H rg pre bx k = []"
      by (cases bx) force+
    then show ?thesis
      unfolding steps using claim [OF refl] split_last [OF t len k bx_def no] by (simp add: s_def)
  next
    case True
    then obtain p l' r' where p: "bx = MBranch p (MNode l' r')" "prefix p k"
      by blast
    let ?k = "drop (length p) k" and ?t' = "MNode l' r'"
    have wf': "p \<noteq> []" "wf_tree False (length ?k) ?t'"
      using bx(2) by (auto simp: p(1))
    have kk: "k = p @ ?k"
      using p(2) by (auto simp: prefix_def)
    then have full: "pre @ k = (pre @ p) @ ?k" "length ?k < length k"
      using wf'(1) by (simp, simp add: k)
    obtain h1 n1 where n1: "t_node H rg False (pre @ p) ?t' = Some (h1, n1)"
      using t_branch_MBranchD bx(1) unfolding p(1) by blast
    then obtain i1 where i1: "n1 = Interior i1"
      by (auto elim: t_node_interior simp del: t_node.simps)
    let ?rest = "t_steps H rg False (pre @ p) ?t' ?k"
    have rest: "b_steps H rg pre bx k = ?rest"
      using p by (simp del: t_steps.simps)
    have "?rest \<noteq> []"
      using t_steps_last_branch [OF n1 [unfolded i1] wf'(2)] by blast
    note loc = split_location_Cons [OF this, of "pre @ k" s]
    have "length ((pre @ p) @ ?k) = 256" "pre @ p \<noteq> []"
      using len full(1) wf'(1) by (metis, simp)
    then obtain l0 where l0: "split_location (pre @ k) ?rest = Some l0"
      and IH: "case l0 of
          SideOfRoot Left \<Rightarrow> t_split ?t' ?k = (MNone, MBranch [] ?t')
        | SideOfRoot Right \<Rightarrow> t_split ?t' ?k = (MBranch [] ?t', MNone)
        | PathIndex i \<Rightarrow> i < length ?rest \<and>
            (\<exists>l0 r0 bl br d. in_left (ps_node (?rest ! i)) = Some l0 \<and> in_right (ps_node (?rest ! i)) = Some r0 \<and>
               split_climb H lr rr (rev (take i ?rest)) l0 r0
                 (db_remove (NodeKey (ps_prefix (?rest ! i)) (ps_hash (?rest ! i))) db_new) = Some (bl, br, d) \<and>
               halves_ok H rg (ps_prefix (?rest ! i)) (pre @ p) (t_nodes H rg False (pre @ p) ?t') (t_split ?t' ?k) (bl, br, d))"
      using less.hyps [OF full(2) n1 [unfolded i1] wf'(2)] unfolding split_claim_def full(1) by blast
    show ?thesis
    proof (cases l0)
      case (SideOfRoot dir)
      have "b_split bx k = (if dir = Left then (MNone, bx) else (bx, MNone))"
        using IH SideOfRoot p by (cases dir) (simp_all del: t_split.simps)
      then have "sided bx k (split_location (pre @ k) (s # ?rest))"
        unfolding loc l0 SideOfRoot using bx(3) by (cases dir; cases x) (simp_all add: sided_def k s_def dir_from_def opposite_def)
      then show ?thesis
        unfolding steps using claim [OF refl] by (simp only: rest)
    next
      case (PathIndex i)
      then obtain l1 r1 bl br d where i: "i < length ?rest" "in_left (ps_node (?rest ! i)) = Some l1"
        "in_right (ps_node (?rest ! i)) = Some r1"
        "split_climb H lr rr (rev (take i ?rest)) l1 r1
           (db_remove (NodeKey (ps_prefix (?rest ! i)) (ps_hash (?rest ! i))) db_new) = Some (bl, br, d)"
        "halves_ok H rg (ps_prefix (?rest ! i)) (pre @ p) (t_nodes H rg False (pre @ p) ?t') (t_split ?t' ?k) (bl, br, d)"
        using IH by auto
      let ?spos = "ps_prefix (?rest ! i)" and ?halves = "t_split ?t' ?k"
      let ?new = "set_branch x l r (extend_branch p (split_new x ?halves))" and ?ext = "extend_branch p (split_ext x ?halves)"
      have tn: "t_node H (if x then lr else rr) False pre (MNode l r) = Some (h, Interior n)"
        using t(1) nonroot_hash(1) by metis
      have len': "length k \<le> 256" "False = (pre = [])"
        using len less.prems(4) by auto
      obtain h' u eb d' where up: "split_climb H lr rr [s] bl br d =
          Some (if x then (\<lparr>br_prefix = [], br_hash = h'\<rparr>, eb, d') else (eb, \<lparr>br_prefix = [], br_hash = h'\<rparr>, d'))"
        and new: "t_node H (if x then lr else rr) False pre ?new = Some (h', Interior u)"
        and ext: "t_branch H rg pre ?ext = Some (Some eb)"
        and d': "db_inv d'" "local_change (prefix pre) ?spos db_new d'" "strict_prefix pre ?spos"
        and nodes: "nodes_ok ?spos d' (b_nodes H rg pre l @ b_nodes H rg pre r) (b_nodes H rg pre ?ext)"
          "nodes_ok ?spos d' (t_nodes H (if x then lr else rr) False pre (MNode l r)) (t_nodes H (if x then lr else rr) False pre ?new)"
        using split_above [OF H tn t(2) k len' p(1) [unfolded bx_def] p(2) i(5), of h, folded s_def] by blast
      have "l \<noteq> MNone" "r \<noteq> MNone" "extend_branch p (split_new x ?halves) \<noteq> MNone"
        using t(2) i(5) by (auto simp: halves_ok_def split_new_def split: prod.splits simp del: t_split.simps)
      then have split: "t_split (MNode l r) k = (if x then (MBranch [] ?new, ?ext) else (?ext, MBranch [] ?new))"
        using p unfolding bx_def t_split_Cons [OF k]
        by (cases x; cases ?halves) (auto simp: split_new_def split_ext_def set_branch_def join_node_def simp del: t_split.simps)
      have new': "t_branch H rg pre (MBranch [] ?new) = Some (Some \<lparr>br_prefix = [], br_hash = h'\<rparr>)"
      proof -
        have "t_node H rg False pre ?new = Some (h', Interior u)"
          using new nonroot_hash(1) by metis
        then show ?thesis
          by (simp del: t_node.simps t_split.simps)
      qed
      have sub: "set (b_nodes H rg pre l @ b_nodes H rg pre r) \<subseteq> set (t_nodes H rg False pre (MNode l r))"
        by (auto simp del: t_node.simps)
      have "nodes_ok ?spos d' (t_nodes H rg False pre (MNode l r)) (b_nodes H rg pre (MBranch [] ?new))"
        using nodes(2) unfolding nonroot_nodes(1) [of H "if x then lr else rr" pre _ rg]
        by (simp del: t_nodes.simps t_split.simps)
      then have "halves_ok H rg ?spos pre (t_nodes H rg False pre (MNode l r)) (t_split (MNode l r) k)
          (if x then (\<lparr>br_prefix = [], br_hash = h'\<rparr>, eb, d') else (eb, \<lparr>br_prefix = [], br_hash = h'\<rparr>, d'))"
        using new' ext d' nodes_ok_mono [OF nodes(1) sub] unfolding split
        by (intro halves_okI)
      moreover have "split_location (pre @ k) (s # ?rest) = Some (PathIndex (Suc i))"
        by (simp add: loc l0 PathIndex del: t_steps.simps)
      ultimately show ?thesis
        unfolding steps rest split_claim_def using i(1-4) up
        by (cases x) (auto simp: split_climb_append simp del: t_steps.simps split_climb.simps t_split.simps)
    qed
  qed
qed

section \<open>The root\<close>

definition split_result_ok ::
  "'h::linorder NodeHasher \<Rightarrow> OwnedRange \<Rightarrow> OwnedRange \<Rightarrow> OwnedRange \<Rightarrow> mtree \<Rightarrow> mtree \<Rightarrow> mtree \<Rightarrow> 'h SplitResult \<Rightarrow> bool" where
  "split_result_ok H rg lr rr t lt rt res \<longleftrightarrow>
     sr_range (split_left res) = lr \<and> sr_range (split_right res) = rr \<and>
     (\<exists>n. t_node H lr True [] lt = Some (sr_root_hash (split_left res), n)) \<and>
     (\<exists>n. t_node H rr True [] rt = Some (sr_root_hash (split_right res), n)) \<and>
     (\<forall>st. holds_tree H rg st t \<longrightarrow>
        holds_tree H lr (apply_delta (split_delta res) st) lt \<and> holds_tree H rr (apply_delta (split_delta res) st) rt)"

lemma holds_below_root:
  assumes "holds_tree H rg st (MNode l r)"
  shows "list_all (\<lambda>(k, n). st k = Some n) (b_nodes H rg' [] l @ b_nodes H rg' [] r)"
  using assms unfolding nonroot_nodes(2) [of H rg' _ _ rg]
  by (auto simp: holds_tree_def list_all_iff simp del: t_node.simps)

lemma nodes_ok_root:
  assumes "t_node H rg True [] (MNode a b) = Some (h, n)" "bt_get (to_add d) (NodeKey [] h) = Some n"
    and "nodes_ok spos d old (b_nodes H rg [] a)" "nodes_ok spos d old (b_nodes H rg [] b)"
  shows "nodes_ok spos d old (t_nodes H rg True [] (MNode a b))"
  using assms by (auto simp: nodes_ok_def opt_list_def simp del: t_node.simps)

lemma split_roots_ok:
  assumes t: "wf_branch False m l" "wf_branch True m r"
    and tl: "t_node H lr True [] (MNode a b) = Some (hl, Interior nl)" "a \<in> {MNone, l}" "b \<in> {MNone, r}"
    and tr: "t_node H rr True [] (MNode a' b') = Some (hr, Interior nr)" "a' \<in> {MNone, l}" "b' \<in> {MNone, r}"
    and "hl \<noteq> hr" "ps_prefix s = []"
  shows "split_result_ok H rg lr rr (MNode l r) (MNode a b) (MNode a' b') (split_roots s lr (hl, nl) rr (hr, nr))"
proof -
  define d where "d = db_remove (NodeKey [] (ps_hash s))
    (db_add (NodeKey [] hr) (Interior nr) (db_add (NodeKey [] hl) (Interior nl) db_new))"
  have inv: "db_inv d"
    by (simp add: d_def)
  have get: "bt_get (to_add d) = [NodeKey [] hl \<mapsto> Interior nl, NodeKey [] hr \<mapsto> Interior nr]"
    "bt_get (to_remove d) = [NodeKey [] (ps_hash s) \<mapsto> ()]"
    by (auto simp: d_def db_update_get db_add_def db_remove_def db_new_def bt.get_insert bt_get_def bt_inv_def fun_eq_iff)
  have root_only: "prefix (nk_prefix k) []" if "bt_get (to_add d) k \<noteq> None \<or> bt_get (to_remove d) k \<noteq> None" for k
    using that by (auto simp: get split: if_splits)
  have below: "nodes_ok [] d (b_nodes H rg' [] l @ b_nodes H rg' [] r) (b_nodes H rg' [] c)" if "c \<in> {MNone, l, r}" for rg' c
    using that branch_below [OF _ t(1), of _ H rg' "[]"] branch_below [OF _ t(2), of _ H rg' "[]"]
    by (intro nodes_ok_below) auto
  have "nodes_ok [] d (b_nodes H lr [] l @ b_nodes H lr [] r) (t_nodes H lr True [] (MNode a b))"
    using nodes_ok_root [OF tl(1)] below [of a lr] below [of b lr] tl(2,3) assms(9) by (auto simp: get)
  moreover have "nodes_ok [] d (b_nodes H rr [] l @ b_nodes H rr [] r) (t_nodes H rr True [] (MNode a' b'))"
    using nodes_ok_root [OF tr(1)] below [of a' rr] below [of b' rr] tr(2,3) by (auto simp: get)
  moreover have "split_delta (split_roots s lr (hl, nl) rr (hr, nr)) = db_build d"
    by (simp add: split_roots_def d_def)
  ultimately show ?thesis
    using tl(1) tr(1) holds_tree_apply [OF inv _ root_only holds_below_root]
    by (simp add: split_result_ok_def split_roots_def del: t_node.simps)
qed

lemma construct_root_of:
  assumes "t_branch H rg' [] b = Some (Some eb)" "wf_branch x m b" "t_node H rg True [] (root_of b) = Some (h, n)"
  shows "br_prefix eb \<noteq> []" "\<exists>i. n = Interior i \<and> construct H rg True None (Some eb) = Some (h, i)"
proof -
  obtain p t where b: "b = MBranch p t" "br_prefix eb = p" "p \<noteq> []" "hd p = x"
    using assms(1,2) by (cases b) (auto simp: panic_simps)
  then show "br_prefix eb \<noteq> []"
    by simp
  obtain ps where p: "p = x # ps"
    using b(3,4) by (cases p) auto
  have eb: "t_branch H rg [] b = Some (Some eb)"
    using assms(1) nonroot_hash(2) by metis
  have "root_of b = (if x then MNode MNone b else MNode b MNone)"
    by (simp add: root_of_def b(1) p)
  then show "\<exists>i. n = Interior i \<and> construct H rg True None (Some eb) = Some (h, i)"
    using assms(3) eb b(2) p
    by (cases x) (auto simp: construct_def branch_dir_def index_get_def dir_from_def panic_simps)
qed

lemma split_climb_root:
  fixes H :: "'h::linorder NodeHasher" and l r ext :: mbranch and lr rr :: OwnedRange and x :: bool
  defines "new_range \<equiv> if x then lr else rr" and "ext_range \<equiv> if x then rr else lr"
  assumes t: "wf_branch False m l" "wf_branch True m r"
    and new: "t_node H new_range True [] new = Some (h', Interior u)" "wf_tree True m new"
    and ext: "t_branch H rg [] ext = Some (Some eb)" "wf_branch x m ext"
      "t_node H ext_range True [] (root_of ext) = Some (h2, n2)"
    and diff: "h' \<noteq> h2"
    and d: "db_inv d" "local_change (prefix []) spos db_new d" "spos \<noteq> []"
    and nodes: "nodes_ok spos d (b_nodes H rg [] l @ b_nodes H rg [] r) (b_nodes H rg [] ext)"
      "nodes_ok spos d (t_nodes H new_range True [] (MNode l r)) (t_nodes H new_range True [] new)"
    and res: "(bl, br) = (if x then (\<lparr>br_prefix = [], br_hash = h'\<rparr>, eb) else (eb, \<lparr>br_prefix = [], br_hash = h'\<rparr>))"
  shows "\<exists>left_root right_root d2 d3. split_half_root H lr bl d = Some (left_root, d2) \<and>
    split_half_root H rr br d2 = Some (right_root, d3) \<and>
    split_result_ok H rg lr rr (MNode l r) (if x then new else root_of ext) (if x then root_of ext else new)
      \<lparr>split_left = \<lparr>sr_root_hash = left_root, sr_range = lr\<rparr>,
       split_right = \<lparr>sr_root_hash = right_root, sr_range = rr\<rparr>, split_delta = db_build d3\<rparr>"
proof -
  obtain i2 where i2: "n2 = Interior i2" "construct H ext_range True None (Some eb) = Some (h2, i2)" "br_prefix eb \<noteq> []"
    using construct_root_of [OF ext] by blast
  define d3 where "d3 = db_add (NodeKey [] h2) (Interior i2) d"
  have get: "bt_get (to_add d3) = (bt_get (to_add d))(NodeKey [] h2 \<mapsto> Interior i2)" "to_remove d3 = to_remove d" "db_inv d3"
    using d(1) by (auto simp: d3_def db_add_def db_inv_def bt.get_insert bt.invar_insert)
  have path: "prefix (nk_prefix k) spos" if "bt_get (to_add d3) k \<noteq> None \<or> bt_get (to_remove d3) k \<noteq> None" for k
    using that d(2) by (auto simp: get local_change_def db_new_def bt_get_def strict_prefix_def split: if_splits)
  let ?old = "b_nodes H rg [] l @ b_nodes H rg [] r"
  have "nodes_ok spos d ?old (t_nodes H new_range True [] new)"
    using nodes(2) unfolding nodes_ok_def nonroot_nodes(2) [of H rg _ _ new_range]
    by (fastforce simp: opt_list_def simp del: t_node.simps split: if_splits option.splits)
  moreover have "fst e \<noteq> NodeKey [] h2" if "e \<in> set (t_nodes H new_range True [] new)" for e
  proof -
    obtain a b where ab: "new = MNode a b" "wf_branch False m a" "wf_branch True m b"
      using new(2) by (cases new) auto
    show ?thesis
      using that new(1) on_path_node [OF _ ab(2), of e H new_range "[]"] on_path_node [OF _ ab(3), of e H new_range "[]"] diff
      by (auto simp: ab(1) opt_list_def simp del: t_node.simps)
  qed
  ultimately have new': "nodes_ok spos d3 ?old (t_nodes H new_range True [] new)"
    unfolding nodes_ok_def get by auto
  have "nodes_ok spos d3 ?old (b_nodes H ext_range [] ext)"
    using nodes(1) on_path_node [OF _ ext(2), of _ H ext_range "[]"] unfolding nodes_ok_def get nonroot_nodes(2) [of H rg _ ext ext_range]
    by fastforce
  moreover obtain a b where ab: "root_of ext = MNode a b" "a \<in> {MNone, ext}" "b \<in> {MNone, ext}"
    using ext(1,2) by (cases ext) (auto simp: root_of_def neq_Nil_conv split: list.splits if_splits)
  ultimately have "nodes_ok spos d3 ?old (b_nodes H ext_range [] a)" "nodes_ok spos d3 ?old (b_nodes H ext_range [] b)"
    by (auto simp: nodes_ok_def)
  then have ext': "nodes_ok spos d3 ?old (t_nodes H ext_range True [] (root_of ext))"
    unfolding ab(1) by (intro nodes_ok_root [OF ext(3) [unfolded ab(1)]]) (simp_all add: get i2(1))
  note holds = holds_tree_apply [OF get(3) _ path holds_below_root]
  have "split_half_root H lr bl d \<bind> (\<lambda>(left_root, d2). split_half_root H rr br d2 \<bind> (\<lambda>(right_root, d3). Some (left_root, right_root, d3))) =
      Some (if x then h' else h2, if x then h2 else h', d3)"
    using i2(2,3) res by (cases x) (auto simp: split_half_root_def d3_def ext_range_def)
  then show ?thesis
    using new(1) ext(3) holds [OF new'] holds [OF ext']
    by (cases x) (auto simp: panic_simps split_result_ok_def new_range_def ext_range_def simp del: t_node.simps)
qed

lemma t_node_new:
  assumes "t_node H rg' root pre (MNode a b) = Some (h, m)" "t_branch H rg pre a = Some ba" "t_branch H rg pre b = Some bb"
  shows "\<exists>i. m = Interior i \<and> new_with_hash H rg' root ba bb = Some (h, i)"
  using assms unfolding nonroot_hash(2) [of H rg pre _ rg'] by (auto simp: panic_simps)

lemma t_node_range:
  assumes "hasher_ok H" "ids_ok rg'" "wf_tree True m (MNode l r)" "m \<le> 256" "t_node H rg True [] (MNode l r) = Some (h, Interior n)"
  shows "\<exists>h'. t_node H rg' True [] (MNode l r) = Some (h', Interior n)"
proof -
  obtain h' n' where "t_node H rg' True [] (MNode l r) = Some (h', n')"
    using t_node_total(1) [OF assms(1-4)] by blast
  moreover from t_node_new [OF this t_node_branches [OF assms(5)]] have "n' = Interior n"
    by (auto dest!: new_with_hash_eq)
  ultimately show ?thesis
    by blast
qed

lemma split_sided_root:
  assumes t: "t_node H rg True [] (MNode l r) = Some (h, Interior n)" "wf_tree True (length k) (MNode l r)"
    and k: "k = x # ks" "k = rid_bits (vp_key vp)"
    and vp: "vp_path vp = \<lparr>ps_hash = h, ps_node = n, ps_prefix = [], ps_next_dir = dir_from x\<rparr> # rest"
      "record_id_prev (vp_key vp) = Some prev"
      "lr = \<lparr>rg_start = rg_start (vp_range vp), rg_end = prev\<rparr>" "rr = \<lparr>rg_start = vp_key vp, rg_end = rg_end (vp_range vp)\<rparr>"
    and sd: "sided (if x then r else l) k (split_location k (vp_path vp))"
    and lt: "t_node H lr True [] (root_of (fst (t_split (MNode l r) k))) = Some (hl, nl)"
    and rt: "t_node H rr True [] (root_of (snd (t_split (MNode l r) k))) = Some (hr, nr)" and diff: "hl \<noteq> hr"
  shows "\<exists>res. split_verified H vp = Some res \<and> split_result_ok H rg lr rr (MNode l r)
    (root_of (fst (t_split (MNode l r) k))) (root_of (snd (t_split (MNode l r) k))) res"
proof -
  note tb = t_node_branches [OF t(1)]
  have none: "t_branch H rg [] MNone = Some None"
    by simp
  have wf: "wf_branch False (length k) l" "wf_branch True (length k) r"
    using t(2) by auto
  have roots: "root_of (join_node l r) = MNode l r" "root_of MNone = MNode MNone MNone"
    "root_of l = MNode l MNone" "root_of r = MNode MNone r"
    using root_of_join [OF wf] root_of_join [OF wf(1), of MNone] root_of_join [OF _ wf(2), of MNone]
    by (simp_all add: root_of_def join_node_def split: if_splits)
  have join: "join_node l MNone = l" "join_node MNone r = r"
    by (simp_all add: join_node_def)
  consider "root_of (fst (t_split (MNode l r) k)) = MNode MNone MNone" "root_of (snd (t_split (MNode l r) k)) = MNode l r"
      "split_location k (vp_path vp) = Some (SideOfRoot Left)"
    | "root_of (fst (t_split (MNode l r) k)) = MNode l r" "root_of (snd (t_split (MNode l r) k)) = MNode MNone MNone"
      "split_location k (vp_path vp) = Some (SideOfRoot Right)"
    | "root_of (fst (t_split (MNode l r) k)) = MNode l MNone" "root_of (snd (t_split (MNode l r) k)) = MNode MNone r"
      "split_location k (vp_path vp) = Some (PathIndex 0)"
    using sd unfolding sided_def t_split_Cons [OF k(1)] using k(1)
    by (cases x) (auto simp: roots join split: if_splits)
  then show ?thesis
  proof cases
    case 1
    obtain il ir where "nl = Interior il" "new_with_hash H lr True None None = Some (hl, il)"
      "nr = Interior ir" "new_with_hash H rr True (in_left n) (in_right n) = Some (hr, ir)"
      using t_node_new [OF lt [unfolded 1] none none] t_node_new [OF rt [unfolded 1] tb] by auto
    then show ?thesis
      using split_roots_ok [OF wf, of H lr MNone MNone hl il rr l r hr ir] lt rt 1 vp k(2) diff
      by (auto simp: split_verified_def root_with_new_partition_def simp del: t_node.simps t_split.simps)
  next
    case 2
    obtain il ir where "nl = Interior il" "new_with_hash H lr True (in_left n) (in_right n) = Some (hl, il)"
      "nr = Interior ir" "new_with_hash H rr True None None = Some (hr, ir)"
      using t_node_new [OF lt [unfolded 2] tb] t_node_new [OF rt [unfolded 2] none none] by auto
    then show ?thesis
      using split_roots_ok [OF wf, of H lr l r hl il rr MNone MNone hr ir] lt rt 2 vp k(2) diff
      by (auto simp: split_verified_def root_with_new_partition_def simp del: t_node.simps t_split.simps)
  next
    case 3
    obtain il ir where "nl = Interior il" "new_with_hash H lr True (in_left n) None = Some (hl, il)"
      "nr = Interior ir" "new_with_hash H rr True None (in_right n) = Some (hr, ir)"
      using t_node_new [OF lt [unfolded 3] tb(1) none] t_node_new [OF rt [unfolded 3] none tb(2)] by auto
    then show ?thesis
      using split_roots_ok [OF wf, of H lr l MNone hl il rr MNone r hr ir] lt rt 3 vp k(2) diff
      by (auto simp: split_verified_def simp del: t_node.simps t_split.simps)
  qed
qed

lemma split_climbed_root:
  fixes H :: "'h::linorder NodeHasher"
  assumes H: "hasher_ok H" "ids_ok lr" "ids_ok rr"
    and t: "t_node H rg True [] (MNode l r) = Some (h, Interior n)" "wf_tree True (length k) (MNode l r)"
    and k: "k = x # ks" "k = rid_bits (vp_key vp)" "length k = 256"
    and bx: "(if x then r else l) = MBranch p t'" "prefix p k"
    and vp: "vp_path vp = \<lparr>ps_hash = h, ps_node = n, ps_prefix = [], ps_next_dir = dir_from x\<rparr> # rest"
      "rest = t_steps H rg False p t' (drop (length p) k)" "record_id_prev (vp_key vp) = Some prev"
      "lr = \<lparr>rg_start = rg_start (vp_range vp), rg_end = prev\<rparr>" "rr = \<lparr>rg_start = vp_key vp, rg_end = rg_end (vp_range vp)\<rparr>"
    and loc: "split_location k (vp_path vp) = Some (PathIndex (Suc i))" "i < length rest"
      "in_left (ps_node (rest ! i)) = Some l0" "in_right (ps_node (rest ! i)) = Some r0"
    and climb: "split_climb H lr rr (rev (take i rest)) l0 r0
        (db_remove (NodeKey (ps_prefix (rest ! i)) (ps_hash (rest ! i))) db_new) = Some (bl, br, d)"
    and child: "halves_ok H rg (ps_prefix (rest ! i)) p (t_nodes H rg False p t') (t_split t' (drop (length p) k)) (bl, br, d)"
    and lt: "t_node H lr True [] (root_of (fst (t_split (MNode l r) k))) = Some (hl, nl)"
    and rt: "t_node H rr True [] (root_of (snd (t_split (MNode l r) k))) = Some (hr, nr)" and diff: "hl \<noteq> hr"
  shows "\<exists>res. split_verified H vp = Some res \<and> split_result_ok H rg lr rr (MNode l r)
    (root_of (fst (t_split (MNode l r) k))) (root_of (snd (t_split (MNode l r) k))) res"
proof -
  define s where "s = \<lparr>ps_hash = h, ps_node = n, ps_prefix = [], ps_next_dir = dir_from x\<rparr>"
  define halves where "halves = t_split t' (drop (length p) k)"
  define new where "new = set_branch x l r (extend_branch p (split_new x halves))"
  define ext where "ext = extend_branch p (split_ext x halves)"
  let ?spos = "ps_prefix (rest ! i)" and ?rg = "if x then lr else rr"
  have wf: "wf_branch False (length k) l" "wf_branch True (length k) r" "wf_branch x (length k) (MBranch p t')"
    unfolding bx(1) [symmetric] using t(2) by auto
  have "ids_ok ?rg"
    using H by simp
  then obtain h2 where tn: "t_node H ?rg True [] (MNode l r) = Some (h2, Interior n)"
    using t_node_range [OF H(1) _ t(2) _ t(1)] k(3) by (metis order_refl)
  obtain h' u eb d' where up: "split_climb H lr rr [s] bl br d =
      Some (if x then (\<lparr>br_prefix = [], br_hash = h'\<rparr>, eb, d') else (eb, \<lparr>br_prefix = [], br_hash = h'\<rparr>, d'))"
    and new: "t_node H ?rg True [] new = Some (h', Interior u)" "wf_tree True (length k) new"
    and ext: "t_branch H rg [] ext = Some (Some eb)" "wf_branch x (length k) ext"
    and d': "db_inv d'" "local_change (prefix []) ?spos db_new d'" "strict_prefix [] ?spos"
    and nodes: "nodes_ok ?spos d' (b_nodes H rg [] l @ b_nodes H rg [] r) (b_nodes H rg [] ext)"
      "nodes_ok ?spos d' (t_nodes H ?rg True [] (MNode l r)) (t_nodes H ?rg True [] new)"
    using split_above [OF H tn t(2) k(1) _ _ bx, of rg ?spos bl br d h] child k(3)
    unfolding s_def [symmetric] new_def ext_def halves_def append.simps by auto
  have "root_of (fst (t_split (MNode l r) k)) = (if x then new else root_of ext) \<and>
      root_of (snd (t_split (MNode l r) k)) = (if x then root_of ext else new)"
  proof -
    have "b_split (MBranch p t') k = map_prod (extend_branch p) (extend_branch p) halves"
      using bx(2) by (simp add: halves_def)
    moreover note t_split_wf(2) [OF wf(3)]
    ultimately show ?thesis
      using root_of_join [OF wf(1)] root_of_join [OF _ wf(2)] bx(1) unfolding t_split_Cons [OF k(1)]
      by (cases x; cases halves)
        (simp_all add: new_def ext_def split_new_def split_ext_def set_branch_def del: b_split.simps)
  qed
  note roots = this [THEN conjunct1] this [THEN conjunct2]
  have hs: "(if x then hl else hr) = h'" "t_node H (if x then rr else lr) True [] (root_of ext) = Some (if x then hr else hl, if x then nr else nl)"
    using lt rt new(1) unfolding roots by (cases x; simp)+
  have "h' \<noteq> (if x then hr else hl)"
    using hs(1) diff by (auto split: if_splits)
  moreover have "?spos \<noteq> []"
    using d'(3) by (auto simp: strict_prefix_def)
  moreover obtain bl' br' where res: "(bl', br') = (if x then (\<lparr>br_prefix = [], br_hash = h'\<rparr>, eb) else (eb, \<lparr>br_prefix = [], br_hash = h'\<rparr>))"
    by (metis surj_pair)
  ultimately obtain left_root right_root d2 d3 where half: "split_half_root H lr bl' d' = Some (left_root, d2)"
      "split_half_root H rr br' d2 = Some (right_root, d3)"
    and ok: "split_result_ok H rg lr rr (MNode l r) (if x then new else root_of ext) (if x then root_of ext else new)
      \<lparr>split_left = \<lparr>sr_root_hash = left_root, sr_range = lr\<rparr>,
       split_right = \<lparr>sr_root_hash = right_root, sr_range = rr\<rparr>, split_delta = db_build d3\<rparr>"
    using split_climb_root [OF wf(1,2) new ext hs(2) _ d'(1,2) _ nodes res] by blast
  have "\<forall>y \<in> set (rev (take i rest)). ps_prefix y \<noteq> []"
    using t_steps_prefix(1) [of _ H rg False p t' "drop (length p) k"] wf(3) vp(2) set_take_subset [of i rest] by fastforce
  then have "split_up H lr rr (rev (take (Suc i) (s # rest))) l0 r0
      (db_remove (NodeKey (ps_prefix (rest ! i)) (ps_hash (rest ! i))) db_new) = Some (bl', br', d')"
    using climb up res split_up_climb [of s "rev (take i rest)" H lr rr l0 r0]
    by (cases x) (simp_all add: s_def split_climb_append del: split_climb.simps split_up.simps)
  then have "split_verified H vp = Some \<lparr>split_left = \<lparr>sr_root_hash = left_root, sr_range = lr\<rparr>,
       split_right = \<lparr>sr_root_hash = right_root, sr_range = rr\<rparr>, split_delta = db_build d3\<rparr>"
    using half loc vp(1,3-5) k(2) unfolding split_verified_def
    by (simp add: s_def [symmetric] index_get_def del: split_up.simps)
  then show ?thesis
    unfolding roots using ok by blast
qed

lemma split_verified_ok:
  fixes H :: "'h::linorder NodeHasher"
  assumes H: "hasher_ok H" "ids_ok rg" and t: "wf_tree True 256 t" "t_node H rg True [] t = Some (h, n)"
    and key: "rid_ok key" "record_id_prev key = Some prev" and vf: "verified_for H rg t key vp"
  defines "lr \<equiv> \<lparr>rg_start = rg_start rg, rg_end = prev\<rparr>" and "rr \<equiv> \<lparr>rg_start = key, rg_end = rg_end rg\<rparr>"
    and "lt \<equiv> root_of (fst (t_split t (rid_bits key)))" and "rt \<equiv> root_of (snd (t_split t (rid_bits key)))"
  assumes lt: "t_node H lr True [] lt = Some (hl, nl)" and rt: "t_node H rr True [] rt = Some (hr, nr)" and diff: "hl \<noteq> hr"
  shows "\<exists>res. split_verified H vp = Some res \<and> split_result_ok H rg lr rr t lt rt res"
proof -
  let ?k = "rid_bits key"
  have len: "length ?k = 256"
    using key(1) by (rule length_rid_bits)
  then obtain x ks where k: "?k = x # ks"
    by (cases ?k) auto
  obtain l r where lr: "t = MNode l r"
    using t(1) by (cases t) auto
  obtain i where i: "n = Interior i"
    using t(2) lr by (auto elim: t_node_interior simp del: t_node.simps)
  note tn = t(2) [unfolded lr i] and wf = t(1) [folded len, unfolded lr]
  define bx where "bx = (if x then r else l)"
  define s where "s = \<lparr>ps_hash = h, ps_node = i, ps_prefix = [], ps_next_dir = dir_from x\<rparr>"
  have path: "vp_path vp = s # b_steps H rg [] bx ?k" and vp: "vp_key vp = key" "vp_range vp = rg"
    using vf t_steps_MNode [OF tn, of x ks] by (simp_all add: verified_for_def lr k bx_def s_def)
  have prev: "record_id_prev (vp_key vp) = Some prev" "?k = rid_bits (vp_key vp)"
    "lr = \<lparr>rg_start = rg_start (vp_range vp), rg_end = prev\<rparr>" "rr = \<lparr>rg_start = vp_key vp, rg_end = rg_end (vp_range vp)\<rparr>"
    using key(2) by (simp_all add: vp lr_def rr_def)
  have ids: "ids_ok lr" "ids_ok rr"
    using H(2) key record_id_prev_Some [OF key(2,1)] by (simp_all add: ids_ok_def lr_def rr_def)
  have bx: "t_branch H rg [] bx = Some (branch i (dir_from x))" "wf_branch x (length ?k) bx"
    using wf t_node_branches [OF tn] by (auto simp: bx_def branch_def dir_from_def)
  note sided = split_sided_root [OF tn wf k prev(2) path [unfolded s_def] prev(1,3,4) _
      lt [unfolded lt_def lr] rt [unfolded rt_def lr] diff, folded bx_def lr, folded lt_def rt_def]
  show ?thesis
  proof (cases "\<exists>p l' r'. bx = MBranch p (MNode l' r') \<and> prefix p ?k")
    case False
    then have no: "\<not> prefix p ?k \<or> (\<exists>v. t' = MLeaf v)" if "bx = MBranch p t'" for p t'
      using that by (cases t') auto
    then have "b_steps H rg [] bx ?k = []"
      by (cases bx) force+
    then show ?thesis
      using sided split_last [OF tn wf _ k bx_def no] len path by (simp add: s_def)
  next
    case True
    then obtain p l' r' where p: "bx = MBranch p (MNode l' r')" "prefix p ?k"
      by blast
    let ?k' = "drop (length p) ?k" and ?t' = "MNode l' r'"
    have wf': "p \<noteq> []" "wf_tree False (length ?k') ?t'"
      using bx(2) by (auto simp: p(1))
    have kk: "?k = p @ ?k'"
      using p(2) by (auto simp: prefix_def)
    obtain h1 n1 where n1: "t_node H rg False p ?t' = Some (h1, n1)"
      using t_branch_MBranchD [OF bx(1) [unfolded p(1)]] by auto
    then obtain i1 where i1: "n1 = Interior i1"
      by (auto elim: t_node_interior simp del: t_node.simps)
    define rest where "rest = t_steps H rg False p ?t' ?k'"
    have path': "vp_path vp = s # rest"
      using p by (simp add: path rest_def del: t_steps.simps)
    have "rest \<noteq> []"
      unfolding rest_def using t_steps_last_branch [OF n1 [unfolded i1] wf'(2)] by blast
    note loc = split_location_Cons [OF this, of ?k s, folded path']
    have "length (p @ ?k') = 256"
      using len kk by metis
    from split_steps_ok [OF H(1) ids n1 [unfolded i1] wf'(2) this wf'(1), folded rest_def kk]
    obtain l0 where l0: "split_location ?k rest = Some l0" and child: "case l0 of
          SideOfRoot Left \<Rightarrow> t_split ?t' ?k' = (MNone, MBranch [] ?t')
        | SideOfRoot Right \<Rightarrow> t_split ?t' ?k' = (MBranch [] ?t', MNone)
        | PathIndex i \<Rightarrow> i < length rest \<and>
            (\<exists>l0 r0 bl br d. in_left (ps_node (rest ! i)) = Some l0 \<and> in_right (ps_node (rest ! i)) = Some r0 \<and>
               split_climb H lr rr (rev (take i rest)) l0 r0
                 (db_remove (NodeKey (ps_prefix (rest ! i)) (ps_hash (rest ! i))) db_new) = Some (bl, br, d) \<and>
               halves_ok H rg (ps_prefix (rest ! i)) p (t_nodes H rg False p ?t') (t_split ?t' ?k') (bl, br, d))"
      unfolding split_claim_def by blast
    show ?thesis
    proof (cases l0)
      case (SideOfRoot dir)
      have "b_split bx ?k = (if dir = Left then (MNone, bx) else (bx, MNone))"
        using child SideOfRoot p by (cases dir) (simp_all del: t_split.simps)
      then have "sided bx ?k (split_location ?k (vp_path vp))"
        unfolding loc l0 SideOfRoot using p(1) by (cases dir; cases x) (simp_all add: sided_def k s_def dir_from_def opposite_def)
      then show ?thesis
        by (rule sided)
    next
      case (PathIndex j)
      have "split_location ?k (vp_path vp) = Some (PathIndex (Suc j))"
        by (simp add: loc l0 PathIndex)
      then show ?thesis
        using split_climbed_root [OF H(1) ids tn wf k prev(2) len p(1) [unfolded bx_def] p(2) path' [unfolded s_def]
            rest_def prev(1,3,4), of j _ _ _ _ _ hl nl hr nr] child PathIndex lt rt diff
        unfolding lt_def rt_def lr by auto
    qed
  qed
qed

section \<open>Properties\<close>

definition low_tree :: "mtree \<Rightarrow> RecordId \<Rightarrow> mtree" where
  "low_tree t key = root_of (fst (t_split t (rid_bits key)))"

definition high_tree :: "mtree \<Rightarrow> RecordId \<Rightarrow> mtree" where
  "high_tree t key = root_of (snd (t_split t (rid_bits key)))"

lemma split_trees:
  assumes "wf_tree True 256 t" "rid_ok key"
  shows "wf_tree True 256 (low_tree t key)" "wf_tree True 256 (high_tree t key)"
    and "rid_ok k \<Longrightarrow> t_lookup (low_tree t key) (rid_bits k) = (if k < key then t_lookup t (rid_bits k) else None)"
    and "rid_ok k \<Longrightarrow> t_lookup (high_tree t key) (rid_bits k) = (if k < key then None else t_lookup t (rid_bits k))"
proof -
  have len: "length (rid_bits key) = 256"
    using assms(2) by (rule length_rid_bits)
  show "wf_tree True 256 (low_tree t key)" "wf_tree True 256 (high_tree t key)"
    using t_split_wf(1) [of True "rid_bits key" t] assms(1) len by (auto simp: low_tree_def high_tree_def intro: wf_root_of)
  assume k: "rid_ok k"
  then have "rid_bits k \<noteq> []" "length (rid_bits k) = length (rid_bits key)"
    using length_rid_bits [OF k] len by auto
  then show "t_lookup (low_tree t key) (rid_bits k) = (if k < key then t_lookup t (rid_bits k) else None)"
    "t_lookup (high_tree t key) (rid_bits k) = (if k < key then None else t_lookup t (rid_bits k))"
    using t_split_lookup(1) [of True "rid_bits key" t "rid_bits k"] assms len rid_bits_less [OF k assms(2)]
    by (simp_all add: low_tree_def high_tree_def b_lookup_root_of)
qed

lemma root_hashes_differ:
  assumes "hasher_ok H" "wf_tree True 256 t" "wf_tree True 256 t'" "ids_ok rg" "ids_ok rg'" "rg \<noteq> rg'"
    and "t_node H rg True [] t = Some (h, n)" "t_node H rg' True [] t' = Some (h', n')"
    and "no_collision H (t_builders H rg True [] t) (t_builders H rg' True [] t')"
  shows "h \<noteq> h'"
proof
  assume eq: "h = h'"
  obtain l r l' r' where lr: "t = MNode l r" "t' = MNode l' r'"
    using assms(2,3) by (cases t; cases t') auto
  obtain bl br b where b: "t_branch H rg [] l = Some bl" "t_branch H rg [] r = Some br" "node_builder rg True bl br = Some b"
    "nhb_build H b = Some h" "b \<in> set (t_builders H rg True [] t)"
    using t_node_interior [OF assms(7) [unfolded lr]] lr by metis
  obtain bl' br' b' where b': "t_branch H rg' [] l' = Some bl'" "t_branch H rg' [] r' = Some br'"
    "node_builder rg' True bl' br' = Some b'" "nhb_build H b' = Some h'" "b' \<in> set (t_builders H rg' True [] t')"
    using t_node_interior [OF assms(8) [unfolded lr]] lr by metis
  have "nhb_ok b" "nhb_ok b'"
    using node_builder_ok [OF b(3)] node_builder_ok [OF b'(3)] t_branch_ok [OF b(1)] t_branch_ok [OF b(2)]
      t_branch_ok [OF b'(1)] t_branch_ok [OF b'(2)] assms(2-5) by (auto simp: lr ids_ok_def)
  then have "b = b'"
    using no_collision_inj [OF assms(1,9) b(5) b'(5)] b(4) b'(4) eq by simp
  then show False
    using node_builder_inj [OF b(3)] b'(3) assms(6) by metis
qed

lemma range_split_ok:
  fixes H :: "'h::linorder NodeHasher"
  assumes "hasher_ok H" "wf_tree True 256 t" "ids_ok rg"
    and "t_node H rg True [] t = Some (rp_root_hash p, n)"
    and "proof_ok p" "no_collision H (t_builders H rg True [] t) (p_builders p)"
    and "ov_latest_root (tr_overlay tree) = rp_root_hash p"
    and "latest_proof H tree p = Some (Inr vp)"
    and "record_id_prev (rp_key p) = Some prev"
    and "no_collision H (t_builders H \<lparr>rg_start = rg_start rg, rg_end = prev\<rparr> True [] (low_tree t (rp_key p)))
      (t_builders H \<lparr>rg_start = rp_key p, rg_end = rg_end rg\<rparr> True [] (high_tree t (rp_key p)))"
  shows "\<exists>res. range_split H tree p = Some (Inr res) \<and>
    split_result_ok H rg \<lparr>rg_start = rg_start rg, rg_end = prev\<rparr> \<lparr>rg_start = rp_key p, rg_end = rg_end rg\<rparr> t
      (low_tree t (rp_key p)) (high_tree t (rp_key p)) res"
proof -
  let ?lr = "\<lparr>rg_start = rg_start rg, rg_end = prev\<rparr>" and ?rr = "\<lparr>rg_start = rp_key p, rg_end = rg_end rg\<rparr>"
  have key: "rid_ok (rp_key p)"
    using assms(5) by (simp add: proof_ok_def)
  have prev: "rid_ok prev" "rid_val prev + 1 = rid_val (rp_key p)"
    using record_id_prev_Some [OF assms(9) key] by auto
  note trees = split_trees [OF assms(2) key]
  have ids: "ids_ok ?lr" "ids_ok ?rr"
    using assms(3) key prev by (simp_all add: ids_ok_def)
  obtain lh where "verify_proof H p = Some (Inr lh)"
    using assms(8) by (cases "verify_proof H p"; cases "the (verify_proof H p)")
      (auto simp: latest_proof_def verify_def panic_simps split: if_splits)
  then have "range_contains (rp_range p) (rp_key p) = Some True" "rp_range p = rg"
    using verify_proof_walk [OF assms(1,2) _ _ assms(4-6)] assms(3) by (auto elim: verify_proof_InrD simp: ids_ok_def)
  then have "?lr \<noteq> ?rr"
    using prev key assms(3) by (auto simp: range_contains_def panic_simps rid_le ids_ok_def)
  moreover obtain hl nl hr nr where t: "t_node H ?lr True [] (low_tree t (rp_key p)) = Some (hl, nl)"
    "t_node H ?rr True [] (high_tree t (rp_key p)) = Some (hr, nr)"
    using t_node_total(1) [OF assms(1) ids(1) trees(1)] t_node_total(1) [OF assms(1) ids(2) trees(2)] by blast
  ultimately have "hl \<noteq> hr"
    using root_hashes_differ [OF assms(1) trees(1,2) ids _ t assms(10)] by blast
  then obtain res where res: "split_verified H vp = Some res"
    "split_result_ok H rg ?lr ?rr t (low_tree t (rp_key p)) (high_tree t (rp_key p)) res"
    using split_verified_ok [OF assms(1,3,2,4) key assms(9) latest_proof_verified_for [OF assms(1-8)]] t
    unfolding low_tree_def high_tree_def by blast
  moreover have "record_id_min < rp_key p"
    using prev key by (simp add: rid_less)
  ultimately have "range_split H tree p = Some (Inr res)"
    using assms(8) by (simp add: range_split_def latest_proof_def)
  then show ?thesis
    using res(2) by blast
qed

text \<open>
  C16: splitting a tree.  Let a proof verify against the latest root of a tree that the leader
  keeps, for a record that is not the first possible one.  Then splitting at that record neither
  fails nor panics.  The left result has the part of the range below the record and is the root
  hash of a well-formed tree that holds exactly the old records below it; the right one has the rest
  of the range and holds exactly the others.  Applying the returned delta to any store that holds
  the old tree gives a store that holds both, as long as no two byte strings hashed for the two
  trees collide.
\<close>

theorem range_split_correct:
  fixes H :: "'h::linorder NodeHasher"
  assumes "hasher_ok H" "wf_tree True 256 t" "ids_ok rg"
    and "t_node H rg True [] t = Some (rp_root_hash p, n)"
    and "proof_ok p" "no_collision H (t_builders H rg True [] t) (p_builders p)"
    and "ov_latest_root (tr_overlay tree) = rp_root_hash p"
    and "latest_proof H tree p = Some (Inr vp)"
    and "record_id_prev (rp_key p) = Some prev"
    and "no_collision H (t_builders H \<lparr>rg_start = rg_start rg, rg_end = prev\<rparr> True [] (low_tree t (rp_key p)))
      (t_builders H \<lparr>rg_start = rp_key p, rg_end = rg_end rg\<rparr> True [] (high_tree t (rp_key p)))"
  shows "\<exists>res lt rt. range_split H tree p = Some (Inr res) \<and> wf_tree True 256 lt \<and> wf_tree True 256 rt \<and>
    split_result_ok H rg \<lparr>rg_start = rg_start rg, rg_end = prev\<rparr> \<lparr>rg_start = rp_key p, rg_end = rg_end rg\<rparr> t lt rt res \<and>
    (\<forall>k. rid_ok k \<longrightarrow> t_lookup lt (rid_bits k) = (if k < rp_key p then t_lookup t (rid_bits k) else None) \<and>
                   t_lookup rt (rid_bits k) = (if k < rp_key p then None else t_lookup t (rid_bits k)))"
proof -
  have "rid_ok (rp_key p)"
    using assms(5) by (simp add: proof_ok_def)
  then show ?thesis
    using range_split_ok [OF assms] split_trees [OF assms(2)] by blast
qed

definition tag_hasher :: "u8 NodeHasher" where
  "tag_hasher = example_hasher\<lparr>finalize := (\<lambda>bs. of_nat (length bs) + (case drop 4 bs of [] \<Rightarrow> 0 | b # _ \<Rightarrow> b))\<rparr>"

lemma tag_hasher_ok: "hasher_ok tag_hasher"
  using example_hasher_ok by (simp add: hasher_ok_def tag_hasher_def)

definition split_key :: RecordId where
  "split_key = RecordId (0x80 # replicate 31 0)"

definition tag_root :: u8 where
  "tag_root = (case t_node tag_hasher range_full True [] example_tree of None \<Rightarrow> 0 | Some (h, _) \<Rightarrow> h)"

definition split_proof :: "u8 ReadProof" where
  "split_proof = t_proof tag_hasher range_full example_tree tag_root split_key"

lemma t_walk_ok:
  "wf_tree root (length k) t \<Longrightarrow> length k \<le> 256 \<Longrightarrow> list_all node_ok (fst (t_walk H rg root pre t k)) \<and>
     pred_option (\<lambda>l. length (lf_value l) < 256 ^ 8) (snd (t_walk H rg root pre t k))"
  "wf_branch dir (length k) b \<Longrightarrow> length k \<le> 256 \<Longrightarrow> list_all node_ok (fst (b_walk H rg pre b k)) \<and>
     pred_option (\<lambda>l. length (lf_value l) < 256 ^ 8) (snd (b_walk H rg pre b k))"
proof (induction t and b arbitrary: root pre k and dir pre k)
  case (MNode l r)
  have wf: "wf_branch False (length k) l" "wf_branch True (length k) r"
    using MNode.prems(1) by auto
  show ?case
    using MNode.IH(1) [OF wf(1) MNode.prems(2), of pre] MNode.IH(2) [OF wf(2) MNode.prems(2), of pre]
      t_branch_ok [OF _ wf(1) MNode.prems(2), of H rg pre] t_branch_ok [OF _ wf(2) MNode.prems(2), of H rg pre]
    by (auto simp: Let_def split_def node_ok_def split: option.splits list.splits)
next
  case (MBranch p t)
  then show ?case
    using MBranch.IH [of False "drop (length p) k" "pre @ p"] by auto
qed auto

lemma t_proof_ok:
  assumes "wf_tree True 256 t" "ids_ok rg" "rid_ok key"
  shows "proof_ok (t_proof H rg t root key)"
  using t_walk_ok(1) [of True "rid_bits key" t H rg "[]"] assms by (simp add: proof_ok_def t_proof_def ids_ok_def length_rid_bits)

lemma t_proof_latest:
  assumes "hasher_ok H" "wf_tree True 256 t" "range_ok rg" "key \<in> range_set rg" "t_node H rg True [] t = Some (root, n)"
  shows "\<exists>vp. latest_proof H (with_existing_root root m) (t_proof H rg t root key) = Some (Inr vp)"
proof -
  obtain lh where v: "verify_proof H (t_proof H rg t root key) = Some (Inr lh)"
    using t_proof_verifies [OF assms] by blast
  have len: "length (rid_bits key) = 256"
    using assms(4) by (simp add: range_set_def length_rid_bits)
  have "already_latest_loop (rid_bits key) 0 root (fst (t_walk H rg True [] t (rid_bits key))) =
      Some (t_steps H rg True [] t (rid_bits key))"
    using already_latest_steps [OF len assms(5), of "rid_bits key"] assms(2) len by simp
  then have "new_already_latest (t_proof H rg t root key) \<noteq> None"
    by (simp add: new_already_latest_def t_proof_def)
  moreover have "rp_root_hash (t_proof H rg t root key) = root"
    by (simp add: t_proof_def)
  ultimately show ?thesis
    using v by (auto simp: latest_proof_def verify_def new_make_latest_def with_existing_root_def overlay_new_def)
qed

definition low_branch :: "u8 Branch" where
  "low_branch = \<lparr>br_prefix = rid_bits record_id_min, br_hash = 46\<rparr>"

definition high_branch :: "u8 Branch" where
  "high_branch = \<lparr>br_prefix = rid_bits split_key, br_hash = 173\<rparr>"

lemma split_key_ok: "rid_ok split_key" "rid_bytes split_key = 0x80 # replicate 31 0" "rid_bytes record_id_min = 0 # replicate 31 0"
  by (simp_all add: split_key_def rid_ok_def record_id_num_bytes_def record_id_min_def numeral_eq_Suc)

lemma split_example_hashes:
  "nhb_build tag_hasher (NHLeaf record_id_min [1, 2]) = Some 46"
  "nhb_build tag_hasher (NHLeaf split_key [3]) = Some 173"
  "rid_bytes (rg_start rg) = b # s \<Longrightarrow> rid_ok (rg_start rg) \<Longrightarrow> rid_ok (rg_end rg) \<Longrightarrow>
     nhb_build tag_hasher (NHRoot rg (Some low_branch) (Some high_branch)) = Some (140 + b)"
  "rid_bytes (rg_start rg) = b # s \<Longrightarrow> rid_ok (rg_start rg) \<Longrightarrow> rid_ok (rg_end rg) \<Longrightarrow>
     nhb_build tag_hasher (NHRoot rg (Some low_branch) None) = Some (108 + b)"
  "rid_bytes (rg_start rg) = b # s \<Longrightarrow> rid_ok (rg_start rg) \<Longrightarrow> rid_ok (rg_end rg) \<Longrightarrow>
     nhb_build tag_hasher (NHRoot rg None (Some high_branch)) = Some (108 + b)"
  using length_rid_bits [OF split_key_ok(1)] length_rid_bits [of record_id_min]
  by (simp_all add: nhb_build_def nhb_bytes_def tag_hasher_def example_hasher_def ascii_def branches_bytes_def branch_len_def
      branch_bytes_def length_bytes_of_bits rid_ok_def record_id_num_bytes_def split_key_ok(2,3)
      low_branch_def high_branch_def Let_def)


lemma split_key_bits: "\<exists>ks. rid_bits split_key = True # ks" "\<exists>ks. rid_bits record_id_min = False # ks"
proof -
  have "hd (rid_bits split_key)" "rid_bits split_key \<noteq> []" "\<not> hd (rid_bits record_id_min)" "rid_bits record_id_min \<noteq> []"
    by code_simp+
  then show "\<exists>ks. rid_bits split_key = True # ks" "\<exists>ks. rid_bits record_id_min = False # ks"
    by (cases "rid_bits split_key"; cases "rid_bits record_id_min"; auto)+
qed

lemma split_example_branches:
  "t_branch tag_hasher rg [] (MBranch (rid_bits record_id_min) (MLeaf [1, 2])) = Some (Some low_branch)"
  "t_branch tag_hasher rg [] (MBranch (rid_bits split_key) (MLeaf [3])) = Some (Some high_branch)"
  using split_example_hashes(1,2) by (simp_all add: new_leaf_def record_id_of_bits low_branch_def high_branch_def)

lemma split_example_builders:
  "example_tree = MNode (MBranch (rid_bits record_id_min) (MLeaf [1, 2])) (MBranch (rid_bits split_key) (MLeaf [3]))"
  "t_builders tag_hasher range_full True [] example_tree =
     [NHRoot range_full (Some low_branch) (Some high_branch), NHLeaf record_id_min [1, 2], NHLeaf split_key [3]]"
  "p_builders split_proof = [NHLeaf split_key [3], NHRoot range_full (Some low_branch) (Some high_branch)]"
proof -
  show ex: "example_tree = MNode (MBranch (rid_bits record_id_min) (MLeaf [1, 2])) (MBranch (rid_bits split_key) (MLeaf [3]))"
    by (simp add: example_tree_def split_key_def)
  show "t_builders tag_hasher range_full True [] example_tree =
     [NHRoot range_full (Some low_branch) (Some high_branch), NHLeaf record_id_min [1, 2], NHLeaf split_key [3]]"
    using split_example_branches by (simp add: ex node_builder_def opt_list_def record_id_of_bits del: t_branch.simps)
  obtain ks where ks: "rid_bits split_key = True # ks"
    using split_key_bits(1) by blast
  have "t_walk tag_hasher range_full True [] example_tree (rid_bits split_key) =
      ([\<lparr>in_left = Some low_branch, in_right = Some high_branch\<rparr>], Some \<lparr>lf_value = [3]\<rparr>)"
    unfolding ex by (subst (2) ks, subst t_walk_MNode [OF split_example_branches]) (simp add: ks)
  then show "p_builders split_proof = [NHLeaf split_key [3], NHRoot range_full (Some low_branch) (Some high_branch)]"
    by (simp add: p_builders_def split_proof_def t_proof_def)
qed

lemma split_example_trees:
  "low_tree example_tree split_key = MNode (MBranch (rid_bits record_id_min) (MLeaf [1, 2])) MNone"
  "high_tree example_tree split_key = MNode MNone (MBranch (rid_bits split_key) (MLeaf [3]))"
proof -
  obtain ks ms where ks: "rid_bits split_key = True # ks" "rid_bits record_id_min = False # ms"
    using split_key_bits by blast
  show "low_tree example_tree split_key = MNode (MBranch (rid_bits record_id_min) (MLeaf [1, 2])) MNone"
    "high_tree example_tree split_key = MNode MNone (MBranch (rid_bits split_key) (MLeaf [3]))"
    by (simp_all add: low_tree_def high_tree_def split_example_builders(1) join_node_def root_of_def ks)
qed

definition split_key_prev :: RecordId where
  "split_key_prev = RecordId (0x7f # replicate 31 255)"

lemma split_example_prev: "record_id_prev split_key = Some split_key_prev"
  by code_simp

lemma split_example_collisions:
  "no_collision tag_hasher (t_builders tag_hasher range_full True [] example_tree) (p_builders split_proof)"
  "no_collision tag_hasher
     (t_builders tag_hasher \<lparr>rg_start = rg_start range_full, rg_end = split_key_prev\<rparr> True [] (low_tree example_tree split_key))
     (t_builders tag_hasher \<lparr>rg_start = split_key, rg_end = rg_end range_full\<rparr> True [] (high_tree example_tree split_key))"
proof -
  have ok: "rid_ok split_key_prev" "rid_bytes (rg_start range_full) = 0 # replicate 31 0"
    "rid_ok (rg_start range_full)" "rid_ok (rg_end range_full)"
    using record_id_min_ok(1) record_id_max_ok(1)
    by (simp_all add: range_full_def split_key_ok(3)) (simp add: split_key_prev_def rid_ok_def record_id_num_bytes_def)
  note roots = split_example_hashes(3-5) [of _ 0 "replicate 31 0"] split_example_hashes(3-5) [of _ "0x80" "replicate 31 0"]
  show "no_collision tag_hasher (t_builders tag_hasher range_full True [] example_tree) (p_builders split_proof)"
    unfolding split_example_builders(2,3)
    using roots(1) [of range_full] ok by (simp add: no_collision_def split_example_hashes(1,2))
  have "t_builders tag_hasher rg True [] (low_tree example_tree split_key) = [NHRoot rg (Some low_branch) None, NHLeaf record_id_min [1, 2]]"
    "t_builders tag_hasher rg True [] (high_tree example_tree split_key) = [NHRoot rg None (Some high_branch), NHLeaf split_key [3]]" for rg
    using split_example_branches [of rg]
    by (simp_all add: split_example_trees node_builder_def opt_list_def record_id_of_bits del: t_branch.simps(2))
  then show "no_collision tag_hasher
     (t_builders tag_hasher \<lparr>rg_start = rg_start range_full, rg_end = split_key_prev\<rparr> True [] (low_tree example_tree split_key))
     (t_builders tag_hasher \<lparr>rg_start = split_key, rg_end = rg_end range_full\<rparr> True [] (high_tree example_tree split_key))"
    using roots(2) [of "\<lparr>rg_start = rg_start range_full, rg_end = split_key_prev\<rparr>"] ok split_key_ok
      roots(6) [of "\<lparr>rg_start = split_key, rg_end = rg_end range_full\<rparr>"]
    by (simp add: no_collision_def split_example_hashes(1,2))
qed

theorem range_split_correct_witness:
  "\<exists>res lt rt. range_split tag_hasher (with_existing_root tag_root 3) split_proof = Some (Inr res) \<and>
     sr_range (split_left res) = \<lparr>rg_start = record_id_min, rg_end = split_key_prev\<rparr> \<and>
     t_lookup lt (rid_bits record_id_min) = Some [1, 2] \<and> t_lookup lt (rid_bits split_key) = None \<and>
     t_lookup rt (rid_bits split_key) = Some [3] \<and> (\<exists>n. t_node tag_hasher (sr_range (split_left res)) True [] lt =
       Some (sr_root_hash (split_left res), n))"
proof -
  obtain n where n: "t_node tag_hasher range_full True [] example_tree = Some (tag_root, n)"
    using t_node_total(1) [OF tag_hasher_ok example_tree_ok(2,1), of "[]"] by (auto simp: tag_root_def)
  have p: "rp_root_hash split_proof = tag_root" "rp_key split_proof = split_key"
    by (simp_all add: split_proof_def t_proof_def)
  have "split_key \<in> range_set range_full"
    using split_key_ok(1) rid_val_bound [OF split_key_ok(1)] by (auto simp: range_set_def range_full_def rid_le)
  then obtain vp where vp: "latest_proof tag_hasher (with_existing_root tag_root 3) split_proof = Some (Inr vp)"
    using t_proof_latest [OF tag_hasher_ok example_tree_ok(1) example_range(1) _ n, of split_key 3] by (auto simp: split_proof_def)
  have "proof_ok split_proof"
    using t_proof_ok [OF example_tree_ok(1,2) split_key_ok(1)] by (simp add: split_proof_def)
  moreover have "ov_latest_root (tr_overlay (with_existing_root tag_root 3)) = rp_root_hash split_proof"
    by (simp add: with_existing_root_def overlay_new_def p)
  moreover obtain ks ms where ks: "rid_bits split_key = True # ks" "rid_bits record_id_min = False # ms"
    using split_key_bits by blast
  then have "t_lookup example_tree (rid_bits record_id_min) = Some [1, 2]" "t_lookup example_tree (rid_bits split_key) = Some [3]"
    by (simp_all add: split_example_builders(1))
  moreover have "record_id_min < split_key" "rid_ok record_id_min" "rid_ok split_key"
    using split_key_ok by (simp_all add: less_RecordId_def)
  moreover note range_split_correct [OF tag_hasher_ok example_tree_ok(1,2) n [folded p(1)] _ split_example_collisions(1) _ vp,
      unfolded p(2), OF _ _ split_example_prev split_example_collisions(2)]
  ultimately obtain res lt rt where "range_split tag_hasher (with_existing_root tag_root 3) split_proof = Some (Inr res)"
    "split_result_ok tag_hasher range_full \<lparr>rg_start = rg_start range_full, rg_end = split_key_prev\<rparr>
       \<lparr>rg_start = split_key, rg_end = rg_end range_full\<rparr> example_tree lt rt res"
    "t_lookup lt (rid_bits record_id_min) = Some [1, 2]" "t_lookup lt (rid_bits split_key) = None"
    "t_lookup rt (rid_bits split_key) = Some [3]"
    by fastforce
  then show ?thesis
    by (intro exI [of _ res] exI [of _ lt] exI [of _ rt]) (auto simp: split_result_ok_def range_full_def simp del: t_node.simps)
qed

end
