(* ===== verification/MerkleMerge.thy ===== *)
theory MerkleMerge
  imports MerkleInsert
begin

text \<open>
  Merging the trees of two adjacent ranges (\<open>merge\<close> of \<open>src/hsm_core/src/merkle/merge.rs\<close>): the
  branches off the two proof paths are collected and rebuilt into one tree over the joined range.
\<close>

section \<open>The operation\<close>

record 'h MergeResult =
  mr_range :: OwnedRange
  mr_root_hash :: 'h
  mr_delta :: "'h StoreDelta"

datatype MergeError = MergeProof ProofError | NotAdjacentRanges

definition full_branch :: "'h PathStep \<Rightarrow> 'h Branch option \<Rightarrow> 'h Branch list option" where
  "full_branch step b = (case b of
      None \<Rightarrow> Some []
    | Some b \<Rightarrow> do { bp \<leftarrow> kv_concat (ps_prefix step) (br_prefix b); Some [\<lparr>br_prefix = bp, br_hash = br_hash b\<rparr>] })"

fun merge_collect ::
  "'h::linorder PathStep list \<Rightarrow> 'h Branch list \<Rightarrow> 'h DeltaBuilder \<Rightarrow> ('h Branch list \<times> 'h DeltaBuilder) option" where
  "merge_collect [] branches delta = Some (branches, delta)"
| "merge_collect (n # ns) branches delta = do {
     off \<leftarrow> full_branch n (branch (ps_node n) (opposite (ps_next_dir n)));
     on \<leftarrow> (if ns = [] then full_branch n (branch (ps_node n) (ps_next_dir n)) else Some []);
     merge_collect ns (branches @ off @ on) (db_remove (NodeKey (ps_prefix n) (ps_hash n)) delta)
   }"

fun position_bit :: "nat \<Rightarrow> 'h Branch list \<Rightarrow> nat option option" where
  "position_bit k [] = Some None"
| "position_bit k (b # bs) = do {
     x \<leftarrow> index_get (br_prefix b) k;
     if x then Some (Some 0) else do { r \<leftarrow> position_bit k bs; Some (map_option Suc r) }
   }"

definition bits_after :: "nat \<Rightarrow> 'h Branch list \<Rightarrow> nat" where
  "bits_after k bs = sum_list (map (\<lambda>b. length (br_prefix b) - k) bs)"

lemma bits_after_simps [simp]:
  "bits_after k [] = 0" "bits_after k (b # bs) = (length (br_prefix b) - k) + bits_after k bs"
  "bits_after k (bs @ cs) = bits_after k bs + bits_after k cs"
  by (simp_all add: bits_after_def)

lemma bits_after_Suc: "bits_after (Suc k) bs \<le> bits_after k bs"
  by (induction bs) auto

lemma position_bit_first:
  "position_bit k (b # bs) = Some r \<Longrightarrow> k < length (br_prefix b)"
  by (auto simp: index_get_def split: if_splits)

lemma position_bit_Some:
  "position_bit k bs = Some (Some i) \<Longrightarrow> i < length bs \<and> k < length (br_prefix (bs ! i)) \<and> br_prefix (bs ! i) ! k \<and>
     (\<forall>j < i. k < length (br_prefix (bs ! j)) \<and> \<not> br_prefix (bs ! j) ! k)"
  by (induction bs arbitrary: i)
    (auto simp: index_get_def nth_Cons split: if_splits Option.bind_splits nat.splits)

lemma bits_after_less:
  assumes "bs \<noteq> []" "k < length (br_prefix (hd bs))" "bits_after k cs = bits_after k as + bits_after k bs + bits_after k ds"
  shows "bits_after (Suc k) bs < bits_after k cs"
  using assms bits_after_Suc [of k "tl bs"] by (cases bs) auto

function reduce_to_tree ::
  "'h::linorder NodeHasher \<Rightarrow> OwnedRange \<Rightarrow> nat \<Rightarrow> nat \<Rightarrow> 'h Branch list \<Rightarrow> 'h DeltaBuilder \<Rightarrow>
   ('h Branch \<times> 'h DeltaBuilder) option" where
  "reduce_to_tree H rg pos_start pos branches delta =
     (case branches of
        [] \<Rightarrow> None
      | [b] \<Rightarrow> do { p \<leftarrow> kv_from (br_prefix b) pos_start; Some (\<lparr>br_prefix = p, br_hash = br_hash b\<rparr>, delta) }
      | b0 # b1 # bs \<Rightarrow>
          (case position_bit pos branches of
             None \<Rightarrow> None
           | Some None \<Rightarrow> reduce_to_tree H rg pos_start (pos + 1) branches delta
           | Some (Some idx) \<Rightarrow>
               if idx = 0 then reduce_to_tree H rg pos_start (pos + 1) branches delta
               else (case reduce_to_tree H rg pos (pos + 1) (take idx branches) delta of
                   None \<Rightarrow> None
                 | Some (left_b, delta1) \<Rightarrow>
                     (case reduce_to_tree H rg pos (pos + 1) (drop idx branches) delta1 of
                        None \<Rightarrow> None
                      | Some (right_b, delta2) \<Rightarrow> do {
                          (h, n) \<leftarrow> construct H rg (pos = 0) (Some left_b) (Some right_b);
                          node_prefix \<leftarrow> kv_to (br_prefix b0) pos;
                          branch_prefix \<leftarrow> kv_from node_prefix pos_start;
                          Some (\<lparr>br_prefix = branch_prefix, br_hash = h\<rparr>,
                            db_add (NodeKey node_prefix h) (Interior n) delta2)
                        }))))"
  by pat_completeness auto
termination
proof (relation "measure (\<lambda>(_, _, _, pos, bs, _). bits_after pos bs)", goal_cases)
  case (2 H rg s pos bs delta b0 x b1 xs r)
  then show ?case
    using position_bit_first [of pos b0 x] bits_after_less [of bs pos bs "[]" "[]"] by simp
next
  case (3 H rg s pos bs delta b0 x b1 xs r idx)
  then show ?case
    using position_bit_first [of pos b0 x] bits_after_less [of bs pos bs "[]" "[]"] by simp
next
  case (4 H rg s pos bs delta b0 x b1 xs r idx)
  have "bits_after pos bs = bits_after pos (take idx bs) + bits_after pos (drop idx bs)"
    by (metis append_take_drop_id bits_after_simps(3))
  moreover have "hd (take idx bs) = b0" "take idx bs \<noteq> []"
    using 4 by (cases idx; simp)+
  ultimately show ?case
    using 4 position_bit_first [of pos b0 x] bits_after_less [of "take idx bs" pos bs "[]" "drop idx bs"] by simp
next
  case (5 H rg s pos bs delta b0 x b1 xs r idx p left_b delta1)
  have "bits_after pos bs = bits_after pos (take idx bs) + bits_after pos (drop idx bs)"
    by (metis append_take_drop_id bits_after_simps(3))
  moreover have "idx < length bs" "pos < length (br_prefix (bs ! idx))"
    using position_bit_Some [of pos bs idx] 5 by auto
  ultimately show ?case
    using bits_after_less [of "drop idx bs" pos bs "take idx bs" "[]"] by (simp add: hd_drop_conv_nth)
qed simp

declare reduce_to_tree.simps [simp del]

definition merge_branches ::
  "'h::linorder NodeHasher \<Rightarrow> OwnedRange \<Rightarrow> 'h Branch list \<Rightarrow> 'h DeltaBuilder \<Rightarrow> ('h \<times> 'h DeltaBuilder) option" where
  "merge_branches H new_range branches delta =
     (if branches = [] then do {
        (h, root) \<leftarrow> new_with_hash H new_range True None None;
        Some (h, db_add (NodeKey [] h) (Interior root) delta)
      }
      else do {
        (res, delta1) \<leftarrow> reduce_to_tree H new_range 0 0 branches delta;
        if br_prefix res = [] then Some (br_hash res, delta1)
        else do {
          (h, n) \<leftarrow> construct H new_range True (Some res) None;
          Some (h, db_add (NodeKey [] h) (Interior n) delta1)
        }
      })"

definition merge_verified ::
  "'h::linorder NodeHasher \<Rightarrow> 'h VerifiedProof \<Rightarrow> 'h VerifiedProof \<Rightarrow> (MergeError + 'h MergeResult) option" where
  "merge_verified H mine other = do {
     joined \<leftarrow> range_join (vp_range mine) (vp_range other);
     case joined of
       None \<Rightarrow> Some (Inl NotAdjacentRanges)
     | Some new_range \<Rightarrow> do {
         let (left_path, right_path) =
           (if rg_start (vp_range mine) < rg_start (vp_range other) then (vp_path mine, vp_path other)
            else (vp_path other, vp_path mine));
         (branches1, delta1) \<leftarrow> merge_collect left_path [] db_new;
         (branches2, delta2) \<leftarrow> merge_collect right_path branches1 delta1;
         (root_hash, delta3) \<leftarrow> merge_branches H new_range (sort_key br_prefix branches2) delta2;
         Some (Inr \<lparr>mr_range = new_range, mr_root_hash = root_hash, mr_delta = db_build delta3\<rparr>)
       }
   }"

definition merge ::
  "'h::linorder NodeHasher \<Rightarrow> 'h Tree \<Rightarrow> 'h ReadProof \<Rightarrow> 'h ReadProof \<Rightarrow> (MergeError + 'h MergeResult) option" where
  "merge H t my_proof other_proof = do {
     r1 \<leftarrow> verify H my_proof (tr_overlay t);
     case r1 of
       Inl e \<Rightarrow> Some (Inl (MergeProof e))
     | Inr mine \<Rightarrow> do {
         r2 \<leftarrow> verify_foreign_proof H other_proof;
         case r2 of
           Inl e \<Rightarrow> Some (Inl (MergeProof e))
         | Inr other \<Rightarrow> merge_verified H mine other
       }
   }"

end
