(* ===== verification/MerkleMergeTree.thy ===== *)
theory MerkleMergeTree
  imports MerkleSplitTree MerkleMerge
begin

text \<open>
  What \<open>merge\<close> computes, in terms of the abstract trees of \<open>MerkleTree\<close>: the subtrees off
  the two proof paths are put together into one well-formed tree that holds the records of both, and
  the delta turns a store of the two old trees into a store of the new one.
\<close>

section \<open>The subtrees off a path\<close>

fun b_list :: "KeyVec \<Rightarrow> mbranch \<Rightarrow> (KeyVec \<times> mtree) list" where
  "b_list pre MNone = []"
| "b_list pre (MBranch p t) = [(pre @ p, t)]"

fun t_offs :: "KeyVec \<Rightarrow> mtree \<Rightarrow> KeyVec \<Rightarrow> (KeyVec \<times> mtree) list"
  and b_offs :: "KeyVec \<Rightarrow> mbranch \<Rightarrow> KeyVec \<Rightarrow> (KeyVec \<times> mtree) list" where
  "t_offs pre (MLeaf v) k = [(pre, MLeaf v)]"
| "t_offs pre (MNode l r) k =
     (case k of
        [] \<Rightarrow> []
      | x # _ \<Rightarrow> if x then b_list pre l @ b_offs pre r k else b_list pre r @ b_offs pre l k)"
| "b_offs pre MNone k = []"
| "b_offs pre (MBranch p t) k = (if prefix p k then t_offs (pre @ p) t (drop (length p) k) else [(pre @ p, t)])"

definition antichain :: "KeyVec list \<Rightarrow> bool" where
  "antichain qs \<longleftrightarrow> distinct qs \<and> (\<forall>a \<in> set qs. \<forall>b \<in> set qs. prefix a b \<longrightarrow> a = b)"

lemma antichain_append:
  "antichain (xs @ ys) \<longleftrightarrow> antichain xs \<and> antichain ys \<and>
     (\<forall>a \<in> set xs. \<forall>b \<in> set ys. \<not> prefix a b \<and> \<not> prefix b a)"
  by (auto simp: antichain_def)

lemma offs_prefix:
  "o' \<in> set (t_offs pre t k) \<Longrightarrow> prefix pre (fst o')"
  "o' \<in> set (b_offs pre b k) \<Longrightarrow> \<exists>p t. b = MBranch p t \<and> prefix (pre @ p) (fst o')"
proof (induction t and b arbitrary: pre k and pre k)
  case (MNode l r)
  have "o' \<in> set (b_list pre b) \<Longrightarrow> prefix pre (fst o')" for b
    by (cases b) auto
  then show ?case
    using MNode by (fastforce dest: append_prefixD split: list.splits if_splits)
qed (auto split: if_splits)

lemma branch_heads:
  "o' \<in> set (b_list pre b) \<Longrightarrow> wf_branch dir m b \<Longrightarrow> prefix (pre @ [dir]) (fst o')"
  "o' \<in> set (b_offs pre b k) \<Longrightarrow> wf_branch dir m b \<Longrightarrow> prefix (pre @ [dir]) (fst o')"
proof -
  have head: "prefix (pre @ [dir]) (pre @ p)" if "wf_branch dir m (MBranch p t)" for p t
    using that by (cases p) auto
  show "o' \<in> set (b_list pre b) \<Longrightarrow> wf_branch dir m b \<Longrightarrow> prefix (pre @ [dir]) (fst o')"
    using head by (cases b) auto
  assume o': "o' \<in> set (b_offs pre b k)" "wf_branch dir m b"
  obtain p t where p: "b = MBranch p t" "prefix (pre @ p) (fst o')"
    using offs_prefix(2) [OF o'(1)] by blast
  show "prefix (pre @ [dir]) (fst o')"
    by (rule prefix_order.trans [OF head [of p t] p(2)]) (use o'(2) p(1) in simp)
qed

lemma heads_differ: "prefix (pre @ [x]) a \<Longrightarrow> prefix (pre @ [y]) b \<Longrightarrow> x \<noteq> y \<Longrightarrow> \<not> prefix a b"
  by (auto simp: prefix_def)

lemma offs_antichain:
  "wf_tree root (length k) t \<Longrightarrow> antichain (map fst (t_offs pre t k))"
  "wf_branch dir (length k) b \<Longrightarrow> antichain (map fst (b_offs pre b k))"
proof (induction t and b arbitrary: root pre k and dir pre k)
  case (MNode l r)
  then obtain x ks where k: "k = x # ks"
    by (cases k) auto
  have wf: "wf_branch False (length k) l" "wf_branch True (length k) r"
    using MNode.prems by auto
  have one: "antichain (map fst (b_list pre b))" for b
    by (cases b) (auto simp: antichain_def)
  have "\<not> prefix (fst a) (fst b) \<and> \<not> prefix (fst b) (fst a)"
    if "a \<in> set (b_list pre (if x then l else r))" "b \<in> set (b_offs pre (if x then r else l) k)" for a b
    using branch_heads(1) [OF that(1), of "\<not> x" "length k"] branch_heads(2) [OF that(2), of x "length k"] wf
      heads_differ [of pre "\<not> x" "fst a" x "fst b"] heads_differ [of pre x "fst b" "\<not> x" "fst a"] by (auto split: if_splits)
  then show ?case
    using MNode.IH(1) [OF wf(1)] MNode.IH(2) [OF wf(2)] one by (auto simp: k antichain_append split: if_splits)
next
  case (MBranch p t)
  then show ?case
    using MBranch.IH [of False "drop (length p) k" "pre @ p"] by (auto simp: antichain_def)
qed (auto simp: antichain_def)

lemma offs_wf:
  "wf_tree root (length k) t \<Longrightarrow> (q, s) \<in> set (t_offs pre t k) \<Longrightarrow>
     length q \<le> length (pre @ k) \<and> wf_tree False (length (pre @ k) - length q) s \<and> (prefix q (pre @ k) \<longrightarrow> q = pre @ k)"
  "wf_branch dir (length k) b \<Longrightarrow> (q, s) \<in> set (b_offs pre b k) \<Longrightarrow>
     length q \<le> length (pre @ k) \<and> wf_tree False (length (pre @ k) - length q) s \<and> (prefix q (pre @ k) \<longrightarrow> q = pre @ k)"
proof (induction t and b arbitrary: root pre k and dir pre k)
  case (MNode l r)
  then obtain x ks where k: "k = x # ks"
    by (cases k) auto
  have wf: "wf_branch False (length k) l" "wf_branch True (length k) r"
    using MNode.prems by auto
  consider "(q, s) \<in> set (b_list pre (if x then l else r))" | "(q, s) \<in> set (b_offs pre (if x then r else l) k)"
    using MNode.prems(2) by (auto simp: k split: if_splits)
  then show ?case
  proof cases
    case 1
    then obtain p where "(if x then l else r) = MBranch p s" "q = pre @ p"
      by (cases "if x then l else r") auto
    moreover from this have "wf_branch (\<not> x) (length k) (MBranch p s)"
      using wf by (metis (full_types))
    ultimately show ?thesis
      by (cases p) (auto simp: k)
  next
    case 2
    then show ?thesis
      using MNode.IH(1) [OF wf(1)] MNode.IH(2) [OF wf(2)] by (auto split: if_splits)
  qed
next
  case (MBranch p t)
  show ?case
  proof (cases "prefix p k")
    case True
    then obtain ks where "k = p @ ks"
      by (auto simp: prefix_def)
    then show ?thesis
      using MBranch.IH [of False ks "pre @ p"] MBranch.prems by simp
  next
    case False
    then show ?thesis
      using MBranch.prems by auto
  qed
qed auto

lemma offs_lookup:
  "wf_tree root (length k) t \<Longrightarrow> length k' = length k \<Longrightarrow> t_lookup t k' = Some v \<longleftrightarrow>
     (\<exists>(q, s) \<in> set (t_offs pre t k). prefix q (pre @ k') \<and> t_lookup s (drop (length q) (pre @ k')) = Some v)"
  "wf_branch dir (length k) b \<Longrightarrow> length k' = length k \<Longrightarrow> b_lookup b k' = Some v \<longleftrightarrow>
     (\<exists>(q, s) \<in> set (b_offs pre b k). prefix q (pre @ k') \<and> t_lookup s (drop (length q) (pre @ k')) = Some v)"
proof (induction t and b arbitrary: root pre k k' and dir pre k k')
  case (MNode l r)
  then obtain x ks y ks' where k: "k = x # ks" "k' = y # ks'"
    by (cases k; cases k') auto
  have wf: "wf_branch False (length k) l" "wf_branch True (length k) r"
    using MNode.prems by auto
  have list: "b_lookup b k' = Some v \<longleftrightarrow>
      (\<exists>(q, s) \<in> set (b_list pre b). prefix q (pre @ k') \<and> t_lookup s (drop (length q) (pre @ k')) = Some v)" for b
    by (cases b) auto
  note dir = b_lookup_dir [OF wf(1), of k'] b_lookup_dir [OF wf(2), of k']
  show ?case
    using MNode.IH(1) [OF wf(1) MNode.prems(2), of pre] MNode.IH(2) [OF wf(2) MNode.prems(2), of pre] list [of l] list [of r] dir
    by (cases x; cases y) (simp_all add: k bex_Un)
next
  case (MBranch p t)
  show ?case
  proof (cases "prefix p k")
    case True
    then obtain ks where ks: "k = p @ ks"
      by (auto simp: prefix_def)
    show ?thesis
    proof (cases "prefix p k'")
      case p: True
      then obtain ks' where "k' = p @ ks'"
        by (auto simp: prefix_def)
      then show ?thesis
        using MBranch.IH [of False ks ks' "pre @ p"] MBranch.prems ks by simp
    next
      case False
      have "\<not> prefix q (pre @ k')" if "(q, s) \<in> set (t_offs (pre @ p) t ks)" for q s
        using offs_prefix(1) [OF that] False by (auto dest: prefix_order.trans)
      then show ?thesis
        using False ks by auto
    qed
  qed auto
qed auto

section \<open>Collecting them\<close>

definition hashed :: "'h NodeHasher \<Rightarrow> KeyVec \<times> mtree \<Rightarrow> 'h Branch \<Rightarrow> bool" where
  "hashed H o' b \<longleftrightarrow> br_prefix b = fst o' \<and> (\<exists>rg n. t_node H rg False (fst o') (snd o') = Some (br_hash b, n))"

lemma hashed_node: "hashed H (q, s) b \<Longrightarrow> \<exists>n. t_node H rg False q s = Some (br_hash b, n)"
  unfolding hashed_def using nonroot_hash(1) by (metis fst_conv snd_conv)

lemma set_t_nodes:
  "t_node H rg root pre (MNode l r) = Some (h, n) \<Longrightarrow>
   set (t_nodes H rg root pre (MNode l r)) = insert (NodeKey pre h, n) (set (b_nodes H rg pre l) \<union> set (b_nodes H rg pre r))"
  by (simp add: opt_list_def del: t_node.simps)

lemma full_branch_ok:
  assumes "t_branch H rg pre b = Some c" "wf_branch dir (length k) b" "length (pre @ k) = 256" "ps_prefix s = pre"
  shows "\<exists>bs. full_branch s c = Some bs \<and> list_all2 (hashed H) (b_list pre b) bs"
  using assms by (cases b) (auto simp: full_branch_def kv_concat_def hashed_def panic_simps, blast+)

definition removes_path :: "KeyVec \<Rightarrow> 'h::linorder DeltaBuilder \<Rightarrow> 'h DeltaBuilder \<Rightarrow> bool" where
  "removes_path full d d' \<longleftrightarrow> db_inv d' \<and> to_add d' = to_add d \<and>
     (\<forall>key. bt_get (to_remove d') key \<noteq> None \<longrightarrow>
        bt_get (to_remove d) key \<noteq> None \<or> strict_prefix (nk_prefix key) full)"

lemma removes_path_step:
  assumes "db_inv d" "removes_path full (db_remove (NodeKey pre h) d) d'" "strict_prefix pre full"
  shows "removes_path full d d'"
  using assms by (auto simp: removes_path_def db_remove_def db_inv_def bt.get_insert split: if_splits)

lemma collect_ok:
  "t_node H rg root pre (MNode l r) = Some (h, Interior n) \<Longrightarrow> wf_tree root (length k) (MNode l r) \<Longrightarrow>
   length (pre @ k) = 256 \<Longrightarrow> db_inv d \<Longrightarrow>
   \<exists>bs' d'. merge_collect (t_steps H rg root pre (MNode l r) k) bs d = Some (bs @ bs', d') \<and>
     list_all2 (hashed H) (t_offs pre (MNode l r) k) bs' \<and> removes_path (pre @ k) d d'"
proof (induction "length k" arbitrary: k root pre l r h n bs d rule: less_induct)
  case less
  note t = less.prems(1,2) and len = less.prems(3) and d = less.prems(4)
  obtain x ks where k: "k = x # ks"
    using t(2) by (cases k) auto
  define bx where "bx = (if x then r else l)"
  define bo where "bo = (if x then l else r)"
  define s where "s = \<lparr>ps_hash = h, ps_node = n, ps_prefix = pre, ps_next_dir = dir_from x\<rparr>"
  have steps: "t_steps H rg root pre (MNode l r) k = s # b_steps H rg pre bx k"
    using t_steps_MNode [OF t(1), of x ks] by (simp add: k bx_def s_def)
  have bx: "t_branch H rg pre bx = Some (branch n (dir_from x))" "wf_branch x (length k) bx"
    and bo: "t_branch H rg pre bo = Some (branch n (opposite (dir_from x)))" "wf_branch (\<not> x) (length k) bo"
    using t t_node_branches [OF t(1)] by (auto simp: bx_def bo_def branch_def dir_from_def opposite_def)
  have offs: "t_offs pre (MNode l r) k = b_list pre bo @ b_offs pre bx k"
    by (simp add: k bx_def bo_def)
  obtain bs1 where bs1: "full_branch s (branch n (opposite (dir_from x))) = Some bs1" "list_all2 (hashed H) (b_list pre bo) bs1"
    using full_branch_ok [OF bo len, of s] by (auto simp: s_def)
  have sp: "strict_prefix pre (pre @ k)"
    by (simp add: k strict_prefix_def)
  let ?d = "db_remove (NodeKey pre h) d"
  show ?case
  proof (cases "\<exists>p l' r'. bx = MBranch p (MNode l' r') \<and> prefix p k")
    case False
    have "b_steps H rg pre bx k = [] \<and> b_offs pre bx k = b_list pre bx"
    proof (cases bx)
      case (MBranch p t')
      then have "\<not> prefix p k \<or> (\<exists>v. t' = MLeaf v)"
        using False by (cases t') auto
      then show ?thesis
        by (auto simp: MBranch)
    qed simp_all
    moreover obtain bs2 where bs2: "full_branch s (branch n (dir_from x)) = Some bs2" "list_all2 (hashed H) (b_list pre bx) bs2"
      using full_branch_ok [OF bx len, of s] by (auto simp: s_def)
    moreover have "removes_path (pre @ k) d ?d"
      by (rule removes_path_step [OF d _ sp, of h]) (use d in \<open>simp add: removes_path_def\<close>)
    ultimately show ?thesis
      unfolding steps offs using bs1 by (simp add: s_def list_all2_appendI)
  next
    case True
    then obtain p l' r' where p: "bx = MBranch p (MNode l' r')" "prefix p k"
      by blast
    let ?k = "drop (length p) k" and ?t' = "MNode l' r'"
    have wf': "p \<noteq> []" "wf_tree False (length ?k) ?t'"
      using bx(2) by (auto simp: p(1))
    have kk: "k = p @ ?k"
      using p(2) by (auto simp: prefix_def)
    then have full: "(pre @ p) @ ?k = pre @ k" "length ?k < length k"
      using wf'(1) by (simp, simp add: k)
    obtain h1 n1 where n1: "t_node H rg False (pre @ p) ?t' = Some (h1, n1)"
      using t_branch_MBranchD [OF bx(1) [unfolded p(1)]] by auto
    then obtain i1 where i1: "n1 = Interior i1"
      by (auto elim: t_node_interior simp del: t_node.simps)
    let ?rest = "t_steps H rg False (pre @ p) ?t' ?k"
    have rest: "b_steps H rg pre bx k = ?rest" "b_offs pre bx k = t_offs (pre @ p) ?t' ?k"
      using p by (simp_all del: t_steps.simps t_offs.simps)
    have ne: "?rest \<noteq> []"
      using t_steps_last_branch [OF n1 [unfolded i1] wf'(2)] by blast
    have "length ((pre @ p) @ ?k) = 256"
      using len full(1) by metis
    from less.hyps [OF full(2) n1 [unfolded i1] wf'(2) this, of ?d "bs @ bs1", unfolded full(1)]
    obtain bs2 d' where "merge_collect ?rest (bs @ bs1) ?d = Some ((bs @ bs1) @ bs2, d')"
      "list_all2 (hashed H) (t_offs (pre @ p) ?t' ?k) bs2" "removes_path (pre @ k) ?d d'"
      using d by auto
    then show ?thesis
      unfolding steps offs rest using bs1 ne removes_path_step [OF d _ sp]
      by (auto simp: s_def intro: list_all2_appendI simp del: t_steps.simps t_offs.simps)
  qed
qed

section \<open>Putting them together\<close>

definition sub_ok :: "'h NodeHasher \<Rightarrow> (KeyVec \<Rightarrow> mtree) \<Rightarrow> 'h Branch \<Rightarrow> bool" where
  "sub_ok H sub b \<longleftrightarrow> br_prefix b \<noteq> [] \<and> length (br_prefix b) \<le> 256 \<and>
     wf_tree False (256 - length (br_prefix b)) (sub (br_prefix b)) \<and> hashed H (br_prefix b, sub (br_prefix b)) b"

definition in_subs :: "(KeyVec \<Rightarrow> mtree) \<Rightarrow> 'h Branch list \<Rightarrow> KeyVec \<Rightarrow> bytes \<Rightarrow> bool" where
  "in_subs sub bs k v \<longleftrightarrow>
     (\<exists>b \<in> set bs. prefix (br_prefix b) k \<and> t_lookup (sub (br_prefix b)) (drop (length (br_prefix b)) k) = Some v)"

definition sub_nodes :: "'h NodeHasher \<Rightarrow> OwnedRange \<Rightarrow> (KeyVec \<Rightarrow> mtree) \<Rightarrow> 'h Branch list \<Rightarrow> ('h NodeKey \<times> 'h Node) set" where
  "sub_nodes H rg sub bs = (\<Union>b \<in> set bs. set (t_nodes H rg False (br_prefix b) (sub (br_prefix b))))"

definition above_some :: "'h Branch list \<Rightarrow> KeyVec \<Rightarrow> bool" where
  "above_some bs q \<longleftrightarrow> (\<exists>b \<in> set bs. strict_prefix q (br_prefix b))"

text \<open>The subtrees \<open>bs\<close>, all below \<open>c\<close>, have become one tree at \<open>q\<close>.\<close>

definition reduced ::
  "'h::linorder NodeHasher \<Rightarrow> OwnedRange \<Rightarrow> (KeyVec \<Rightarrow> mtree) \<Rightarrow> 'h Branch list \<Rightarrow> KeyVec \<Rightarrow> KeyVec \<Rightarrow> mtree \<Rightarrow> 'h \<Rightarrow>
   'h DeltaBuilder \<Rightarrow> 'h DeltaBuilder \<Rightarrow> bool" where
  "reduced H rg sub bs c q mt h d d' \<longleftrightarrow>
     prefix c q \<and> length q \<le> 256 \<and> wf_tree (q = []) (256 - length q) mt \<and> (\<exists>n. t_node H rg (q = []) q mt = Some (h, n)) \<and>
     (\<forall>k v. length k = 256 \<longrightarrow> (prefix q k \<and> t_lookup mt (drop (length q) k) = Some v \<longleftrightarrow> in_subs sub bs k v)) \<and>
     (\<forall>e \<in> set (t_nodes H rg (q = []) q mt). bt_get (to_add d') (fst e) = Some (snd e) \<or> e \<in> sub_nodes H rg sub bs) \<and>
     db_inv d' \<and> to_remove d' = to_remove d \<and>
     (\<forall>key. bt_get (to_add d') key \<noteq> bt_get (to_add d) key \<longrightarrow> prefix c (nk_prefix key) \<and> above_some bs (nk_prefix key))"

lemma reduced_single:
  assumes "sub_ok H sub b" "prefix c (br_prefix b)" "db_inv d"
  shows "reduced H rg sub [b] c (br_prefix b) (sub (br_prefix b)) (br_hash b) d d"
  using assms hashed_node [of H "br_prefix b" "sub (br_prefix b)" b rg]
  by (auto simp: reduced_def sub_ok_def in_subs_def sub_nodes_def)

lemma reduced_weaken: "reduced H rg sub bs (c @ [x]) q mt h d d' \<Longrightarrow> reduced H rg sub bs c q mt h d d'"
  by (auto simp: reduced_def dest: append_prefixD)

lemma reduced_join:
  assumes l: "reduced H rg sub ls (c @ [False]) (c @ pl) lt hl d d1"
    and r: "reduced H rg sub rs (c @ [True]) (c @ pr) rt hr d1 d2"
    and new: "new_with_hash H rg (c = []) (Some \<lparr>br_prefix = pl, br_hash = hl\<rparr>) (Some \<lparr>br_prefix = pr, br_hash = hr\<rparr>) = Some (h, n)"
    and bs: "set bs = set ls \<union> set rs" "\<And>b. b \<in> set bs \<Longrightarrow> strict_prefix c (br_prefix b)" "bs \<noteq> []"
  shows "reduced H rg sub bs c c (MNode (MBranch pl lt) (MBranch pr rt)) h d (db_add (NodeKey c h) (Interior n) d2)"
proof -
  let ?t = "MNode (MBranch pl lt) (MBranch pr rt)" and ?d = "db_add (NodeKey c h) (Interior n) d2"
  obtain ls' rs' where p: "pl = False # ls'" "pr = True # rs'"
    using l r by (auto simp: reduced_def prefix_def)
  have wf: "wf_tree (c = []) (256 - length c) ?t" "length c \<le> 256"
    using l r by (auto simp: reduced_def p)
  have tn: "t_node H rg (c = []) c ?t = Some (h, Interior n)"
    using l r new by (auto simp: reduced_def p simp del: t_node.simps(1))
  have get: "bt_get (to_add ?d) = (bt_get (to_add d2))(NodeKey c h \<mapsto> Interior n)" "to_remove ?d = to_remove d2" "db_inv ?d"
    using r by (auto simp: reduced_def db_add_def db_inv_def bt.get_insert bt.invar_insert)
  have look: "prefix c k \<and> t_lookup ?t (drop (length c) k) = Some v \<longleftrightarrow> in_subs sub bs k v" if "length k = 256" for k v
  proof -
    have "in_subs sub bs k v \<longleftrightarrow> in_subs sub ls k v \<or> in_subs sub rs k v"
      by (auto simp: in_subs_def bs(1))
    also have "\<dots> \<longleftrightarrow> prefix (c @ pl) k \<and> t_lookup lt (drop (length (c @ pl)) k) = Some v \<or>
        prefix (c @ pr) k \<and> t_lookup rt (drop (length (c @ pr)) k) = Some v"
      using l r that by (simp add: reduced_def)
    also have "\<dots> \<longleftrightarrow> prefix c k \<and> t_lookup ?t (drop (length c) k) = Some v"
      by (auto simp: p prefix_def drop_append split: list.splits)
    finally show ?thesis
      by blast
  qed
  have ne: "(c @ pl = []) = False" "(c @ pr = []) = False"
    by (simp_all add: p)
  have ln: "e \<in> set (t_nodes H rg False (c @ pl) lt) \<Longrightarrow> bt_get (to_add d1) (fst e) = Some (snd e) \<or> e \<in> sub_nodes H rg sub ls" for e
    using l unfolding reduced_def ne by blast
  have rn: "e \<in> set (t_nodes H rg False (c @ pr) rt) \<Longrightarrow> bt_get (to_add d2) (fst e) = Some (snd e) \<or> e \<in> sub_nodes H rg sub rs" for e
    using r unfolding reduced_def ne by blast
  have keep: "\<not> prefix (c @ [True]) (nk_prefix key) \<Longrightarrow> bt_get (to_add d2) key = bt_get (to_add d1) key" for key
    using r unfolding reduced_def by blast
  have subs: "sub_nodes H rg sub bs = sub_nodes H rg sub ls \<union> sub_nodes H rg sub rs"
    by (auto simp: sub_nodes_def bs(1))
  have nodes: "bt_get (to_add ?d) (fst e) = Some (snd e) \<or> e \<in> sub_nodes H rg sub bs" if e: "e \<in> set (t_nodes H rg (c = []) c ?t)" for e
  proof -
    consider "e = (NodeKey c h, Interior n)" | "e \<in> set (t_nodes H rg False (c @ pl) lt)" | "e \<in> set (t_nodes H rg False (c @ pr) rt)"
      using e unfolding set_t_nodes [OF tn] by auto
    then show ?thesis
    proof cases
      case 2
      have "prefix (c @ [False]) (nk_prefix (fst e))"
        using t_nodes_prefix(1) [OF 2] by (auto simp: p prefix_def)
      moreover from this have "\<not> prefix (c @ [True]) (nk_prefix (fst e))" "nk_prefix (fst e) \<noteq> c"
        by (auto simp: prefix_def)
      ultimately show ?thesis
        using ln [OF 2] keep [of "fst e"] by (auto simp: get(1) subs)
    next
      case 3
      have "nk_prefix (fst e) \<noteq> c"
        using t_nodes_prefix(1) [OF 3] by (auto simp: p prefix_def)
      then show ?thesis
        using rn [OF 3] by (auto simp: get(1) subs)
    qed (simp add: get)
  qed
  have "above_some bs c"
    using bs(2,3) by (auto simp: above_some_def neq_Nil_conv)
  moreover have "above_some ls q \<or> above_some rs q \<Longrightarrow> above_some bs q" for q
    by (auto simp: above_some_def bs(1))
  moreover have "bt_get (to_add d1) key \<noteq> bt_get (to_add d) key \<Longrightarrow> prefix c (nk_prefix key) \<and> above_some ls (nk_prefix key)"
    "bt_get (to_add d2) key \<noteq> bt_get (to_add d1) key \<Longrightarrow> prefix c (nk_prefix key) \<and> above_some rs (nk_prefix key)" for key
    using l r unfolding reduced_def by (blast dest: append_prefixD)+
  ultimately have "prefix c (nk_prefix key) \<and> above_some bs (nk_prefix key)" if "bt_get (to_add ?d) key \<noteq> bt_get (to_add d) key" for key
    using that by (cases "key = NodeKey c h") (auto simp: get(1), metis+)
  then show ?thesis
    using wf tn look nodes get(2,3) l r unfolding reduced_def by (auto simp del: t_node.simps)
qed

definition share :: "KeyVec \<Rightarrow> 'h Branch list \<Rightarrow> bool" where
  "share c bs \<longleftrightarrow> (\<forall>b \<in> set bs. prefix c (br_prefix b))"

lemma position_bit_total:
  "\<forall>b \<in> set bs. k < length (br_prefix b) \<Longrightarrow> \<exists>r. position_bit k bs = Some r \<and> (r = None \<longrightarrow> (\<forall>b \<in> set bs. \<not> br_prefix b ! k))"
  by (induction bs) (auto simp: index_get_def split: option.splits)

lemma share_bit: "prefix c p \<Longrightarrow> length c < length p \<Longrightarrow> p ! length c = x \<Longrightarrow> prefix (c @ [x]) p"
  by (auto simp: prefix_def nth_append neq_Nil_conv)

lemma share_sorted:
  assumes "prefix (c @ [True]) a" "a \<le> b" "prefix c b" "length c < length b"
  shows "prefix (c @ [True]) (b :: bool list)"
proof -
  obtain a' b' where "a = c @ True # a'" "b = c @ b'" "b' \<noteq> []"
    using assms by (auto simp: prefix_def)
  then show ?thesis
    using assms(2) append_prefix_le [of c "True # a'" b'] by (cases b') auto
qed

lemma antichain_longer:
  assumes "antichain (map br_prefix bs)" "share c bs" "2 \<le> length bs" "b \<in> set bs"
  shows "strict_prefix c (br_prefix b)"
proof -
  have "br_prefix b \<noteq> c"
  proof
    assume eq: "br_prefix b = c"
    then have "br_prefix b' = c" if "b' \<in> set bs" for b'
      using assms that by (fastforce simp: antichain_def share_def)
    then have "set (map br_prefix bs) \<subseteq> {c}"
      by auto
    then have "card (set (map br_prefix bs)) \<le> 1"
      using card_mono [of "{c}"] by simp
    then show False
      using assms(1,3) distinct_card [of "map br_prefix bs"] by (simp add: antichain_def)
  qed
  then show ?thesis
    using assms(2,4) by (auto simp: share_def strict_prefix_def)
qed

definition mergeable :: "'h NodeHasher \<Rightarrow> (KeyVec \<Rightarrow> mtree) \<Rightarrow> KeyVec \<Rightarrow> 'h Branch list \<Rightarrow> bool" where
  "mergeable H sub c bs \<longleftrightarrow> bs \<noteq> [] \<and> sorted (map br_prefix bs) \<and> antichain (map br_prefix bs) \<and>
     (\<forall>b \<in> set bs. sub_ok H sub b) \<and> share c bs"

lemma mergeable_parts:
  assumes "mergeable H sub c bs" "bs = ls @ rs"
  shows "ls \<noteq> [] \<Longrightarrow> share c' ls \<Longrightarrow> mergeable H sub c' ls" "rs \<noteq> [] \<Longrightarrow> share c' rs \<Longrightarrow> mergeable H sub c' rs"
  using assms by (auto simp: mergeable_def antichain_append sorted_append)

text \<open>The first branch with a one at the position splits the list into those with a zero and those with a one.\<close>

lemma position_splits:
  assumes "mergeable H sub c bs" "2 \<le> length bs"
  shows "\<exists>r. position_bit (length c) bs = Some r \<and>
    (case r of None \<Rightarrow> share (c @ [False]) bs
     | Some i \<Rightarrow> i < length bs \<and> share (c @ [False]) (take i bs) \<and> share (c @ [True]) (drop i bs))"
proof -
  have longer: "strict_prefix c (br_prefix b)" "length c < length (br_prefix b)" if "b \<in> set bs" for b
    using antichain_longer [of bs c b] assms that by (auto simp: mergeable_def dest: prefix_length_less)
  then obtain r where r: "position_bit (length c) bs = Some r" "r = None \<longrightarrow> (\<forall>b \<in> set bs. \<not> br_prefix b ! length c)"
    using position_bit_total [of bs "length c"] by blast
  show ?thesis
  proof (cases r)
    case None
    have "share (c @ [False]) bs"
      unfolding share_def using r(2) None share_bit longer by (metis strict_prefix_def)
    then show ?thesis
      using r None by simp
  next
    case (Some i)
    then have i: "i < length bs" "br_prefix (bs ! i) ! length c" "\<And>j. j < i \<Longrightarrow> \<not> br_prefix (bs ! j) ! length c"
      using position_bit_Some [of "length c" bs i] r by auto
    have "share (c @ [False]) (take i bs)"
      unfolding share_def
    proof
      fix b
      assume "b \<in> set (take i bs)"
      then obtain j where "j < i" "b = bs ! j"
        using i(1) by (auto simp: in_set_conv_nth)
      then show "prefix (c @ [False]) (br_prefix b)"
        using i share_bit [of c "br_prefix b" False] longer [of b] by (auto simp: strict_prefix_def)
    qed
    moreover have "share (c @ [True]) (drop i bs)"
      unfolding share_def
    proof
      fix b
      assume "b \<in> set (drop i bs)"
      then obtain j where j: "i + j < length bs" "b = bs ! (i + j)"
        using i(1) by (auto simp: in_set_conv_nth less_diff_conv add.commute)
      have "br_prefix (bs ! i) \<le> br_prefix b"
        using assms(1) j sorted_nth_mono [of "map br_prefix bs" i "i + j"] by (simp add: mergeable_def)
      moreover have "prefix (c @ [True]) (br_prefix (bs ! i))"
        using share_bit [of c "br_prefix (bs ! i)" True] longer [of "bs ! i"] i by (auto simp: strict_prefix_def)
      ultimately show "prefix (c @ [True]) (br_prefix b)"
        using share_sorted longer [of b] j by (auto simp: strict_prefix_def)
    qed
    ultimately show ?thesis
      using r Some i(1) by simp
  qed
qed

lemma bits_after_parts:
  assumes "mergeable H sub c bs" "2 \<le> length bs" "bs = ls @ rs"
  shows "ls \<noteq> [] \<Longrightarrow> bits_after (Suc (length c)) ls < bits_after (length c) bs"
    and "rs \<noteq> [] \<Longrightarrow> bits_after (Suc (length c)) rs < bits_after (length c) bs"
proof -
  have longer: "length c < length (br_prefix b)" if "b \<in> set bs" for b
    using antichain_longer [of bs c b] assms(1,2) that by (auto simp: mergeable_def dest: prefix_length_less)
  show "bits_after (Suc (length c)) ls < bits_after (length c) bs" if "ls \<noteq> []"
    using bits_after_less [OF that, of "length c" bs "[]" rs] longer [of "hd ls"] that assms(3) by simp
  show "bits_after (Suc (length c)) rs < bits_after (length c) bs" if "rs \<noteq> []"
    using bits_after_less [OF that, of "length c" bs ls "[]"] longer [of "hd rs"] that assms(3) by simp
qed

lemma reduce_ok:
  fixes H :: "'h::linorder NodeHasher"
  assumes H: "hasher_ok H" "ids_ok rg"
  shows "mergeable H sub c bs \<Longrightarrow> start \<le> length c \<Longrightarrow> db_inv d \<Longrightarrow>
    \<exists>b d' mt. reduce_to_tree H rg start (length c) bs d = Some (b, d') \<and>
      reduced H rg sub bs c (take start c @ br_prefix b) mt (br_hash b) d d'"
proof (induction "bits_after (length c) bs" arbitrary: c bs start d rule: less_induct)
  case less
  note bs = less.prems(1) and start = less.prems(2) and d = less.prems(3)
  consider b where "bs = [b]" | "2 \<le> length bs"
    using bs by (cases bs rule: remdups_adj.cases) (auto simp: mergeable_def)
  then show ?case
  proof cases
    case (1 b)
    then have b: "sub_ok H sub b" "prefix c (br_prefix b)"
      using bs by (auto simp: mergeable_def share_def)
    then have "take start c @ drop start (br_prefix b) = br_prefix b" "start \<le> length (br_prefix b)"
      using start by (auto simp: prefix_def)
    then show ?thesis
      using reduced_single [OF b d, of rg] by (auto simp: 1 reduce_to_tree.simps kv_from_def)
  next
    case 2
    then obtain b0 b1 bs' where b01: "bs = b0 # b1 # bs'"
      by (cases bs rule: remdups_adj.cases) auto
    have longer: "strict_prefix c (br_prefix b)" if "b \<in> set bs" for b
      using antichain_longer [of bs c b] bs 2 that by (auto simp: mergeable_def)
    have same: "\<exists>b d' mt. reduce_to_tree H rg start (length c + 1) bs d = Some (b, d') \<and>
        reduced H rg sub bs c (take start c @ br_prefix b) mt (br_hash b) d d'" if "share (c @ [x]) bs" for x
    proof -
      have "mergeable H sub (c @ [x]) bs"
        using bs that by (simp add: mergeable_def)
      moreover have "bits_after (length (c @ [x])) bs < bits_after (length c) bs"
        using bits_after_parts(1) [OF bs 2, of bs "[]"] bs by (simp add: mergeable_def)
      ultimately show ?thesis
        using less.hyps [of "c @ [x]" bs start d] start d by (fastforce dest: reduced_weaken)
    qed
    from position_splits [OF bs 2] obtain r where r: "position_bit (length c) bs = Some r"
      "case r of None \<Rightarrow> share (c @ [False]) bs
       | Some i \<Rightarrow> i < length bs \<and> share (c @ [False]) (take i bs) \<and> share (c @ [True]) (drop i bs)"
      by blast
    show ?thesis
    proof (cases "r = None \<or> r = Some 0")
      case True
      then have "\<exists>x. share (c @ [x]) bs"
        using r(2) by auto
      moreover have "reduce_to_tree H rg start (length c) bs d = reduce_to_tree H rg start (length c + 1) bs d"
        using True r(1) by (subst reduce_to_tree.simps) (auto simp: b01)
      ultimately show ?thesis
        using same by auto
    next
      case False
      then obtain i where i: "r = Some i" "0 < i" "i < length bs" "share (c @ [False]) (take i bs)" "share (c @ [True]) (drop i bs)"
        using r(2) by (cases r) auto
      let ?l = "take i bs" and ?r = "drop i bs" and ?c = "length c"
      have parts: "bs = ?l @ ?r" "?l \<noteq> []" "?r \<noteq> []"
        using i 2 by auto
      obtain lb d1 lt where l: "reduce_to_tree H rg ?c (?c + 1) ?l d = Some (lb, d1)"
        "reduced H rg sub ?l (c @ [False]) (c @ br_prefix lb) lt (br_hash lb) d d1"
        using less.hyps [of "c @ [False]" ?l ?c d] bits_after_parts(1) [OF bs 2 parts(1,2)]
          mergeable_parts(1) [OF bs parts(1,2) i(4)] d by auto
      then have "db_inv d1"
        by (simp add: reduced_def)
      then obtain rb d2 rt where rr: "reduce_to_tree H rg ?c (?c + 1) ?r d1 = Some (rb, d2)"
        "reduced H rg sub ?r (c @ [True]) (c @ br_prefix rb) rt (br_hash rb) d1 d2"
        using less.hyps [of "c @ [True]" ?r ?c d1] bits_after_parts(2) [OF bs 2 parts(1,3)]
          mergeable_parts(2) [OF bs parts(1,3) i(5)] by auto
      have dirs: "dir_ok False (Some lb)" "dir_ok True (Some rb)" "branch_dir lb = Some Left"
        using l(2) rr(2) by (auto simp: reduced_def dir_ok_def branch_ok_def branch_dir_def index_get_def dir_from_def prefix_def)
      obtain h n where hn: "new_with_hash H rg (c = []) (Some lb) (Some rb) = Some (h, n)"
        using new_with_hash_total [OF H dirs(1,2), of "c = []"] by auto
      have "construct H rg (?c = 0) (Some lb) (Some rb) = Some (h, n)"
        using hn dirs(3) by (simp add: construct_def)
      moreover have "kv_to (br_prefix b0) ?c = Some c" "kv_from c start = Some (drop start c)"
        using longer [of b0] start by (auto simp: b01 kv_to_def kv_from_def strict_prefix_def prefix_def)
      ultimately have "reduce_to_tree H rg start ?c bs d =
          Some (\<lparr>br_prefix = drop start c, br_hash = h\<rparr>, db_add (NodeKey c h) (Interior n) d2)"
        using r(1) i(1,2) l(1) rr(1) by (subst reduce_to_tree.simps) (simp add: b01)
      moreover have "set bs = set ?l \<union> set ?r"
        by (metis parts(1) set_append)
      then have "reduced H rg sub bs c c (MNode (MBranch (br_prefix lb) lt) (MBranch (br_prefix rb) rt)) h d
          (db_add (NodeKey c h) (Interior n) d2)"
        using reduced_join [OF l(2) rr(2) _ _ longer, of h n] hn b01 by simp
      ultimately show ?thesis
        by auto
    qed
  qed
qed

definition rebuilt ::
  "'h::linorder NodeHasher \<Rightarrow> OwnedRange \<Rightarrow> (KeyVec \<Rightarrow> mtree) \<Rightarrow> 'h Branch list \<Rightarrow> mtree \<Rightarrow> 'h \<Rightarrow> 'h DeltaBuilder \<Rightarrow> 'h DeltaBuilder \<Rightarrow> bool" where
  "rebuilt H rg sub bs mt h d d' \<longleftrightarrow> wf_tree True 256 mt \<and> (\<exists>n. t_node H rg True [] mt = Some (h, n)) \<and>
     (\<forall>k v. length k = 256 \<longrightarrow> (t_lookup mt k = Some v \<longleftrightarrow> in_subs sub bs k v)) \<and>
     (\<forall>e \<in> set (t_nodes H rg True [] mt). bt_get (to_add d') (fst e) = Some (snd e) \<or> e \<in> sub_nodes H rg sub bs) \<and>
     db_inv d' \<and> to_remove d' = to_remove d \<and>
     (\<forall>key. bt_get (to_add d') key \<noteq> bt_get (to_add d) key \<longrightarrow> nk_prefix key = [] \<or> above_some bs (nk_prefix key))"

lemma construct_swap: "construct H rg root (Some b) None = construct H rg root None (Some b)"
  by (auto simp: construct_def intro!: Option.bind_cong)

lemma rebuilt_root:
  assumes H: "hasher_ok H" "ids_ok rg" and r: "reduced H rg sub bs [] (br_prefix b) mt (br_hash b) d d1" and ne: "br_prefix b \<noteq> []"
  shows "\<exists>h i. construct H rg True (Some b) None = Some (h, i) \<and>
    rebuilt H rg sub bs (root_of (MBranch (br_prefix b) mt)) h d (db_add (NodeKey [] h) (Interior i) d1)"
proof -
  let ?b = "MBranch (br_prefix b) mt" and ?t = "root_of (MBranch (br_prefix b) mt)"
  have wf: "wf_branch (hd (br_prefix b)) 256 ?b" "wf_tree True 256 ?t"
    using r ne wf_root_of [of 256 ?b] by (auto simp: reduced_def)
  have tb: "t_branch H rg [] ?b = Some (Some b)"
    using r ne by (auto simp: reduced_def)
  obtain h n where tn: "t_node H rg True [] ?t = Some (h, n)"
    using t_node_total(1) [OF H wf(2)] by blast
  obtain i where i: "n = Interior i" "construct H rg True (Some b) None = Some (h, i)"
    using construct_root_of(2) [OF tb wf(1) tn] by (auto simp: construct_swap)
  let ?d = "db_add (NodeKey [] h) (Interior i) d1"
  have get: "bt_get (to_add ?d) = (bt_get (to_add d1))(NodeKey [] h \<mapsto> Interior i)" "to_remove ?d = to_remove d1" "db_inv ?d"
    using r by (auto simp: reduced_def db_add_def db_inv_def bt.get_insert bt.invar_insert)
  define a where "a = (if hd (br_prefix b) then MNone else ?b)"
  define c where "c = (if hd (br_prefix b) then ?b else MNone)"
  have ac: "?t = MNode a c" "set (b_nodes H rg [] a) \<union> set (b_nodes H rg [] c) = set (b_nodes H rg [] ?b)"
    using ne by (cases "br_prefix b"; simp add: root_of_def a_def c_def)+
  have nodes: "bt_get (to_add ?d) (fst e) = Some (snd e) \<or> e \<in> sub_nodes H rg sub bs" if e: "e \<in> set (t_nodes H rg True [] ?t)" for e
  proof (cases "e = (NodeKey [] h, Interior i)")
    case False
    then have e': "e \<in> set (t_nodes H rg False (br_prefix b) mt)"
      using e ac(2) unfolding ac(1) set_t_nodes [OF tn [unfolded ac(1)]] i by auto
    then have "nk_prefix (fst e) \<noteq> []"
      using t_nodes_prefix(1) [OF e'] ne by auto
    then show ?thesis
      using r e' ne by (auto simp: reduced_def get(1))
  qed (simp add: get)
  have "t_lookup ?t k = Some v \<longleftrightarrow> in_subs sub bs k v" if "length k = 256" for k v
  proof -
    have "k \<noteq> []"
      using that by auto
    then show ?thesis
      using r that by (auto simp: b_lookup_root_of reduced_def)
  qed
  then show ?thesis
    using i wf(2) tn nodes get(2,3) r unfolding rebuilt_def
    by (auto simp: get(1) reduced_def simp del: t_node.simps)
qed

lemma merge_branches_ok:
  assumes H: "hasher_ok H" "ids_ok rg" and bs: "bs = [] \<or> mergeable H sub [] bs" and d: "db_inv d"
  shows "\<exists>h d' mt. merge_branches H rg bs d = Some (h, d') \<and> rebuilt H rg sub bs mt h d d'"
proof (cases "bs = []")
  case True
  obtain h i where hi: "new_with_hash H rg True None None = Some (h, i)"
    using new_with_hash_total [OF H, of None None True] by (auto simp: dir_ok_def)
  then have "t_node H rg True [] (MNode MNone MNone) = Some (h, Interior i)"
    by simp
  moreover have "bt_get (to_add (db_add (NodeKey [] h) (Interior i) d)) = (bt_get (to_add d))(NodeKey [] h \<mapsto> Interior i)"
    using d by (auto simp: db_add_def db_inv_def bt.get_insert)
  moreover have "to_remove (db_add k n d) = to_remove d" for k n
    by (simp add: db_add_def)
  ultimately have "rebuilt H rg sub bs (MNode MNone MNone) h d (db_add (NodeKey [] h) (Interior i) d)"
    using d by (auto simp: rebuilt_def True in_subs_def opt_list_def split: list.splits simp del: t_node.simps)
  then show ?thesis
    using hi by (auto simp: merge_branches_def True)
next
  case False
  then obtain b d1 mt where r: "reduce_to_tree H rg 0 0 bs d = Some (b, d1)" "reduced H rg sub bs [] (br_prefix b) mt (br_hash b) d d1"
    using reduce_ok [OF H, of sub "[]" bs 0 d] bs d by auto
  show ?thesis
  proof (cases "br_prefix b = []")
    case True
    then have "rebuilt H rg sub bs mt (br_hash b) d d1"
      using r(2) by (auto simp: reduced_def rebuilt_def)
    then show ?thesis
      using r(1) False True by (auto simp: merge_branches_def)
  next
    case ne: False
    then show ?thesis
      using rebuilt_root [OF H r(2) ne] r(1) False by (auto simp: merge_branches_def)
  qed
qed

section \<open>Two adjacent trees\<close>

lemma wf_nonempty:
  "wf_tree False d t \<Longrightarrow> \<exists>k. length k = d \<and> t_lookup t k \<noteq> None"
  "wf_branch dir d b \<Longrightarrow> b \<noteq> MNone \<Longrightarrow> \<exists>k. length k = d \<and> k \<noteq> [] \<and> hd k = dir \<and> b_lookup b k \<noteq> None"
proof (induction t and b arbitrary: d and dir d)
  case (MNode l r)
  then obtain k where "length k = d" "k \<noteq> []" "hd k = False" "b_lookup l k \<noteq> None"
    using MNode.IH(1) [of False d] by auto
  then show ?case
    by (intro exI [of _ k]) (cases k; auto)
next
  case (MBranch p t)
  then obtain k where "length k = d - length p" "t_lookup t k \<noteq> None"
    using MBranch.IH [of "d - length p"] by (metis wf_branch.simps(2))
  then show ?case
    using MBranch.prems by (intro exI [of _ "p @ k"]) auto
qed auto

lemma offs_has_key:
  assumes "wf_tree True 256 t" "length k = 256" "(q, s) \<in> set (t_offs [] t k)"
  shows "\<exists>k0. length k0 = 256 \<and> prefix q k0 \<and> t_lookup t k0 \<noteq> None"
proof -
  have q: "length q \<le> 256" "wf_tree False (256 - length q) s"
    using offs_wf(1) [of True k t q s "[]"] assms by auto
  obtain k1 v where k1: "length k1 = 256 - length q" "t_lookup s k1 = Some v"
    using wf_nonempty(1) [OF q(2)] by auto
  then have "t_lookup t (q @ k1) = Some v"
    using offs_lookup(1) [of True k t "q @ k1" v "[]"] assms q(1) by force
  then show ?thesis
    using k1 q(1) by (intro exI [of _ "q @ k1"]) auto
qed

lemma offs_one_side:
  assumes "wf_tree True 256 t" "length k = 256" "(q, s) \<in> set (t_offs [] t k)" "length k' = 256" "prefix q k'"
  shows "(\<And>k0. length k0 = 256 \<Longrightarrow> t_lookup t k0 \<noteq> None \<Longrightarrow> k0 \<le> k) \<Longrightarrow> k' \<le> k"
    and "(\<And>k0. length k0 = 256 \<Longrightarrow> t_lookup t k0 \<noteq> None \<Longrightarrow> k \<le> k0) \<Longrightarrow> k \<le> k'"
proof -
  obtain k0 where k0: "length k0 = 256" "prefix q k0" "t_lookup t k0 \<noteq> None"
    using offs_has_key [OF assms(1-3)] by blast
  have q: "length q \<le> 256" "prefix q k \<longrightarrow> q = k"
    using offs_wf(1) [of True k t q s "[]"] assms(1-3) by auto
  have "k0 < k \<longleftrightarrow> k' < k" "k0 = k \<longleftrightarrow> k' = k" if "\<not> prefix q k"
    using prefix_less_iff [OF that] q(1) assms(2,4,5) k0 that by (auto simp: prefix_def)
  moreover have "k' = k" if "q = k"
    using that assms(2,4,5) by (auto simp: prefix_def)
  ultimately show "(\<And>k0. length k0 = 256 \<Longrightarrow> t_lookup t k0 \<noteq> None \<Longrightarrow> k0 \<le> k) \<Longrightarrow> k' \<le> k"
    "(\<And>k0. length k0 = 256 \<Longrightarrow> t_lookup t k0 \<noteq> None \<Longrightarrow> k \<le> k0) \<Longrightarrow> k \<le> k'"
    using q(2) k0(1,3) by (metis order_le_less order_less_le_trans linorder_not_le)+
qed

lemma offs_not_root:
  assumes "wf_tree True 256 t" "length k = 256" "(q, s) \<in> set (t_offs [] t k)"
  shows "q \<noteq> []"
proof -
  obtain l r where t: "t = MNode l r"
    using assms(1) by (cases t) auto
  obtain x ks where k: "k = x # ks"
    using assms(2) by (cases k) auto
  have "\<exists>dir. prefix ([] @ [dir]) (fst (q, s))"
    using assms(1,3) branch_heads(1) [of "(q, s)" "[]"] branch_heads(2) [of "(q, s)" "[]" _ k]
    unfolding t k by (auto split: if_splits) blast+
  then show ?thesis
    by auto
qed

lemma offs_nodes:
  "(q, s) \<in> set (t_offs pre t k) \<Longrightarrow> \<not> root \<or> (\<exists>l r. t = MNode l r) \<Longrightarrow>
     set (t_nodes H rg False q s) \<subseteq> set (t_nodes H rg root pre t)"
  "(q, s) \<in> set (b_offs pre b k) \<Longrightarrow> set (t_nodes H rg False q s) \<subseteq> set (b_nodes H rg pre b)"
proof (induction t and b arbitrary: root pre k and pre k)
  case (MNode l r)
  have "(q, s) \<in> set (b_list pre b) \<Longrightarrow> set (t_nodes H rg False q s) \<subseteq> set (b_nodes H rg pre b)" for b
    by (cases b) auto
  then show ?case
    using MNode by (auto simp del: t_node.simps split: list.splits if_splits) blast+
next
  case (MBranch p t)
  then show ?case
    using MBranch.IH [of "pre @ p" "drop (length p) k" False] by (auto split: if_splits)
qed auto

text \<open>
  A tree whose last record is at most \<open>k1\<close> and one whose first record is at least \<open>k2\<close>, and the
  subtrees off the paths of these two keys.
\<close>

definition facing :: "mtree \<Rightarrow> KeyVec \<Rightarrow> mtree \<Rightarrow> KeyVec \<Rightarrow> bool" where
  "facing t1 k1 t2 k2 \<longleftrightarrow> wf_tree True 256 t1 \<and> wf_tree True 256 t2 \<and> length k1 = 256 \<and> length k2 = 256 \<and> k1 < k2 \<and>
     (\<forall>k. length k = 256 \<longrightarrow> t_lookup t1 k \<noteq> None \<longrightarrow> k \<le> k1) \<and> (\<forall>k. length k = 256 \<longrightarrow> t_lookup t2 k \<noteq> None \<longrightarrow> k2 \<le> k)"

definition both_offs :: "mtree \<Rightarrow> KeyVec \<Rightarrow> mtree \<Rightarrow> KeyVec \<Rightarrow> (KeyVec \<times> mtree) list" where
  "both_offs t1 k1 t2 k2 = t_offs [] t1 k1 @ t_offs [] t2 k2"

lemma facing_sides:
  assumes "facing t1 k1 t2 k2" "length k = 256" "prefix q k"
  shows "(q, s) \<in> set (t_offs [] t1 k1) \<Longrightarrow> k \<le> k1" "(q, s) \<in> set (t_offs [] t2 k2) \<Longrightarrow> k2 \<le> k"
  using offs_one_side(1) [of t1 k1 q s k] offs_one_side(2) [of t2 k2 q s k] assms by (auto simp: facing_def)

lemma both_offs_wf:
  assumes "facing t1 k1 t2 k2" "(q, s) \<in> set (both_offs t1 k1 t2 k2)"
  shows "q \<noteq> []" "length q \<le> 256" "wf_tree False (256 - length q) s"
  using assms offs_not_root [of t1 k1 q s] offs_not_root [of t2 k2 q s]
    offs_wf(1) [of True k1 t1 q s "[]"] offs_wf(1) [of True k2 t2 q s "[]"] by (auto simp: both_offs_def facing_def)

lemma both_offs_chain:
  assumes F: "facing t1 k1 t2 k2"
  shows "antichain (map fst (both_offs t1 k1 t2 k2))"
proof -
  have "\<not> prefix q1 q2 \<and> \<not> prefix q2 q1"
    if q: "(q1, s1) \<in> set (t_offs [] t1 k1)" "(q2, s2) \<in> set (t_offs [] t2 k2)" for q1 s1 q2 s2
  proof -
    have "k2 \<le> k1" if "prefix q1 k" "prefix q2 k" "length k = 256" for k
      using facing_sides(1) [OF F that(3,1) q(1)] facing_sides(2) [OF F that(3,2) q(2)] by simp
    then have no: "\<not> (prefix q1 k \<and> prefix q2 k \<and> length k = 256)" for k
      using F linorder_not_less unfolding facing_def by metis
    have "length q1 \<le> 256" "length q2 \<le> 256"
      using both_offs_wf(2) [OF F] q by (auto simp: both_offs_def)
    then show ?thesis
      using no [of "q1 @ replicate (256 - length q1) False"] no [of "q2 @ replicate (256 - length q2) False"]
      by auto
  qed
  then show ?thesis
    using offs_antichain(1) [of True k1 t1 "[]"] offs_antichain(1) [of True k2 t2 "[]"] F
    unfolding both_offs_def map_append antichain_append facing_def by auto
qed

lemma both_offs_lookup:
  assumes "facing t1 k1 t2 k2" "length k = 256"
  shows "t_lookup t1 k = Some v \<or> t_lookup t2 k = Some v \<longleftrightarrow>
    (\<exists>(q, s) \<in> set (both_offs t1 k1 t2 k2). prefix q k \<and> t_lookup s (drop (length q) k) = Some v)"
  using offs_lookup(1) [of True k1 t1 k v "[]"] offs_lookup(1) [of True k2 t2 k v "[]"] assms
  by (simp add: both_offs_def facing_def bex_Un)

lemma both_offs_nodes:
  assumes "facing t1 k1 t2 k2" "(q, s) \<in> set (both_offs t1 k1 t2 k2)" "e \<in> set (t_nodes H rg False q s)"
  shows "e \<in> set (t_nodes H rg1 True [] t1) \<or> e \<in> set (t_nodes H rg2 True [] t2)"
proof -
  have "\<exists>l r. t1 = MNode l r" "\<exists>l r. t2 = MNode l r"
    using assms(1) by (cases t1; cases t2; simp add: facing_def)+
  then have "set (t_nodes H rg1 False q s) \<subseteq> set (t_nodes H rg1 True [] t1) \<or>
      set (t_nodes H rg2 False q s) \<subseteq> set (t_nodes H rg2 True [] t2)"
    using assms(2) offs_nodes(1) [of q s "[]" t1 k1 True H rg1] offs_nodes(1) [of q s "[]" t2 k2 True H rg2]
    unfolding both_offs_def set_append by blast
  then show ?thesis
    using assms(3) nonroot_nodes(1) [of H rg q s rg1] nonroot_nodes(1) [of H rg q s rg2] by auto
qed

lemma both_offs_path:
  assumes F: "facing t1 k1 t2 k2" and q: "(q, s) \<in> set (both_offs t1 k1 t2 k2)" "prefix q p"
  shows "\<not> strict_prefix p k1" "\<not> strict_prefix p k2"
proof -
  have len: "length k1 = 256" "length k2 = 256" "k1 < k2" "wf_tree True (length k1) t1" "wf_tree True (length k2) t2"
    using F by (simp_all add: facing_def)
  have below: "prefix q k \<and> q \<noteq> k" if "strict_prefix p k" for k
    using that q(2) by (metis prefix_order.dual_order.strict_trans1 strict_prefixE' strict_prefix_def)
  show "\<not> strict_prefix p k1"
    using below [of k1] q(1) offs_wf(1) [OF len(4), of q s "[]"] facing_sides(2) [OF F len(1), of q s] len(3)
    by (auto simp: both_offs_def)
  show "\<not> strict_prefix p k2"
    using below [of k2] q(1) offs_wf(1) [OF len(5), of q s "[]"] facing_sides(1) [OF F len(2), of q s] len(3)
    by (auto simp: both_offs_def)
qed

section \<open>The merged tree\<close>

definition merged ::
  "'h::linorder NodeHasher \<Rightarrow> OwnedRange \<Rightarrow> OwnedRange \<Rightarrow> OwnedRange \<Rightarrow> mtree \<Rightarrow> mtree \<Rightarrow> mtree \<Rightarrow> 'h \<Rightarrow> 'h StoreDelta \<Rightarrow> bool" where
  "merged H rg1 rg2 rg t1 t2 t h delta \<longleftrightarrow> wf_tree True 256 t \<and> (\<exists>n. t_node H rg True [] t = Some (h, n)) \<and>
     (\<forall>k v. length k = 256 \<longrightarrow> (t_lookup t k = Some v \<longleftrightarrow> t_lookup t1 k = Some v \<or> t_lookup t2 k = Some v)) \<and>
     (\<forall>st. holds_tree H rg1 st t1 \<longrightarrow> holds_tree H rg2 st t2 \<longrightarrow> holds_tree H rg (apply_delta delta st) t)"

lemma hashed_prefixes: "list_all2 (hashed H) os bs \<Longrightarrow> map br_prefix bs = map fst os"
  by (induction os bs rule: list_all2_induct) (auto simp: hashed_def)

lemma collected_ok:
  assumes F: "facing t1 k1 t2 k2" and bs: "list_all2 (hashed H) (both_offs t1 k1 t2 k2) bs"
  defines "sub \<equiv> the \<circ> map_of (both_offs t1 k1 t2 k2)"
  shows "o' \<in> set (both_offs t1 k1 t2 k2) \<Longrightarrow> sub (fst o') = snd o'"
    and "\<And>b. b \<in> set bs \<Longrightarrow> sub_ok H sub b \<and> (br_prefix b, sub (br_prefix b)) \<in> set (both_offs t1 k1 t2 k2)"
    and "length k = 256 \<Longrightarrow> in_subs sub bs k v \<longleftrightarrow> t_lookup t1 k = Some v \<or> t_lookup t2 k = Some v"
    and "sort_key br_prefix bs = [] \<or> mergeable H sub [] (sort_key br_prefix bs)"
proof -
  note chain = both_offs_chain [OF F] and keys = hashed_prefixes [OF bs]
  have sub: "sub (fst o') = snd o'" if "o' \<in> set (both_offs t1 k1 t2 k2)" for o'
  proof -
    have "map_of (both_offs t1 k1 t2 k2) (fst o') = Some (snd o')"
      by (rule map_of_is_SomeI) (use chain that in \<open>simp_all add: antichain_def\<close>)
    then show ?thesis
      by (simp add: sub_def)
  qed
  then show "o' \<in> set (both_offs t1 k1 t2 k2) \<Longrightarrow> sub (fst o') = snd o'"
    by blast
  have off: "\<exists>o' \<in> set (both_offs t1 k1 t2 k2). hashed H o' b" if "b \<in> set bs" for b
    using bs that by (auto simp: list_all2_conv_all_nth in_set_conv_nth) (metis nth_mem)
  show ok: "sub_ok H sub b \<and> (br_prefix b, sub (br_prefix b)) \<in> set (both_offs t1 k1 t2 k2)" if b: "b \<in> set bs" for b
  proof -
    obtain q s where qs: "(q, s) \<in> set (both_offs t1 k1 t2 k2)" "hashed H (q, s) b"
      using off [OF b] by auto
    then have "br_prefix b = q" "sub q = s"
      using sub [OF qs(1)] by (auto simp: hashed_def)
    then show ?thesis
      using both_offs_wf [OF F qs(1)] qs by (simp add: sub_ok_def)
  qed
  have "in_subs sub bs k v \<longleftrightarrow> (\<exists>(q, s) \<in> set (both_offs t1 k1 t2 k2). prefix q k \<and> t_lookup s (drop (length q) k) = Some v)" for k
  proof -
    have "in_subs sub bs k v \<longleftrightarrow> (\<exists>q \<in> set (map br_prefix bs). prefix q k \<and> t_lookup (sub q) (drop (length q) k) = Some v)"
      by (auto simp: in_subs_def)
    then show ?thesis
      unfolding keys using sub by fastforce
  qed
  then show "length k = 256 \<Longrightarrow> in_subs sub bs k v \<longleftrightarrow> t_lookup t1 k = Some v \<or> t_lookup t2 k = Some v"
    using both_offs_lookup [OF F] by blast
  have "antichain (map br_prefix (sort_key br_prefix bs)) = antichain (map br_prefix bs)"
    by (simp add: antichain_def distinct_map)
  then have "antichain (map br_prefix (sort_key br_prefix bs))"
    using chain unfolding keys by blast
  then show "sort_key br_prefix bs = [] \<or> mergeable H sub [] (sort_key br_prefix bs)"
    using ok by (auto simp: mergeable_def share_def)
qed

lemma rebuilt_merged:
  assumes F: "facing t1 k1 t2 k2" and bs: "list_all2 (hashed H) (both_offs t1 k1 t2 k2) bs"
    and r: "rebuilt H rg (the \<circ> map_of (both_offs t1 k1 t2 k2)) (sort_key br_prefix bs) t h d2 d3"
    and d: "to_add d2 = []" "\<And>key. bt_get (to_remove d2) key \<noteq> None \<Longrightarrow> strict_prefix (nk_prefix key) k1 \<or> strict_prefix (nk_prefix key) k2"
  shows "merged H rg1 rg2 rg t1 t2 t h (db_build d3)"
proof -
  let ?offs = "both_offs t1 k1 t2 k2"
  let ?sub = "the \<circ> map_of ?offs"
  note col = collected_ok [OF F bs]
  have kept: "apply_delta (db_build d3) st (fst e) = Some (snd e)"
    if e: "e \<in> sub_nodes H rg ?sub (sort_key br_prefix bs)" and st: "holds_tree H rg1 st t1" "holds_tree H rg2 st t2" for e st
  proof -
    obtain b where b: "b \<in> set bs" "e \<in> set (t_nodes H rg False (br_prefix b) (?sub (br_prefix b)))"
      using e by (auto simp: sub_nodes_def)
    note off = col(2) [OF b(1), THEN conjunct2]
    have "st (fst e) = Some (snd e)"
      using both_offs_nodes [OF F off b(2), of rg1 rg2] st by (auto simp: holds_tree_def list_all_iff)
    moreover have below: "prefix (br_prefix b) (nk_prefix (fst e))"
      by (rule t_nodes_prefix(1) [OF b(2)])
    then have "bt_get (to_remove d2) (fst e) = None"
      using d(2) both_offs_path [OF F off below] by blast
    moreover have "\<not> strict_prefix (nk_prefix (fst e)) (br_prefix b')" if "b' \<in> set bs" for b'
    proof
      assume "strict_prefix (nk_prefix (fst e)) (br_prefix b')"
      then have "prefix (br_prefix b) (br_prefix b')" "br_prefix b \<noteq> br_prefix b'"
        using below by (auto dest: prefix_order.le_less_trans simp: strict_prefix_def)
      then show False
        using both_offs_chain [OF F, folded hashed_prefixes [OF bs]] b(1) that by (simp add: antichain_def)
    qed
    then have "bt_get (to_add d3) (fst e) = None"
    proof -
      have "nk_prefix (fst e) \<noteq> []"
        using below col(2) [OF b(1)] by (auto simp: sub_ok_def)
      moreover assume "\<And>b'. b' \<in> set bs \<Longrightarrow> \<not> strict_prefix (nk_prefix (fst e)) (br_prefix b')"
      then have "\<not> above_some (sort_key br_prefix bs) (nk_prefix (fst e))"
        by (simp add: above_some_def)
      ultimately have "bt_get (to_add d3) (fst e) = bt_get (to_add d2) (fst e)"
        using r unfolding rebuilt_def by blast
      then show ?thesis
        by (simp add: d(1) bt_get_def)
    qed
    ultimately show ?thesis
      using r by (simp add: rebuilt_def apply_db_build)
  qed
  have "holds_tree H rg (apply_delta (db_build d3) st) t" if "holds_tree H rg1 st t1" "holds_tree H rg2 st t2" for st
    unfolding holds_tree_def list_all_iff
  proof (intro ballI, clarify)
    fix key n
    assume "(key, n) \<in> set (t_nodes H rg True [] t)"
    then have "bt_get (to_add d3) key = Some n \<or> (key, n) \<in> sub_nodes H rg ?sub (sort_key br_prefix bs)"
      using r unfolding rebuilt_def by fastforce
    moreover have "db_inv d3"
      using r by (simp add: rebuilt_def)
    then have "bt_get (to_add d3) key = Some n \<Longrightarrow> apply_delta (db_build d3) st key = Some n"
      by (simp add: apply_db_build)
    ultimately show "apply_delta (db_build d3) st key = Some n"
      using kept [of "(key, n)" st] that by auto
  qed
  moreover have "in_subs ?sub (sort_key br_prefix bs) k v = in_subs ?sub bs k v" for k v
    by (simp add: in_subs_def)
  ultimately show ?thesis
    using r col(3) unfolding merged_def rebuilt_def by simp
qed

lemma merged_ok:
  fixes H :: "'h::linorder NodeHasher"
  assumes H: "hasher_ok H" "ids_ok rg" and F: "facing t1 k1 t2 k2"
    and t: "t_node H rg1 True [] t1 = Some (h1, n1)" "t_node H rg2 True [] t2 = Some (h2, n2)"
  shows "\<exists>bs1 d1 bs2 d2 h d3 t. merge_collect (t_steps H rg1 True [] t1 k1) [] db_new = Some (bs1, d1) \<and>
    merge_collect (t_steps H rg2 True [] t2 k2) bs1 d1 = Some (bs2, d2) \<and>
    merge_branches H rg (sort_key br_prefix bs2) d2 = Some (h, d3) \<and> merged H rg1 rg2 rg t1 t2 t h (db_build d3)"
proof -
  obtain l1 r1 l2 r2 where m: "t1 = MNode l1 r1" "t2 = MNode l2 r2"
    using F by (cases t1; cases t2) (auto simp: facing_def)
  obtain i1 i2 where i: "n1 = Interior i1" "n2 = Interior i2"
    using t unfolding m by (meson t_node_interior)
  have wf: "wf_tree True (length k1) (MNode l1 r1)" "wf_tree True (length k2) (MNode l2 r2)"
    "length ([] @ k1) = 256" "length ([] @ k2) = 256"
    using F by (auto simp: facing_def m)
  obtain bs1 d1 where c1: "merge_collect (t_steps H rg1 True [] t1 k1) [] db_new = Some ([] @ bs1, d1)"
    "list_all2 (hashed H) (t_offs [] t1 k1) bs1" "removes_path ([] @ k1) db_new d1"
    using collect_ok [OF t(1) [unfolded m i] wf(1,3), of db_new "[]"] unfolding m by auto
  then have "db_inv d1"
    by (simp add: removes_path_def)
  then obtain bs2 d2 where c2: "merge_collect (t_steps H rg2 True [] t2 k2) bs1 d1 = Some (bs1 @ bs2, d2)"
    "list_all2 (hashed H) (t_offs [] t2 k2) bs2" "removes_path ([] @ k2) d1 d2"
    using collect_ok [OF t(2) [unfolded m i] wf(2,4), of d1 bs1] unfolding m by auto
  let ?sub = "the \<circ> map_of (both_offs t1 k1 t2 k2)"
  have bs: "list_all2 (hashed H) (both_offs t1 k1 t2 k2) (bs1 @ bs2)"
    unfolding both_offs_def by (rule list_all2_appendI [OF c1(2) c2(2)])
  have d: "db_inv d2" "to_add d2 = []"
    "\<And>key. bt_get (to_remove d2) key \<noteq> None \<Longrightarrow> strict_prefix (nk_prefix key) k1 \<or> strict_prefix (nk_prefix key) k2"
    using c1(3) c2(3) by (auto simp: removes_path_def db_new_def bt_get_def)
  obtain h d3 t where "merge_branches H rg (sort_key br_prefix (bs1 @ bs2)) d2 = Some (h, d3)"
    "rebuilt H rg ?sub (sort_key br_prefix (bs1 @ bs2)) t h d2 d3"
    using merge_branches_ok [OF H collected_ok(4) [OF F bs] d(1)] by blast
  then have "merged H rg1 rg2 rg t1 t2 t h (db_build d3)"
    "merge_branches H rg (sort_key br_prefix (bs1 @ bs2)) d2 = Some (h, d3)"
    using rebuilt_merged [OF F bs _ d(2,3), of rg t h d3] by auto
  then show ?thesis
    using c1(1) c2(1) unfolding append_Nil by blast
qed

section \<open>Merging adjacent partitions\<close>

text \<open>
  The record of a proof for a tree that is merged with the tree of another range: one of its own
  range such that no record of the tree is nearer to the other range.
\<close>

definition facing_key :: "mtree \<Rightarrow> OwnedRange \<Rightarrow> OwnedRange \<Rightarrow> RecordId \<Rightarrow> bool" where
  "facing_key t rg other key \<longleftrightarrow> key \<in> range_set rg \<and>
     (\<forall>k. rid_ok k \<longrightarrow> t_lookup t (rid_bits k) \<noteq> None \<longrightarrow> (if rg_start rg < rg_start other then k \<le> key else key \<le> k))"

lemma facing_key_bits:
  assumes "facing_key t rg other key" "length k = 256" "t_lookup t k \<noteq> None"
  shows "if rg_start rg < rg_start other then k \<le> rid_bits key else rid_bits key \<le> k"
proof -
  let ?r = "RecordId (bytes_of_bits k)"
  have "rid_bits ?r = k" "rid_ok ?r"
    using assms(2) bits_of_bytes_bits [of k 32]
    by (simp_all add: rid_bits_def rid_ok_def record_id_num_bytes_def length_bytes_of_bits)
  then show ?thesis
    using assms rid_bits_less [of ?r key] rid_bits_less [of key ?r]
    by (force simp: facing_key_def range_set_def not_less [symmetric])
qed

lemma facing_ranges:
  assumes "wf_tree True 256 t1" "wf_tree True 256 t2" "facing_key t1 rg1 rg2 k1" "facing_key t2 rg2 rg1 k2"
    and "range_ok rg1" "range_ok rg2" "record_id_next (rg_end rg1) = Some (rg_start rg2)" "rg_start rg1 < rg_start rg2"
  shows "facing t1 (rid_bits k1) t2 (rid_bits k2)"
proof -
  have ok: "rid_ok k1" "rid_ok k2" "k1 \<le> rg_end rg1" "rg_start rg2 \<le> k2"
    using assms(3,4) by (simp_all add: facing_key_def range_set_def)
  moreover have "rg_end rg1 < rg_start rg2"
    using assms(5-7) by (simp add: range_ok_def rid_less record_id_next_eq)
  ultimately have "rid_bits k1 < rid_bits k2"
    by (simp add: rid_bits_less)
  moreover have "\<not> rg_start rg2 < rg_start rg1"
    using assms(8) by simp
  ultimately show ?thesis
    using assms(1,2,8) ok facing_key_bits [OF assms(3)] facing_key_bits [OF assms(4)]
    by (simp add: facing_def length_rid_bits)
qed

lemma range_join_sides:
  assumes "range_ok rg1" "range_ok rg2" "range_join rg1 rg2 = Some (Some rg)"
  shows "record_id_next (rg_end rg1) = Some (rg_start rg2) \<and> rg_start rg1 < rg_start rg2 \<and> ids_ok rg \<or>
    record_id_next (rg_end rg2) = Some (rg_start rg1) \<and> \<not> rg_start rg1 < rg_start rg2 \<and> rg_start rg2 < rg_start rg1 \<and> ids_ok rg"
proof -
  have ok: "rid_ok (rg_start rg1)" "rid_ok (rg_end rg1)" "rid_ok (rg_start rg2)" "rid_ok (rg_end rg2)"
    "rg_start rg1 \<le> rg_end rg1" "rg_start rg2 \<le> rg_end rg2"
    using assms(1,2) by (simp_all add: range_ok_def range_is_valid_def)
  then show ?thesis
    using assms(3) by (auto simp: range_join_def panic_simps record_id_next_eq rid_less rid_le ids_ok_def split: if_splits)
qed

lemma merged_swap: "merged H rg2 rg1 rg t2 t1 t h d \<longleftrightarrow> merged H rg1 rg2 rg t1 t2 t h d"
  by (auto simp: merged_def)

lemma merge_verified_ok:
  fixes H :: "'h::linorder NodeHasher"
  assumes H: "hasher_ok H" and wf: "wf_tree True 256 t1" "wf_tree True 256 t2"
    and face: "facing_key t1 rg1 rg2 k1" "facing_key t2 rg2 rg1 k2" and rg: "range_ok rg1" "range_ok rg2"
    and join: "range_join rg1 rg2 = Some (Some rg)"
    and t: "t_node H rg1 True [] t1 = Some (h1, n1)" "t_node H rg2 True [] t2 = Some (h2, n2)"
    and vp: "verified_for H rg1 t1 k1 mine" "verified_for H rg2 t2 k2 other"
  shows "\<exists>res t. merge_verified H mine other = Some (Inr res) \<and> mr_range res = rg \<and>
    merged H rg1 rg2 rg t1 t2 t (mr_root_hash res) (mr_delta res)"
proof -
  have v: "vp_range mine = rg1" "vp_range other = rg2"
    "vp_path mine = t_steps H rg1 True [] t1 (rid_bits k1)"
    "vp_path other = t_steps H rg2 True [] t2 (rid_bits k2)"
    using vp by (simp_all add: verified_for_def)
  consider (left) "record_id_next (rg_end rg1) = Some (rg_start rg2)" "rg_start rg1 < rg_start rg2" "ids_ok rg"
    | (right) "record_id_next (rg_end rg2) = Some (rg_start rg1)" "\<not> rg_start rg1 < rg_start rg2" "rg_start rg2 < rg_start rg1" "ids_ok rg"
    using range_join_sides [OF rg join] by blast
  then show ?thesis
  proof cases
    case left
    show ?thesis
      using merged_ok [OF H left(3) facing_ranges [OF wf face rg left(1,2)] t] left(2)
      by (auto simp: merge_verified_def v join)
  next
    case right
    show ?thesis
      using merged_ok [OF H right(4) facing_ranges [OF wf(2,1) face(2,1) rg(2,1) right(1,3)] t(2,1)] right(2)
      unfolding merged_swap [of H rg2 rg1] by (auto simp: merge_verified_def v join)
  qed
qed

lemma merge_ok:
  fixes H :: "'h::linorder NodeHasher"
  assumes "hasher_ok H" "wf_tree True 256 t1" "wf_tree True 256 t2"
    and "range_ok rg1" "range_ok rg2" "range_join rg1 rg2 = Some (Some rg)"
    and "facing_key t1 rg1 rg2 (rp_key p1)" "facing_key t2 rg2 rg1 (rp_key p2)"
    and "t_node H rg1 True [] t1 = Some (rp_root_hash p1, n1)" "t_node H rg2 True [] t2 = Some (rp_root_hash p2, n2)"
    and "proof_ok p1" "no_collision H (t_builders H rg1 True [] t1) (p_builders p1)"
    and "proof_ok p2" "no_collision H (t_builders H rg2 True [] t2) (p_builders p2)"
    and "ov_latest_root (tr_overlay tree) = rp_root_hash p1"
    and "latest_proof H tree p1 = Some (Inr mine)" "verify_foreign_proof H p2 = Some (Inr other)"
  shows "\<exists>res t. merge H tree p1 p2 = Some (Inr res) \<and> mr_range res = rg \<and>
    merged H rg1 rg2 rg t1 t2 t (mr_root_hash res) (mr_delta res)"
proof -
  have ids: "ids_ok rg1" "ids_ok rg2"
    using assms(4,5) by (simp_all add: range_ok_def ids_ok_def)
  note vf = latest_proof_verified_for [OF assms(1,2) ids(1) assms(9,11,12,15,16)]
    foreign_proof_verified_for [OF assms(1,3) ids(2) assms(10,13,14,17)]
  have "merge H tree p1 p2 = merge_verified H mine other"
    using assms(16,17) by (simp add: merge_def latest_proof_def)
  then show ?thesis
    using merge_verified_ok [OF assms(1-3,7,8,4-6,9,10) vf] by auto
qed

text \<open>
  C17: merging two partitions.  Let the leader's tree and the tree of a partition that is being
  transferred in have adjacent ranges, and let the proof for each of them be for a record of its
  range such that no record of the tree is nearer to the other range.  If both proofs verify,
  \<open>merge\<close> neither fails nor panics.  Its range is the union of the two ranges, and its root hash is
  that of a well-formed tree that holds exactly the records of both trees.  Applying its delta to
  any store that holds both trees gives a store that holds the merged one.
\<close>

theorem merge_correct:
  fixes H :: "'h::linorder NodeHasher"
  assumes "hasher_ok H" "wf_tree True 256 t1" "wf_tree True 256 t2"
    and "range_ok rg1" "range_ok rg2" "range_join rg1 rg2 = Some (Some rg)"
    and "facing_key t1 rg1 rg2 (rp_key p1)" "facing_key t2 rg2 rg1 (rp_key p2)"
    and "t_node H rg1 True [] t1 = Some (rp_root_hash p1, n1)" "t_node H rg2 True [] t2 = Some (rp_root_hash p2, n2)"
    and "proof_ok p1" "no_collision H (t_builders H rg1 True [] t1) (p_builders p1)"
    and "proof_ok p2" "no_collision H (t_builders H rg2 True [] t2) (p_builders p2)"
    and "ov_latest_root (tr_overlay tree) = rp_root_hash p1"
    and "latest_proof H tree p1 = Some (Inr mine)" "verify_foreign_proof H p2 = Some (Inr other)"
  shows "\<exists>res t. merge H tree p1 p2 = Some (Inr res) \<and> mr_range res = rg \<and> wf_tree True 256 t \<and>
    (\<exists>n. t_node H rg True [] t = Some (mr_root_hash res, n)) \<and>
    (\<forall>k v. rid_ok k \<longrightarrow> (t_lookup t (rid_bits k) = Some v \<longleftrightarrow>
       t_lookup t1 (rid_bits k) = Some v \<or> t_lookup t2 (rid_bits k) = Some v)) \<and>
    (\<forall>st. holds_tree H rg1 st t1 \<longrightarrow> holds_tree H rg2 st t2 \<longrightarrow> holds_tree H rg (apply_delta (mr_delta res) st) t)"
  using merge_ok [OF assms] by (force simp: merged_def length_rid_bits)

definition low_range :: OwnedRange where
  "low_range = \<lparr>rg_start = record_id_min, rg_end = split_key_prev\<rparr>"

definition high_range :: OwnedRange where
  "high_range = \<lparr>rg_start = split_key, rg_end = record_id_max\<rparr>"

definition low_example :: mtree where
  "low_example = MNode (MBranch (rid_bits record_id_min) (MLeaf [1, 2])) MNone"

definition high_example :: mtree where
  "high_example = MNode MNone (MBranch (rid_bits split_key) (MLeaf [3]))"

definition low_proof :: "u8 ReadProof" where
  "low_proof = t_proof tag_hasher low_range low_example (fst (the (t_node tag_hasher low_range True [] low_example))) split_key_prev"

definition high_proof :: "u8 ReadProof" where
  "high_proof = t_proof tag_hasher high_range high_example (fst (the (t_node tag_hasher high_range True [] high_example))) split_key"

lemma t_proof_foreign:
  assumes "hasher_ok H" "wf_tree True 256 t" "range_ok rg" "key \<in> range_set rg" "t_node H rg True [] t = Some (root, n)"
  shows "\<exists>vp. verify_foreign_proof H (t_proof H rg t root key) = Some (Inr vp)"
proof -
  obtain vp lh where "latest_proof H (with_existing_root root 1) (t_proof H rg t root key) = Some (Inr vp)"
    "verify_proof H (t_proof H rg t root key) = Some (Inr lh)"
    using t_proof_latest [OF assms, of 1] t_proof_verifies [OF assms] by blast
  then have "new_already_latest (t_proof H rg t root key) = Some vp"
    by (cases "new_already_latest (t_proof H rg t root key)")
      (auto simp: latest_proof_def verify_def new_make_latest_def with_existing_root_def overlay_new_def t_proof_def)
  then show ?thesis
    using \<open>verify_proof H _ = _\<close> by (simp add: verify_foreign_proof_def)
qed

lemma merge_example_ranges:
  "range_ok low_range" "range_ok high_range" "range_join low_range high_range = Some (Some range_full)"
  by code_simp+

lemma merge_example_keys:
  "split_key_prev \<in> range_set low_range" "split_key \<in> range_set high_range"
  unfolding range_set_def mem_Collect_eq by code_simp+

lemma split_key_prev_bits: "\<exists>ks. rid_bits split_key_prev = False # ks" "\<not> prefix (rid_bits record_id_min) (rid_bits split_key_prev)"
proof -
  have "\<not> hd (rid_bits split_key_prev)" "rid_bits split_key_prev \<noteq> []"
    by code_simp+
  then show "\<exists>ks. rid_bits split_key_prev = False # ks"
    by (cases "rid_bits split_key_prev") auto
  show "\<not> prefix (rid_bits record_id_min) (rid_bits split_key_prev)"
    by code_simp
qed

lemma merge_example_wf: "wf_tree True 256 low_example" "wf_tree True 256 high_example"
  "facing_key low_example low_range high_range split_key_prev" "facing_key high_example high_range low_range split_key"
proof -
  obtain ks ms where ks: "rid_bits split_key = True # ks" "rid_bits record_id_min = False # ms"
    using split_key_bits by blast
  have len: "length (rid_bits split_key) = 256" "length (rid_bits record_id_min) = 256"
    by (simp_all add: length_rid_bits split_key_ok(1))
  show "wf_tree True 256 low_example" "wf_tree True 256 high_example"
    using len by (simp_all add: low_example_def high_example_def ks)
  have eq: "k = key" if "prefix (rid_bits key) (rid_bits k)" "rid_ok key" "rid_ok k" for key k
    using that length_rid_bits [of k] length_rid_bits [of key] by (auto simp: prefix_def intro: rid_bits_inj)
  have "k = record_id_min" if "rid_ok k" "t_lookup low_example (rid_bits k) \<noteq> None" for k
    using that eq [of record_id_min k] by (auto simp: low_example_def split: list.splits if_splits)
  moreover have side: "rg_start low_range < rg_start high_range" "record_id_min \<le> split_key_prev"
    by code_simp+
  ultimately show "facing_key low_example low_range high_range split_key_prev"
    using merge_example_keys(1) by (auto simp: facing_key_def)
  have "k = split_key" if "rid_ok k" "t_lookup high_example (rid_bits k) \<noteq> None" for k
    using that eq [of split_key k] split_key_ok(1) by (auto simp: high_example_def split: list.splits if_splits)
  then show "facing_key high_example high_range low_range split_key"
    using merge_example_keys(2) side(1) by (auto simp: facing_key_def)
qed

lemma merge_example_walks:
  "t_walk tag_hasher low_range True [] low_example (rid_bits split_key_prev) = ([\<lparr>in_left = Some low_branch, in_right = None\<rparr>], None)"
  "t_walk tag_hasher high_range True [] high_example (rid_bits split_key) =
     ([\<lparr>in_left = None, in_right = Some high_branch\<rparr>], Some \<lparr>lf_value = [3]\<rparr>)"
proof -
  obtain ks where ks: "rid_bits split_key_prev = False # ks"
    using split_key_prev_bits by blast
  show "t_walk tag_hasher low_range True [] low_example (rid_bits split_key_prev) = ([\<lparr>in_left = Some low_branch, in_right = None\<rparr>], None)"
    unfolding low_example_def ks
    by (subst t_walk_MNode [OF split_example_branches(1), where br = None]) (use split_key_prev_bits(2) ks in auto)
  obtain ms where ms: "rid_bits split_key = True # ms"
    using split_key_bits by blast
  show "t_walk tag_hasher high_range True [] high_example (rid_bits split_key) =
     ([\<lparr>in_left = None, in_right = Some high_branch\<rparr>], Some \<lparr>lf_value = [3]\<rparr>)"
    unfolding high_example_def by (subst (2) ms, subst t_walk_MNode [OF _ split_example_branches(2), where bl = None]) (simp_all add: ms)
qed

lemma merge_example_collisions:
  "no_collision tag_hasher (t_builders tag_hasher low_range True [] low_example) (p_builders low_proof)"
  "no_collision tag_hasher (t_builders tag_hasher high_range True [] high_example) (p_builders high_proof)"
proof -
  have ok: "rid_ok (rg_start low_range)" "rid_ok (rg_end low_range)" "rid_ok (rg_start high_range)" "rid_ok (rg_end high_range)"
    "rid_bytes (rg_start low_range) = 0 # replicate 31 0" "rid_bytes (rg_start high_range) = 0x80 # replicate 31 0"
    using merge_example_ranges(1,2) split_key_ok(2,3) by (simp_all add: range_ok_def) (simp_all add: low_range_def high_range_def)
  have "p_builders low_proof = [NHRoot low_range (Some low_branch) None]"
    "p_builders high_proof = [NHLeaf split_key [3], NHRoot high_range None (Some high_branch)]"
    by (simp_all add: p_builders_def low_proof_def high_proof_def t_proof_def merge_example_walks)
  moreover have "t_builders tag_hasher rg True [] low_example = [NHRoot rg (Some low_branch) None, NHLeaf record_id_min [1, 2]]"
    "t_builders tag_hasher rg True [] high_example = [NHRoot rg None (Some high_branch), NHLeaf split_key [3]]" for rg
    using split_example_branches [of rg]
    by (simp_all add: low_example_def high_example_def node_builder_def opt_list_def record_id_of_bits del: t_branch.simps(2))
  ultimately show "no_collision tag_hasher (t_builders tag_hasher low_range True [] low_example) (p_builders low_proof)"
    "no_collision tag_hasher (t_builders tag_hasher high_range True [] high_example) (p_builders high_proof)"
    using split_example_hashes(4) [OF ok(5,1,2)] split_example_hashes(5) [OF ok(6,3,4)]
    by (simp_all add: no_collision_def split_example_hashes(1,2))
qed

theorem merge_correct_witness:
  "\<exists>res t. merge tag_hasher (with_existing_root (rp_root_hash low_proof) 3) low_proof high_proof = Some (Inr res) \<and>
     mr_range res = range_full \<and> (\<exists>n. t_node tag_hasher range_full True [] t = Some (mr_root_hash res, n)) \<and>
     t_lookup t (rid_bits record_id_min) = Some [1, 2] \<and> t_lookup t (rid_bits split_key) = Some [3]"
proof -
  let ?tree = "with_existing_root (rp_root_hash low_proof) 3"
  have ids: "ids_ok low_range" "ids_ok high_range"
    using merge_example_ranges(1,2) by (simp_all add: range_ok_def ids_ok_def)
  obtain h1 n1 h2 n2 where n: "t_node tag_hasher low_range True [] low_example = Some (h1, n1)"
    "t_node tag_hasher high_range True [] high_example = Some (h2, n2)"
    using t_node_total(1) [OF tag_hasher_ok ids(1) merge_example_wf(1)] t_node_total(1) [OF tag_hasher_ok ids(2) merge_example_wf(2)] by blast
  have p: "low_proof = t_proof tag_hasher low_range low_example h1 split_key_prev"
    "high_proof = t_proof tag_hasher high_range high_example h2 split_key"
    by (simp_all add: low_proof_def high_proof_def n del: t_node.simps)
  have keys: "rp_root_hash low_proof = h1" "rp_root_hash high_proof = h2"
    "rp_key low_proof = split_key_prev" "rp_key high_proof = split_key"
    by (simp_all add: p t_proof_def)
  have ok: "proof_ok low_proof" "proof_ok high_proof"
    using merge_example_keys(1,2)
    by (simp_all add: p range_set_def t_proof_ok [OF merge_example_wf(1) ids(1)] t_proof_ok [OF merge_example_wf(2) ids(2)])
  obtain mine other where v: "latest_proof tag_hasher ?tree low_proof = Some (Inr mine)" "verify_foreign_proof tag_hasher high_proof = Some (Inr other)"
    using t_proof_latest [OF tag_hasher_ok merge_example_wf(1) merge_example_ranges(1) merge_example_keys(1) n(1), of 3]
      t_proof_foreign [OF tag_hasher_ok merge_example_wf(2) merge_example_ranges(2) merge_example_keys(2) n(2)] unfolding p [symmetric] keys(1) by blast
  have latest: "ov_latest_root (tr_overlay ?tree) = rp_root_hash low_proof"
    by (simp add: with_existing_root_def overlay_new_def)
  obtain ks ms where ks: "rid_bits split_key = True # ks" "rid_bits record_id_min = False # ms"
    using split_key_bits by blast
  then have "t_lookup low_example (rid_bits record_id_min) = Some [1, 2]" "t_lookup high_example (rid_bits split_key) = Some [3]"
    by (simp_all add: low_example_def high_example_def)
  moreover obtain res t where r: "merge tag_hasher ?tree low_proof high_proof = Some (Inr res)" "mr_range res = range_full"
    "\<exists>n. t_node tag_hasher range_full True [] t = Some (mr_root_hash res, n)"
    "\<forall>k v. rid_ok k \<longrightarrow> (t_lookup t (rid_bits k) = Some v \<longleftrightarrow>
       t_lookup low_example (rid_bits k) = Some v \<or> t_lookup high_example (rid_bits k) = Some v)"
    using merge_correct [OF tag_hasher_ok merge_example_wf(1,2) merge_example_ranges(1-3) merge_example_wf(3,4) [folded keys(3,4)]
        n [folded keys(1,2)] ok(1) merge_example_collisions(1) ok(2) merge_example_collisions(2) latest v] by blast
  ultimately have "t_lookup t (rid_bits record_id_min) = Some [1, 2]" "t_lookup t (rid_bits split_key) = Some [3]"
    using record_id_min_ok(1) split_key_ok(1) by blast+
  then show ?thesis
    using r(1-3) by blast
qed

end
