(* ===== verification/MerkleOverlay.thy ===== *)
theory MerkleOverlay imports MerkleMergeTree
begin

text \<open>
  The overlay of recent changes of \<open>src/hsm_core/src/merkle/overlay.rs\<close>, which the definitions of
  \<open>MerkleProof\<close> translate: proofs that were read before the last few insertions are brought up to
  date.
\<close>

section \<open>Walking down a tree\<close>

text \<open>The nodes of a tree that lie on the path of a record.\<close>

definition on_path :: "'h NodeHasher \<Rightarrow> OwnedRange \<Rightarrow> bool \<Rightarrow> KeyVec \<Rightarrow> mtree \<Rightarrow> KeyVec \<Rightarrow> ('h NodeKey \<times> 'h Node) set" where
  "on_path H rg root pre t k = {e \<in> set (t_nodes H rg root pre t). prefix (nk_prefix (fst e)) (pre @ k)}"

definition step_at :: "'h \<Rightarrow> 'h InteriorNode \<Rightarrow> KeyVec \<Rightarrow> bool \<Rightarrow> 'h PathStep" where
  "step_at h i pre x = \<lparr>ps_hash = h, ps_node = i, ps_prefix = pre, ps_next_dir = dir_from x\<rparr>"

lemma on_path_MNode:
  assumes "t_node H rg root pre (MNode l r) = Some (h, Interior i)" "wf_tree root (Suc (length ks)) (MNode l r)"
  shows "on_path H rg root pre (MNode l r) (x # ks) = insert (NodeKey pre h, Interior i)
    {e \<in> set (b_nodes H rg pre (if x then r else l)). prefix (nk_prefix (fst e)) (pre @ x # ks)}"
proof -
  have "wf_branch (\<not> x) (Suc (length ks)) (if x then l else r)"
    using assms(2) by auto
  then have "\<not> prefix (nk_prefix (fst e)) (pre @ x # ks)" if "e \<in> set (b_nodes H rg pre (if x then l else r))" for e
    using off_path_node [OF that] by auto
  then show ?thesis
    using assms(1) by (auto simp: on_path_def opt_list_def split: if_splits simp del: t_node.simps)
qed

lemma path_induct [consumes 2, case_names leaf stop down]:
  assumes "t_node H rg root pre t = Some (h, n)" "wf_tree root (length k) t"
    and leaf: "\<And>root pre v h. t_node H rg root pre (MLeaf v) = Some (h, Leaf \<lparr>lf_value = v\<rparr>) \<Longrightarrow>
      P root pre (MLeaf v) h (Leaf \<lparr>lf_value = v\<rparr>) []"
    and stop: "\<And>root pre l r h i x ks. t_node H rg root pre (MNode l r) = Some (h, Interior i) \<Longrightarrow>
      (\<And>b. branch i (dir_from x) = Some b \<Longrightarrow> \<not> prefix (br_prefix b) (x # ks) \<and> length (br_prefix b) \<le> length (x # ks)) \<Longrightarrow>
      t_steps H rg root pre (MNode l r) (x # ks) = [step_at h i pre x] \<Longrightarrow>
      t_walk H rg root pre (MNode l r) (x # ks) = ([i], None) \<Longrightarrow>
      on_path H rg root pre (MNode l r) (x # ks) = {(NodeKey pre h, Interior i)} \<Longrightarrow>
      P root pre (MNode l r) h (Interior i) (x # ks)"
    and down: "\<And>root pre l r h i x ks p h1 n1 t'. t_node H rg root pre (MNode l r) = Some (h, Interior i) \<Longrightarrow>
      branch i (dir_from x) = Some \<lparr>br_prefix = p, br_hash = h1\<rparr> \<Longrightarrow> prefix p (x # ks) \<Longrightarrow>
      t_node H rg False (pre @ p) t' = Some (h1, n1) \<Longrightarrow>
      t_steps H rg root pre (MNode l r) (x # ks) = step_at h i pre x # t_steps H rg False (pre @ p) t' (drop (length p) (x # ks)) \<Longrightarrow>
      t_walk H rg root pre (MNode l r) (x # ks) = (i # fst (t_walk H rg False (pre @ p) t' (drop (length p) (x # ks))),
        snd (t_walk H rg False (pre @ p) t' (drop (length p) (x # ks)))) \<Longrightarrow>
      on_path H rg root pre (MNode l r) (x # ks) =
        insert (NodeKey pre h, Interior i) (on_path H rg False (pre @ p) t' (drop (length p) (x # ks))) \<Longrightarrow>
      P False (pre @ p) t' h1 n1 (drop (length p) (x # ks)) \<Longrightarrow> P root pre (MNode l r) h (Interior i) (x # ks)"
  shows "P root pre t h n k"
  using assms(1,2)
proof (induction "length k" arbitrary: k root pre t h n rule: less_induct)
  case less
  note t = less.prems
  show ?case
  proof (cases t)
    case (MLeaf v)
    then show ?thesis
      using t leaf [of root pre v h] by (auto simp: new_leaf_def panic_simps split: prod.splits)
  next
    case (MNode l r)
    obtain x ks where k: "k = x # ks"
      using t(2) MNode by (cases k) auto
    obtain bl br i where tb: "t_branch H rg pre l = Some bl" "t_branch H rg pre r = Some br"
      "n = Interior i" "i = \<lparr>in_left = bl, in_right = br\<rparr>"
      by (rule t_node_interior [OF t(1) [unfolded MNode]]) simp
    define bx where "bx = (if x then r else l)"
    have bx: "t_branch H rg pre bx = Some (branch i (dir_from x))" "wf_branch x (length k) bx"
      using tb t(2) by (auto simp: bx_def branch_def dir_from_def MNode)
    note tn = t(1) [unfolded MNode tb(3)]
    have wf: "wf_tree root (Suc (length ks)) (MNode l r)"
      using t(2) by (simp add: MNode k)
    note steps = t_steps_MNode [OF tn, of x ks, folded bx_def step_at_def]
      and walk = t_walk_MNode [OF tb(1,2), of root x ks, folded bx_def tb(4)]
      and nodes = on_path_MNode [OF tn wf, of x, folded bx_def]
    show ?thesis
    proof (cases "\<exists>p t'. bx = MBranch p t' \<and> prefix p k")
      case True
      then obtain p t' where p: "bx = MBranch p t'" "prefix p k"
        by blast
      obtain h1 n1 where n1: "branch i (dir_from x) = Some \<lparr>br_prefix = p, br_hash = h1\<rparr>"
        "t_node H rg False (pre @ p) t' = Some (h1, n1)"
        using t_branch_MBranchD bx(1) unfolding p by blast
      have sub: "length (drop (length p) k) < length k" "wf_tree False (length (drop (length p) k)) t'"
        using bx(2) by (auto simp: p k)
      have full: "(pre @ p) @ drop (length p) k = pre @ k"
        using p(2) by (auto simp: prefix_def)
      define q where "q = drop (length p) k"
      have st: "t_steps H rg root pre (MNode l r) k = step_at h i pre x # t_steps H rg False (pre @ p) t' q"
        unfolding q_def k steps p(1) b_steps.simps using p(2) by (simp add: k del: t_steps.simps)
      have wk: "t_walk H rg root pre (MNode l r) k = (i # fst (t_walk H rg False (pre @ p) t' q), snd (t_walk H rg False (pre @ p) t' q))"
        unfolding q_def k walk p(1) b_walk.simps using p(2) by (simp add: k del: t_walk.simps)
      have nd: "on_path H rg root pre (MNode l r) k = insert (NodeKey pre h, Interior i) (on_path H rg False (pre @ p) t' q)"
      proof -
        have "on_path H rg False (pre @ p) t' q = {e \<in> set (b_nodes H rg pre bx). prefix (nk_prefix (fst e)) (pre @ x # ks)}"
          unfolding on_path_def q_def p(1) b_nodes.simps k [symmetric] full by (rule refl)
        then show ?thesis
          unfolding k nodes by (rule arg_cong [OF sym])
      qed
      have "P False (pre @ p) t' h1 n1 q"
        unfolding q_def by (rule less.hyps [OF sub(1) n1(2) sub(2)])
      then show ?thesis
        unfolding MNode tb(3) using down [OF tn n1(1) p(2) [unfolded k] n1(2)] st wk nd
        by (simp add: k q_def del: t_steps.simps t_walk.simps)
    next
      case False
      have "b_steps H rg pre bx k = [] \<and> b_walk H rg pre bx k = ([], None)"
        using False by (cases bx) auto
      moreover have none: "{e \<in> set (b_nodes H rg pre bx). prefix (nk_prefix (fst e)) (pre @ x # ks)} = {}"
      proof -
        have "\<not> prefix (nk_prefix (fst e)) (pre @ x # ks)" if e: "e \<in> set (b_nodes H rg pre bx)" for e
        proof
          assume "prefix (nk_prefix (fst e)) (pre @ x # ks)"
          moreover obtain p t' where p: "bx = MBranch p t'" "prefix (pre @ p) (nk_prefix (fst e))"
            using t_nodes_prefix(2) [OF e] by blast
          ultimately have "prefix (pre @ p) (pre @ k)"
            using prefix_order.trans [OF p(2)] by (simp only: k)
          then show False
            using False p(1) by simp
        qed
        then show ?thesis
          by blast
      qed
      moreover have "\<not> prefix (br_prefix b) (x # ks) \<and> length (br_prefix b) \<le> length (x # ks)"
        if "branch i (dir_from x) = Some b" for b
        using that bx False by (cases bx) (auto simp: k panic_simps split: prod.splits)
      ultimately show ?thesis
        using stop [OF tn, of x ks] steps walk nodes [unfolded none] by (simp add: MNode tb(3) k del: t_steps.simps t_walk.simps t_node.simps)
    qed
  qed
qed

section \<open>Bringing a proof up to date\<close>

text \<open>The loop of \<open>new_make_latest\<close> returns on every tree whose nodes on the path can be fetched.\<close>

lemma make_latest_steps:
  assumes "t_node H rg root pre t = Some (h, n)" "wf_tree root (length k) t" "full = pre @ k"
    and "\<And>e. e \<in> on_path H rg root pre t k \<Longrightarrow> get (nk_hash (fst e)) = Some (snd e)"
  shows "make_latest_loop get full (length pre) h = Some (Some (t_steps H rg root pre t k, snd (t_walk H rg root pre t k)))"
  using assms
proof (induction rule: path_induct)
  case (leaf root pre v h)
  have "get h = Some (Leaf \<lparr>lf_value = v\<rparr>)"
    using leaf(1) leaf(3) [of "(NodeKey pre h, Leaf \<lparr>lf_value = v\<rparr>)"] by (simp add: on_path_def opt_list_def)
  then show ?case
    using leaf(2) by (subst make_latest_loop.simps) simp
next
  case (stop root pre l r h i x ks)
  have "get h = Some (Interior i)"
    using stop(7) [of "(NodeKey pre h, Interior i)"] stop(5) by simp
  moreover have "kv_to full (length pre) = Some pre" "kv_from full (length pre) = Some (x # ks)"
    using stop(6) by (auto simp: kv_to_def kv_from_def)
  moreover have "branch i (dir_from x) = None \<or> (\<exists>b. branch i (dir_from x) = Some b \<and> \<not> prefix (br_prefix b) (x # ks))"
    using stop(2) by (cases "branch i (dir_from x)") auto
  ultimately show ?case
    unfolding stop(3,4) by (subst make_latest_loop.simps) (auto simp: index_get_def step_at_def Let_def)
next
  case (down root pre l r h i x ks p h1 n1 t')
  have get: "get h = Some (Interior i)"
    using down(10) [of "(NodeKey pre h, Interior i)"] down(7) by simp
  have "kv_to full (length pre) = Some pre" "kv_from full (length pre) = Some (x # ks)"
    using down(9) by (auto simp: kv_to_def kv_from_def)
  moreover have "full = (pre @ p) @ drop (length p) (x # ks)"
    using down(3,9) by (auto simp: prefix_def)
  then have "make_latest_loop get full (length (pre @ p)) h1 = Some (Some (t_steps H rg False (pre @ p) t' (drop (length p) (x # ks)),
      snd (t_walk H rg False (pre @ p) t' (drop (length p) (x # ks)))))"
    using down(7,8,10) by blast
  ultimately show ?case
    unfolding down(5,6) using get down(2,3)
    by (subst make_latest_loop.simps) (simp add: index_get_def step_at_def Let_def del: t_steps.simps t_walk.simps)
qed

text \<open>What \<open>new_make_latest\<close> collects from a proof: nodes of the old tree, and all of those on the path.\<close>

lemma proof_nodes_ok:
  assumes "t_node H rg root pre t = Some (h, n)" "wf_tree root (length k) t"
  shows "\<exists>m'. proof_nodes_loop k h (fst (t_walk H rg root pre t k)) m = Some m' \<and>
    (\<forall>x n'. m' x = Some n' \<longrightarrow> m x = Some n' \<or> (\<exists>q. (NodeKey q x, n') \<in> on_path H rg root pre t k)) \<and>
    (\<forall>x. m x \<noteq> None \<longrightarrow> m' x \<noteq> None) \<and>
    (\<forall>e \<in> on_path H rg root pre t k. (\<exists>i. snd e = Interior i) \<longrightarrow> m' (nk_hash (fst e)) \<noteq> None)"
  using assms
proof (induction arbitrary: m rule: path_induct)
  case (leaf root pre v h)
  then show ?case
    by (auto simp: on_path_def opt_list_def)
next
  case (stop root pre l r h i x ks)
  have "kv_from (x # ks) (length (br_prefix b)) \<noteq> None" if "branch i (dir_from x) = Some b" for b
    using stop(2) [OF that] by (simp add: kv_from_def)
  then show ?case
    unfolding stop(4,5) by (cases "branch i (dir_from x)") (auto simp: index_get_def)
next
  case (down root pre l r h i x ks p h1 n1 t')
  let ?k = "drop (length p) (x # ks)"
  obtain m' where m': "proof_nodes_loop ?k h1 (fst (t_walk H rg False (pre @ p) t' ?k)) (m(h \<mapsto> Interior i)) = Some m'"
    "\<forall>x n'. m' x = Some n' \<longrightarrow> (m(h \<mapsto> Interior i)) x = Some n' \<or> (\<exists>q. (NodeKey q x, n') \<in> on_path H rg False (pre @ p) t' ?k)"
    "\<forall>x. (m(h \<mapsto> Interior i)) x \<noteq> None \<longrightarrow> m' x \<noteq> None"
    "\<forall>e \<in> on_path H rg False (pre @ p) t' ?k. (\<exists>i. snd e = Interior i) \<longrightarrow> m' (nk_hash (fst e)) \<noteq> None"
    using down(8) [of "m(h \<mapsto> Interior i)"] by blast
  have "kv_from (x # ks) (length p) = Some ?k"
    using down(3) by (auto simp: kv_from_def dest: prefix_length_le)
  then have "proof_nodes_loop (x # ks) h (fst (t_walk H rg root pre (MNode l r) (x # ks))) m = Some m'"
    unfolding down(6) using down(2) m'(1) by (simp add: index_get_def del: t_walk.simps)
  moreover have "m y = Some n' \<or> (\<exists>q. (NodeKey q y, n') \<in> on_path H rg root pre (MNode l r) (x # ks))" if "m' y = Some n'" for y n'
    using m'(2) [rule_format, OF that] unfolding down(7) by (auto split: if_splits)
  moreover have "m' h \<noteq> None" "\<forall>y. m y \<noteq> None \<longrightarrow> m' y \<noteq> None"
    using m'(3) by auto
  ultimately show ?case
    using m'(4) unfolding down(7) by simp
qed

lemma verify_path_leaf:
  "verify_path H p k root h node path = Some (Inr (h', lh)) \<Longrightarrow>
     lh = (case rp_leaf p of None \<Rightarrow> None | Some l \<Rightarrow> nhb_build H (NHLeaf (rp_key p) (lf_value l)))"
proof (induction path arbitrary: k root h node h')
  case Nil
  then show ?case
    by (auto simp: panic_simps Let_def split: option.splits if_splits)
next
  case (Cons nxt path)
  then show ?case
    by (elim verify_path_ConsD)
qed

lemma path_leaf:
  assumes "t_node H rg root pre t = Some (h, n)" "wf_tree root (length k) t"
  shows "(\<forall>e \<in> on_path H rg root pre t k. \<forall>l. snd e = Leaf l \<longrightarrow> snd (t_walk H rg root pre t k) = Some l) \<and>
    (\<forall>l. snd (t_walk H rg root pre t k) = Some l \<longrightarrow>
      (\<exists>h'. new_leaf H (RecordId (bytes_of_bits (pre @ k))) (lf_value l) = Some (h', l) \<and>
        (NodeKey (pre @ k) h', Leaf l) \<in> on_path H rg root pre t k \<and>
        (\<forall>e \<in> on_path H rg root pre t k. (\<exists>l. snd e = Leaf l) \<longrightarrow> nk_hash (fst e) = h')))"
  using assms
proof (induction rule: path_induct)
  case (leaf root pre v h)
  then show ?case
    by (auto simp: on_path_def opt_list_def panic_simps split: prod.splits)
next
  case (stop root pre l r h i x ks)
  then show ?case
    unfolding stop(4,5) by simp
next
  case (down root pre l r h i x ks p h1 n1 t')
  have full: "(pre @ p) @ drop (length p) (x # ks) = pre @ x # ks"
    using down(3) by (auto simp: prefix_def)
  show ?case
    using down(8) unfolding down(6,7) full by auto
qed

lemma proof_map_ok:
  assumes "t_node H rg True [] t = Some (rp_root_hash p, n)" "wf_tree True 256 t" "rid_ok (rp_key p)"
    and walk: "t_walk H rg True [] t (rid_bits (rp_key p)) = (rp_path p, rp_leaf p)"
    and v: "verify_proof H p = Some (Inr lh)"
    and uniq: "\<And>e e'. e \<in> set (t_nodes H rg True [] t) \<Longrightarrow> e' \<in> set (t_nodes H rg True [] t) \<Longrightarrow>
      nk_hash (fst e) = nk_hash (fst e') \<Longrightarrow> e = e'"
  shows "\<exists>m m'. (case rp_leaf p of Some l \<Rightarrow> do { h \<leftarrow> lh; Some [h \<mapsto> Leaf l] } | None \<Rightarrow> Some Map.empty) = Some m \<and>
    proof_nodes_loop (rid_bits (rp_key p)) (rp_root_hash p) (rp_path p) m = Some m' \<and>
    (\<forall>e \<in> on_path H rg True [] t (rid_bits (rp_key p)). m' (nk_hash (fst e)) = Some (snd e)) \<and>
    (\<forall>x n'. m' x = Some n' \<longrightarrow> (\<exists>q. (NodeKey q x, n') \<in> on_path H rg True [] t (rid_bits (rp_key p))))"
proof -
  let ?k = "rid_bits (rp_key p)"
  let ?N = "on_path H rg True [] t ?k"
  have len: "wf_tree True (length ?k) t"
    using assms(2,3) by (simp add: length_rid_bits)
  have lh: "lh = (case rp_leaf p of None \<Rightarrow> None | Some l \<Rightarrow> nhb_build H (NHLeaf (rp_key p) (lf_value l)))"
    using v by (elim verify_proof_InrD) (auto dest: verify_path_leaf)
  note leaf = path_leaf [OF assms(1) len, unfolded walk snd_conv append_Nil record_id_of_bits]
  have N: "e = e'" if "e \<in> ?N" "e' \<in> ?N" "nk_hash (fst e) = nk_hash (fst e')" for e e'
    using that uniq by (simp add: on_path_def)
  obtain m where m: "(case rp_leaf p of Some l \<Rightarrow> do { h \<leftarrow> lh; Some [h \<mapsto> Leaf l] } | None \<Rightarrow> Some Map.empty) = Some m"
    "\<And>x n'. m x = Some n' \<Longrightarrow> \<exists>q. (NodeKey q x, n') \<in> ?N" "\<And>e. e \<in> ?N \<Longrightarrow> \<exists>l. snd e = Leaf l \<Longrightarrow> m (nk_hash (fst e)) \<noteq> None"
  proof (cases "rp_leaf p")
    case None
    then have "\<not> (\<exists>l. snd e = Leaf l)" if "e \<in> ?N" for e
      using leaf [THEN conjunct1] that by (metis option.distinct(1))
    then show thesis
      by (intro that [of Map.empty]) (auto simp: None)
  next
    case (Some l)
    obtain h where h: "nhb_build H (NHLeaf (rp_key p) (lf_value l)) = Some h" "(NodeKey ?k h, Leaf l) \<in> ?N"
      "\<And>e. e \<in> ?N \<Longrightarrow> \<exists>l. snd e = Leaf l \<Longrightarrow> nk_hash (fst e) = h"
      using leaf [THEN conjunct2, rule_format, OF Some] unfolding new_leaf_def panic_simps by blast
    show thesis
      by (rule that [of "[h \<mapsto> Leaf l]"]) (use h Some lh in \<open>auto split: if_splits\<close>)
  qed
  obtain m' where m': "proof_nodes_loop ?k (rp_root_hash p) (rp_path p) m = Some m'"
    "\<And>x n'. m' x = Some n' \<Longrightarrow> m x = Some n' \<or> (\<exists>q. (NodeKey q x, n') \<in> ?N)" "\<And>x. m x \<noteq> None \<Longrightarrow> m' x \<noteq> None"
    "\<And>e. e \<in> ?N \<Longrightarrow> \<exists>i. snd e = Interior i \<Longrightarrow> m' (nk_hash (fst e)) \<noteq> None"
    using proof_nodes_ok [OF assms(1) len, of m] unfolding walk fst_conv by blast
  have "m' (nk_hash (fst e)) = Some (snd e)" if e: "e \<in> ?N" for e
  proof -
    have "m' (nk_hash (fst e)) \<noteq> None"
      using m(3) [OF e] m'(3,4) e by (cases "snd e") auto
    then obtain n' where n': "m' (nk_hash (fst e)) = Some n'"
      by blast
    then obtain q where q: "(NodeKey q (nk_hash (fst e)), n') \<in> ?N"
      using m'(2) m(2) by blast
    show ?thesis
      using N [OF e q] n' by (metis NodeKey.sel(2) fst_conv snd_conv)
  qed
  then show ?thesis
    using m(1,2) m'(1,2) by blast
qed

section \<open>The versions of a tree\<close>

text \<open>
  A tree that starts from an existing root, together with its versions and the deltas between them,
  both with the newest first, as insertions with up-to-date proofs make them.
\<close>

inductive overlay_history ::
  "'h::linorder NodeHasher \<Rightarrow> OwnedRange \<Rightarrow> nat \<Rightarrow> 'h Tree \<Rightarrow> mtree list \<Rightarrow> 'h StoreDelta list \<Rightarrow> bool" for H rg cap where
  start: "wf_tree True 256 t \<Longrightarrow> t_node H rg True [] t = Some (root, n) \<Longrightarrow>
    overlay_history H rg cap (with_existing_root root cap) [t] []"
| insert: "overlay_history H rg cap tree (t # ts) ds \<Longrightarrow> verified_for H rg t key vp \<Longrightarrow> rid_ok key \<Longrightarrow>
    length v < 256 ^ 8 \<Longrightarrow> t_lookup t (rid_bits key) \<noteq> Some v \<Longrightarrow> tree_insert H tree vp v = Some (tree', Inr (h, d)) \<Longrightarrow>
    overlay_history H rg cap tree' (t_insert t (rid_bits key) v # t # ts) (d # ds)"

text \<open>No two nodes that were ever part of the tree have the same hash.\<close>

definition fresh_nodes :: "'h NodeHasher \<Rightarrow> OwnedRange \<Rightarrow> mtree list \<Rightarrow> 'h StoreDelta list \<Rightarrow> bool" where
  "fresh_nodes H rg ts ds \<longleftrightarrow> distinct (map (nk_hash \<circ> fst) (t_nodes H rg True [] (last ts) @ concat (map sd_add ds)))"

definition version_root :: "'h NodeHasher \<Rightarrow> OwnedRange \<Rightarrow> mtree \<Rightarrow> 'h" where
  "version_root H rg t = fst (the (t_node H rg True [] t))"

definition added_hashes :: "'h StoreDelta \<Rightarrow> 'h set" where
  "added_hashes d = (nk_hash \<circ> fst) ` set (sd_add d)"

text \<open>One version after another, and what the overlay keeps of the last changes.\<close>

definition version_step :: "'h NodeHasher \<Rightarrow> OwnedRange \<Rightarrow> mtree \<Rightarrow> mtree \<Rightarrow> 'h StoreDelta \<Rightarrow> bool" where
  "version_step H rg t' t d \<longleftrightarrow> version_root H rg t' \<in> added_hashes d \<and>
     set (t_nodes H rg True [] t') \<subseteq> set (t_nodes H rg True [] t) \<union> set (sd_add d)"

definition overlay_inv :: "'h NodeHasher \<Rightarrow> OwnedRange \<Rightarrow> nat \<Rightarrow> 'h TreeOverlay \<Rightarrow> mtree list \<Rightarrow> 'h StoreDelta list \<Rightarrow> bool" where
  "overlay_inv H rg w ov ts ds \<longleftrightarrow> length ts = Suc (length ds) \<and> w \<le> length ds \<and> length (ov_changes ov) = w \<and>
     ov_latest_root ov = version_root H rg (hd ts) \<and>
     (\<forall>t \<in> set ts. wf_tree True 256 t \<and> t_node H rg True [] t \<noteq> None) \<and>
     (\<forall>i < length ds. version_step H rg (ts ! i) (ts ! Suc i) (ds ! i)) \<and>
     (\<forall>i < w. rev (ov_changes ov) ! i = \<lparr>dc_root = version_root H rg (ts ! i), dc_to_remove = map fst (sd_add (ds ! i))\<rparr>) \<and>
     (\<forall>i < w. \<forall>e \<in> set (sd_add (ds ! i)). ov_nodes ov (nk_hash (fst e)) = Some (snd e)) \<and>
     (\<forall>x n. ov_nodes ov x = Some n \<longrightarrow> (\<exists>i < w. \<exists>q. (NodeKey q x, n) \<in> set (sd_add (ds ! i)))) \<and>
     (\<forall>i \<le> length ds. i < w \<or> i = length ds \<longrightarrow> version_root H rg (ts ! i) \<in> ov_roots ov)"

lemma fold_add_nodes:
  assumes "distinct (map (nk_hash \<circ> fst) es)"
  shows "fold (\<lambda>(k, n) m. m(nk_hash k \<mapsto> n)) es m x =
    (case map_of (map (\<lambda>(k, n). (nk_hash k, n)) es) x of None \<Rightarrow> m x | Some n \<Rightarrow> Some n)"
  using assms
proof (induction es arbitrary: m)
  case (Cons e es)
  have "map_of (map (\<lambda>(k, n). (nk_hash k, n)) es) (nk_hash (fst e)) = None"
    using Cons.prems by (force simp: map_of_eq_None_iff)
  then show ?case
    using Cons by (cases e) (auto split: option.splits)
qed simp

lemma fold_remove_nodes:
  "fold (\<lambda>k m. m(nk_hash k := None)) ks m x = (if x \<in> nk_hash ` set ks then None else m x)"
  by (induction ks arbitrary: m) auto

lemma version_root_eq: "t_node H rg True [] t = Some (h, n) \<Longrightarrow> version_root H rg t = h"
  by (simp add: version_root_def del: t_node.simps)

text \<open>What an insertion does to the overlay.\<close>

lemma insert_adds:
  fixes H :: "'h::linorder NodeHasher"
  assumes H: "hasher_ok H" "ids_ok rg" and t: "wf_tree True 256 t" "t_node H rg True [] t \<noteq> None"
    and latest: "ov_latest_root (tr_overlay tree) = version_root H rg t"
    and key: "rid_ok key" "length v < 256 ^ 8" "t_lookup t (rid_bits key) \<noteq> Some v" and vp: "verified_for H rg t key vp"
    and ins: "tree_insert H tree vp v = Some (tree', Inr (h, d))"
  shows "tr_overlay tree' = add_delta h d (tr_overlay tree) \<and> wf_tree True 256 (t_insert t (rid_bits key) v) \<and>
    (\<exists>n. t_node H rg True [] (t_insert t (rid_bits key) v) = Some (h, n)) \<and>
    version_step H rg (t_insert t (rid_bits key) v) t d"
proof -
  let ?k = "rid_bits key"
  obtain n where n: "t_node H rg True [] t = Some (ov_latest_root (tr_overlay tree), n)"
    using t(2) latest by (auto simp: version_root_def simp del: t_node.simps)
  obtain n' dd where dd: "tr_overlay tree' = add_delta h d (tr_overlay tree)" "d = db_build dd"
    "t_node H rg True [] (t_insert t ?k v) = Some (h, n')"
    "nodes_ok ?k dd (t_nodes H rg True [] t) (t_nodes H rg True [] (t_insert t ?k v))"
    using tree_insert_changes [OF H t(1) n key(1,2) vp key(3)] ins by auto
  have nodes: "e \<in> set (sd_add d) \<or> \<not> prefix (nk_prefix (fst e)) ?k \<and> e \<in> set (t_nodes H rg True [] t)"
    if e: "e \<in> set (t_nodes H rg True [] (t_insert t ?k v))" for e
  proof -
    have "if prefix (nk_prefix (fst e)) ?k then bt_get (to_add dd) (fst e) = Some (snd e) else e \<in> set (t_nodes H rg True [] t)"
      using dd(4) e by (simp add: nodes_ok_def)
    moreover have "bt_get (to_add dd) (fst e) = Some (snd e) \<Longrightarrow> e \<in> set (sd_add d)"
      by (simp add: dd(2) db_build_def bt_get_def) (metis map_of_SomeD prod.collapse)
    ultimately show ?thesis
      by (auto split: if_splits)
  qed
  obtain l r where "t_insert t ?k v = MNode l r"
    using t(1) key(2) t_insert_wf(1) [of True ?k t v] key(1) by (cases "t_insert t ?k v") (simp_all add: length_rid_bits)
  then have "(NodeKey [] h, n') \<in> set (t_nodes H rg True [] (t_insert t ?k v))"
    using dd(3) by (simp add: opt_list_def del: t_node.simps)
  then have "(NodeKey [] h, n') \<in> set (sd_add d)"
    using nodes by fastforce
  then have "version_root H rg (t_insert t ?k v) \<in> added_hashes d"
    unfolding version_root_eq [OF dd(3)] added_hashes_def by force
  then show ?thesis
    using dd(1,3) nodes t_insert_wf(1) [of True ?k t v] t(1) key(1,2)
    by (auto simp: version_step_def length_rid_bits simp del: t_node.simps)
qed

lemma fresh_nodes_eq:
  assumes "fresh_nodes H rg ts ds" "e \<in> set (t_nodes H rg True [] (last ts)) \<union> set (concat (map sd_add ds))"
    "e' \<in> set (t_nodes H rg True [] (last ts)) \<union> set (concat (map sd_add ds))" "nk_hash (fst e) = nk_hash (fst e')"
  shows "e = e'"
proof -
  have "inj_on (nk_hash \<circ> fst) (set (t_nodes H rg True [] (last ts) @ concat (map sd_add ds)))"
    using assms(1) unfolding fresh_nodes_def distinct_map by blast
  then show ?thesis
    using assms(2-4) unfolding inj_on_def set_append by auto
qed

lemma fresh_nodes_tl: "fresh_nodes H rg (t' # t # ts) (d # ds) \<Longrightarrow> fresh_nodes H rg (t # ts) ds"
  by (simp add: fresh_nodes_def Int_Un_distrib)

lemma distinct_concat_disjoint:
  "distinct (concat xss) \<Longrightarrow> i < j \<Longrightarrow> j < length xss \<Longrightarrow> set (xss ! i) \<inter> set (xss ! j) = {}"
proof (induction xss arbitrary: i j)
  case (Cons xs xss)
  obtain j' where j: "j = Suc j'" "j' < length xss"
    using Cons.prems by (cases j) auto
  then have "set (xss ! j') \<subseteq> set (concat xss)"
    by (metis (no_types) concat.simps UN_upper nth_mem set_concat)
  then show ?case
    using Cons j by (cases i) auto
qed simp

lemma fresh_nodes_disjoint:
  assumes "fresh_nodes H rg ts ds" "i < length ds" "j < length ds" "i \<noteq> j"
  shows "added_hashes (ds ! i) \<inter> added_hashes (ds ! j) = {}"
proof -
  have "distinct (concat (map (\<lambda>d. map (nk_hash \<circ> fst) (sd_add d)) ds))"
    using assms(1) by (simp add: fresh_nodes_def map_concat comp_def)
  then have "set (map (nk_hash \<circ> fst) (sd_add (ds ! i))) \<inter> set (map (nk_hash \<circ> fst) (sd_add (ds ! j))) = {}"
    using distinct_concat_disjoint [of "map (\<lambda>d. map (nk_hash \<circ> fst) (sd_add d)) ds" i j]
      distinct_concat_disjoint [of "map (\<lambda>d. map (nk_hash \<circ> fst) (sd_add d)) ds" j i] assms(2-4)
    by (cases "i < j") (simp_all add: Int_commute)
  then show ?thesis
    by (simp add: added_hashes_def)
qed

section \<open>The overlay keeps the last changes\<close>

text \<open>\<open>add_delta\<close> adds a change and, once the queue is full, drops the oldest one.\<close>

definition push_delta :: "'h \<Rightarrow> 'h StoreDelta \<Rightarrow> 'h TreeOverlay \<Rightarrow> 'h TreeOverlay" where
  "push_delta root d o' = o'\<lparr>ov_nodes := fold (\<lambda>(k, n) m. m(nk_hash k \<mapsto> n)) (sd_add d) (ov_nodes o'),
     ov_roots := insert root (ov_roots o'), ov_latest_root := root,
     ov_changes := ov_changes o' @ [\<lparr>dc_root = root, dc_to_remove = map fst (sd_add d)\<rparr>]\<rparr>"

lemma add_delta_push:
  "2 \<le> ov_capacity ov \<Longrightarrow> length (ov_changes ov) < ov_capacity ov \<Longrightarrow> add_delta root d ov =
     (if length (ov_changes ov) + 1 = ov_capacity ov then expire_oldest_delta (push_delta root d ov) else push_delta root d ov)"
  by (cases "ov_changes ov") (auto simp: add_delta_def add_cleanup_def push_delta_def expire_oldest_delta_def Let_def)

lemma push_delta_inv:
  assumes inv: "overlay_inv H rg w ov (t # ts) ds" and step: "version_step H rg t' t d"
    and t': "wf_tree True 256 t'" "t_node H rg True [] t' = Some (h, n)" and fresh: "fresh_nodes H rg (t' # t # ts) (d # ds)"
  shows "overlay_inv H rg (Suc w) (push_delta h d ov) (t' # t # ts) (d # ds)"
proof -
  have dist: "distinct (map (nk_hash \<circ> fst) (sd_add d))"
    using fresh by (simp add: fresh_nodes_def)
  note nodes = fold_add_nodes [OF dist, of "ov_nodes ov"]
  have new: "ov_nodes (push_delta h d ov) (nk_hash (fst e)) = Some (snd e)" if "e \<in> set (sd_add d)" for e
  proof -
    have "map_of (map (\<lambda>(k, n). (nk_hash k, n)) (sd_add d)) (nk_hash (fst e)) = Some (snd e)"
      using that dist by (intro map_of_is_SomeI) (force simp: comp_def split_def)+
    then show ?thesis
      by (simp add: push_delta_def nodes)
  qed
  have old: "ov_nodes (push_delta h d ov) x = ov_nodes ov x" if "x \<notin> added_hashes d" for x
  proof -
    have "map_of (map (\<lambda>(k, n). (nk_hash k, n)) (sd_add d)) x = None"
      using that by (force simp: map_of_eq_None_iff added_hashes_def)
    then show ?thesis
      by (simp add: push_delta_def nodes)
  qed
  have "ov_nodes (push_delta h d ov) (nk_hash (fst e)) = Some (snd e)" if "i < Suc w" "e \<in> set (sd_add ((d # ds) ! i))" for i e
  proof (cases i)
    case (Suc j)
    have "w \<le> length ds"
      using inv by (simp add: overlay_inv_def)
    then have "added_hashes (ds ! j) \<inter> added_hashes d = {}"
      using fresh_nodes_disjoint [OF fresh, of "Suc j" 0] that(1) Suc by simp
    then have "nk_hash (fst e) \<notin> added_hashes d"
      using that(2) Suc by (auto simp: added_hashes_def)
    then show ?thesis
      using inv that Suc old by (simp add: overlay_inv_def)
  qed (use that new in simp)
  moreover have "\<exists>i < Suc w. \<exists>q. (NodeKey q x, n') \<in> set (sd_add ((d # ds) ! i))" if "ov_nodes (push_delta h d ov) x = Some n'" for x n'
  proof (cases "x \<in> added_hashes d")
    case True
    then obtain k m where km: "(k, m) \<in> set (sd_add d)" "x = nk_hash k"
      by (auto simp: added_hashes_def)
    then have "(NodeKey (nk_prefix k) x, n') \<in> set (sd_add ((d # ds) ! 0))"
      using new [OF km(1)] that by simp
    then show ?thesis
      by blast
  next
    case False
    have "ov_nodes ov x = Some n'"
      using that old [OF False] by simp
    then obtain i q where "i < w" "(NodeKey q x, n') \<in> set (sd_add (ds ! i))"
      using inv unfolding overlay_inv_def by blast
    then show ?thesis
      by (intro exI [of _ "Suc i"]) auto
  qed
  moreover have "version_step H rg ((t' # t # ts) ! i) ((t' # t # ts) ! Suc i) ((d # ds) ! i)" if "i < length (d # ds)" for i
    using that inv step by (cases i) (auto simp: overlay_inv_def)
  moreover have "rev (ov_changes (push_delta h d ov)) ! i =
      \<lparr>dc_root = version_root H rg ((t' # t # ts) ! i), dc_to_remove = map fst (sd_add ((d # ds) ! i))\<rparr>" if "i < Suc w" for i
    using that inv version_root_eq [OF t'(2)] by (cases i) (auto simp: overlay_inv_def push_delta_def)
  moreover have "version_root H rg ((t' # t # ts) ! i) \<in> ov_roots (push_delta h d ov)"
    if "i \<le> length (d # ds)" "i < Suc w \<or> i = length (d # ds)" for i
    using that inv version_root_eq [OF t'(2)] by (cases i) (auto simp: overlay_inv_def push_delta_def)
  ultimately show ?thesis
    using inv t' version_root_eq [OF t'(2)] unfolding overlay_inv_def by (auto simp: push_delta_def simp del: t_node.simps)
qed

lemma start_nodes_fresh:
  assumes "fresh_nodes H rg ts ds" "e \<in> set (t_nodes H rg True [] (last ts))" "i < length ds"
  shows "nk_hash (fst e) \<notin> added_hashes (ds ! i)"
proof
  assume "nk_hash (fst e) \<in> added_hashes (ds ! i)"
  then have "nk_hash (fst e) \<in> set (map (nk_hash \<circ> fst) (concat (map sd_add ds)))"
    using nth_mem [OF assms(3)] by (auto simp: added_hashes_def)
  moreover have "nk_hash (fst e) \<in> set (map (nk_hash \<circ> fst) (t_nodes H rg True [] (last ts)))"
    using assms(2) by auto
  ultimately show False
    using assms(1) unfolding fresh_nodes_def map_append distinct_append by blast
qed

lemma overlay_inv_root:
  "overlay_inv H rg w ov ts ds \<Longrightarrow> i \<le> length ds \<Longrightarrow> i < w \<or> i = length ds \<Longrightarrow> version_root H rg (ts ! i) \<in> ov_roots ov"
  unfolding overlay_inv_def by blast

lemma last_version: "overlay_inv H rg w ov ts ds \<Longrightarrow> ts \<noteq> [] \<and> last ts = ts ! length ds"
  by (cases ts rule: rev_cases) (auto simp: overlay_inv_def nth_append)

lemma version_roots_distinct:
  assumes inv: "overlay_inv H rg w ov ts ds" and fresh: "fresh_nodes H rg ts ds" and ij: "i < j" "j \<le> length ds"
  shows "version_root H rg (ts ! i) \<noteq> version_root H rg (ts ! j)"
proof -
  have step: "version_root H rg (ts ! l) \<in> added_hashes (ds ! l)" if "l < length ds" for l
    using inv that by (simp add: overlay_inv_def version_step_def)
  show ?thesis
  proof (cases "j < length ds")
    case True
    then show ?thesis
      using step [of i] step [of j] fresh_nodes_disjoint [OF fresh, of i j] ij by auto
  next
    case False
    have "length ts = Suc (length ds)"
      using inv by (simp add: overlay_inv_def)
    then have last: "last ts = ts ! j" "ts ! j \<in> set ts"
      using False ij last_version [OF inv] by auto
    then obtain h n where n: "t_node H rg True [] (ts ! j) = Some (h, n)" "wf_tree True 256 (ts ! j)"
      using inv by (auto simp: overlay_inv_def simp del: t_node.simps)
    then have "(NodeKey [] h, n) \<in> set (t_nodes H rg True [] (last ts))"
      by (cases "ts ! j") (simp_all add: last opt_list_def del: t_node.simps)
    then have "h \<notin> added_hashes (ds ! i)"
      using start_nodes_fresh [OF fresh, of _ i] ij by fastforce
    then show ?thesis
      using step [of i] ij version_root_eq [OF n(1)] by auto
  qed
qed

lemma expire_inv:
  assumes inv: "overlay_inv H rg (Suc w) ov ts ds" and fresh: "fresh_nodes H rg ts ds" "0 < w"
  shows "overlay_inv H rg w (expire_oldest_delta ov) ts ds"
proof -
  have len: "length (ov_changes ov) = Suc w" "Suc w \<le> length ds" "length ts = Suc (length ds)"
    using inv by (simp_all add: overlay_inv_def)
  then obtain c rest where c: "ov_changes ov = c # rest"
    by (cases "ov_changes ov") auto
  have change: "rev (ov_changes ov) ! i = \<lparr>dc_root = version_root H rg (ts ! i), dc_to_remove = map fst (sd_add (ds ! i))\<rparr>" if "i < Suc w" for i
    using inv that by (simp add: overlay_inv_def)
  have w: "length rest = w"
    using len c by simp
  have cw: "c = \<lparr>dc_root = version_root H rg (ts ! w), dc_to_remove = map fst (sd_add (ds ! w))\<rparr>"
    using change [of w] w by (simp add: c nth_append)
  have apart: "added_hashes (ds ! i) \<inter> added_hashes (ds ! w) = {}" if "i < w" for i
    using fresh_nodes_disjoint [OF fresh(1)] that len(2) by simp
  have ov: "expire_oldest_delta ov = ov\<lparr>ov_changes := rest, ov_roots := ov_roots ov - {version_root H rg (ts ! w)},
      ov_nodes := fold (\<lambda>k m. m(nk_hash k := None)) (map fst (sd_add (ds ! w))) (ov_nodes ov)\<rparr>"
    by (simp add: expire_oldest_delta_def c cw)
  have nodes: "ov_nodes (expire_oldest_delta ov) x = (if x \<in> added_hashes (ds ! w) then None else ov_nodes ov x)" for x
    unfolding ov by (simp add: fold_remove_nodes added_hashes_def image_image comp_def)
  have "ov_nodes (expire_oldest_delta ov) (nk_hash (fst e)) = Some (snd e)" if "i < w" "e \<in> set (sd_add (ds ! i))" for i e
  proof -
    have "nk_hash (fst e) \<notin> added_hashes (ds ! w)"
      using apart [OF that(1)] that(2) by (auto simp: added_hashes_def)
    moreover have "\<forall>i < Suc w. \<forall>e \<in> set (sd_add (ds ! i)). ov_nodes ov (nk_hash (fst e)) = Some (snd e)"
      using inv unfolding overlay_inv_def by blast
    then have "ov_nodes ov (nk_hash (fst e)) = Some (snd e)"
      using that less_SucI by blast
    ultimately show ?thesis
      by (simp add: nodes)
  qed
  moreover have "rev rest ! i = \<lparr>dc_root = version_root H rg (ts ! i), dc_to_remove = map fst (sd_add (ds ! i))\<rparr>" if "i < w" for i
    using change [of i] that w by (simp add: c nth_append)
  moreover have "version_root H rg (ts ! i) \<in> ov_roots (expire_oldest_delta ov)" if "i < w \<or> i = length ds" for i
  proof -
    have "version_root H rg (ts ! i) \<noteq> version_root H rg (ts ! w)"
      using version_roots_distinct [OF inv fresh(1), of i w] version_roots_distinct [OF inv fresh(1), of w i] that len(2) by auto
    moreover have "version_root H rg (ts ! i) \<in> ov_roots ov"
      using overlay_inv_root [OF inv] that len(2) by auto
    ultimately show ?thesis
      by (simp add: ov)
  qed
  moreover have "\<exists>i < w. \<exists>q. (NodeKey q x, n) \<in> set (sd_add (ds ! i))" if "ov_nodes (expire_oldest_delta ov) x = Some n" for x n
  proof -
    have x: "x \<notin> added_hashes (ds ! w)" "ov_nodes ov x = Some n"
      using that by (auto simp: nodes split: if_splits)
    then obtain i q where i: "i < Suc w" "(NodeKey q x, n) \<in> set (sd_add (ds ! i))"
      using inv unfolding overlay_inv_def by blast
    then have "i \<noteq> w"
      using x(1) by (force simp: added_hashes_def)
    then show ?thesis
      using i by (metis less_SucE)
  qed
  moreover have "ov_changes (expire_oldest_delta ov) = rest" "ov_latest_root (expire_oldest_delta ov) = ov_latest_root ov"
    by (simp_all add: ov)
  moreover have "w \<noteq> length ds" "w \<le> length ds"
    using len by simp_all
  ultimately show ?thesis
    using inv w unfolding overlay_inv_def by (simp del: t_node.simps set_concat)
qed

lemma overlay_start_inv:
  "wf_tree True 256 t \<Longrightarrow> t_node H rg True [] t = Some (root, n) \<Longrightarrow> overlay_inv H rg 0 (overlay_new root cap) [t] []"
  by (simp add: overlay_inv_def overlay_new_def version_root_eq del: t_node.simps)

lemma overlay_history_inv:
  assumes "overlay_history H rg cap tree ts ds" and H: "hasher_ok H" "ids_ok rg" "2 \<le> cap"
  shows "fresh_nodes H rg ts ds \<Longrightarrow> overlay_inv H rg (min (length ds) (cap - 1)) (tr_overlay tree) ts ds \<and> ov_capacity (tr_overlay tree) = cap"
  using assms(1)
proof induction
  case (start t root n)
  then show ?case
    using overlay_start_inv [of t H rg root n cap] by (simp add: with_existing_root_def overlay_new_def del: t_node.simps)
next
  case (insert tree t ts ds key vp v tree' h d)
  let ?w = "min (length ds) (cap - 1)" and ?t = "t_insert t (rid_bits key) v"
  have inv: "overlay_inv H rg ?w (tr_overlay tree) (t # ts) ds" "ov_capacity (tr_overlay tree) = cap"
    using insert.IH fresh_nodes_tl [OF insert.prems] by blast+
  have t: "wf_tree True 256 t" "t_node H rg True [] t \<noteq> None" "ov_latest_root (tr_overlay tree) = version_root H rg t"
    and len: "length (ov_changes (tr_overlay tree)) = ?w"
    using inv(1) by (simp_all add: overlay_inv_def del: t_node.simps)
  obtain n where new: "tr_overlay tree' = add_delta h d (tr_overlay tree)" "wf_tree True 256 ?t"
    "t_node H rg True [] ?t = Some (h, n)" "version_step H rg ?t t d"
    using insert_adds [OF H(1,2) t insert.hyps(3-5,2,6)] by blast
  have push: "overlay_inv H rg (Suc ?w) (push_delta h d (tr_overlay tree)) (?t # t # ts) (d # ds)"
    by (rule push_delta_inv [OF inv(1) new(4,2,3) insert.prems])
  have room: "2 \<le> ov_capacity (tr_overlay tree)" "length (ov_changes (tr_overlay tree)) < ov_capacity (tr_overlay tree)"
    using inv(2) len H(3) by auto
  have cap: "ov_capacity (tr_overlay tree') = cap"
    using inv(2) by (simp add: new(1) add_delta_push [OF room] push_delta_def expire_oldest_delta_def split: list.splits)
  show ?case
  proof (cases "?w + 1 = cap")
    case True
    then have "overlay_inv H rg ?w (expire_oldest_delta (push_delta h d (tr_overlay tree))) (?t # t # ts) (d # ds)"
      using H(3) by (intro expire_inv [OF push insert.prems]) simp
    moreover have "?w = min (length (d # ds)) (cap - 1)"
      using True by auto
    ultimately show ?thesis
      using True cap inv(2) len by (simp add: new(1) add_delta_push [OF room])
  next
    case False
    have "tr_overlay tree' = push_delta h d (tr_overlay tree)"
      using False inv(2) by (simp add: new(1) add_delta_push [OF room] len)
    moreover have "Suc ?w = min (length (d # ds)) (cap - 1)"
      using H(3) False by auto
    ultimately show ?thesis
      using push cap by metis
  qed
qed

section \<open>Proofs for recent versions\<close>

lemma version_nodes:
  assumes "overlay_inv H rg w ov ts ds" "i \<le> length ds" "e \<in> set (t_nodes H rg True [] (ts ! j))" "j \<le> i"
  shows "e \<in> set (t_nodes H rg True [] (ts ! i)) \<or> (\<exists>l < i. e \<in> set (sd_add (ds ! l)))"
  using assms(2,4)
proof (induction i)
  case 0
  then show ?case
    using assms(3) by simp
next
  case (Suc i)
  show ?case
  proof (cases "j = Suc i")
    case False
    have "version_step H rg (ts ! i) (ts ! Suc i) (ds ! i)"
      using assms(1) Suc.prems by (simp add: overlay_inv_def)
    then show ?thesis
      using Suc False by (auto simp: version_step_def less_Suc_eq)
  qed (use assms(3) in simp)
qed

lemma version_entry:
  assumes "overlay_inv H rg w ov ts ds" "i \<le> length ds" "e \<in> set (t_nodes H rg True [] (ts ! i))"
  shows "e \<in> set (t_nodes H rg True [] (last ts)) \<union> set (concat (map sd_add ds))"
proof -
  have "e \<in> set (concat (map sd_add ds))" if "l < length ds" "e \<in> set (sd_add (ds ! l))" for l
    using that nth_mem [of l ds] by auto
  then show ?thesis
    using last_version [OF assms(1)] version_nodes [OF assms(1) order_refl assms(3,2)] by auto
qed

lemma recent_nodes_found:
  assumes inv: "overlay_inv H rg w ov ts ds" and fresh: "fresh_nodes H rg ts ds" and i: "i \<le> w"
    and m: "\<And>e. e \<in> on_path H rg True [] (ts ! i) k \<Longrightarrow> m (nk_hash (fst e)) = Some (snd e)"
    and e: "e \<in> on_path H rg True [] (ts ! 0) k"
  shows "fetch (ov_nodes ov) m (nk_hash (fst e)) = Some (snd e)"
proof -
  have w: "w \<le> length ds"
    using inv by (simp add: overlay_inv_def)
  have e0: "e \<in> set (t_nodes H rg True [] (ts ! 0))" "prefix (nk_prefix (fst e)) k"
    using e by (simp_all add: on_path_def)
  show ?thesis
  proof (cases "ov_nodes ov (nk_hash (fst e))")
    case None
    then have "\<not> (\<exists>l < i. e \<in> set (sd_add (ds ! l)))"
      using inv i unfolding overlay_inv_def by (metis option.distinct(1) order_less_le_trans)
    then have "e \<in> on_path H rg True [] (ts ! i) k"
      using version_nodes [OF inv _ e0(1), of i] i w e0(2) by (auto simp: on_path_def)
    then show ?thesis
      using m None by (simp add: fetch_def)
  next
    case (Some n)
    then obtain l q where l: "l < w" "(NodeKey q (nk_hash (fst e)), n) \<in> set (sd_add (ds ! l))"
      using inv unfolding overlay_inv_def by blast
    then have "(NodeKey q (nk_hash (fst e)), n) \<in> set (concat (map sd_add ds))"
      using nth_mem [of l ds] w by auto
    then have "e = (NodeKey q (nk_hash (fst e)), n)"
      using fresh_nodes_eq [OF fresh version_entry [OF inv _ e0(1)]] by simp
    then show ?thesis
      using Some by (metis fetch_def option.simps(5) snd_conv)
  qed
qed

lemma recent_proof_verified:
  fixes H :: "'h::linorder NodeHasher"
  assumes H: "hasher_ok H" "ids_ok rg" and inv: "overlay_inv H rg w (tr_overlay tree) ts ds" and fresh: "fresh_nodes H rg ts ds"
    and i: "i \<le> w" "i < w \<or> w = length ds"
    and t: "t_node H rg True [] (ts ! i) = Some (rp_root_hash p, n)"
    and p: "proof_ok p" "no_collision H (t_builders H rg True [] (ts ! i)) (p_builders p)" "verify_proof H p = Some (Inr lh)"
  shows "\<exists>vp. latest_proof H tree p = Some (Inr vp) \<and> verified_for H rg (hd ts) (rp_key p) vp"
proof -
  let ?k = "rid_bits (rp_key p)" and ?ov = "tr_overlay tree"
  have len: "length ts = Suc (length ds)" "w \<le> length ds" "hd ts = ts ! 0"
    using inv last_version [OF inv] by (simp_all add: overlay_inv_def hd_conv_nth)
  have ts: "wf_tree True 256 (ts ! j)" "t_node H rg True [] (ts ! j) \<noteq> None" if "j \<le> length ds" for j
  proof -
    have "ts ! j \<in> set ts" "\<forall>t \<in> set ts. wf_tree True 256 t \<and> t_node H rg True [] t \<noteq> None"
      using inv that len(1) unfolding overlay_inv_def by (simp, blast)
    then show "wf_tree True 256 (ts ! j)" "t_node H rg True [] (ts ! j) \<noteq> None"
      by blast+
  qed
  have key: "rid_ok (rp_key p)" "length ?k = 256"
    using p(1) by (simp_all add: proof_ok_def length_rid_bits)
  have wf: "wf_tree True 256 (ts ! i)"
    using ts(1) i len by simp
  have walk: "t_walk H rg True [] (ts ! i) ?k = (rp_path p, rp_leaf p)" "rp_range p = rg"
    using verify_proof_walk [OF H(1) wf _ _ t p] H(2) by (auto simp: ids_ok_def)
  have root: "rp_root_hash p = version_root H rg (ts ! i)" "rp_root_hash p \<in> ov_roots ?ov"
    "ov_latest_root ?ov = version_root H rg (ts ! 0)"
    using overlay_inv_root [OF inv, of i] inv i len version_root_eq [OF t] by (auto simp: overlay_inv_def)
  obtain h0 n0 where t0: "t_node H rg True [] (ts ! 0) = Some (h0, n0)" "h0 = ov_latest_root ?ov"
    using ts(2) [of 0] version_root_eq root(3) by fastforce
  have "\<exists>vp. new_make_latest p ?ov lh = Some vp \<and> verified_for H rg (ts ! 0) (rp_key p) vp"
  proof (cases "rp_root_hash p = ov_latest_root ?ov")
    case True
    have "i = 0"
      using True root(1,3) version_roots_distinct [OF inv fresh, of 0 i] i(1) len(2) by fastforce
    have "already_latest_loop ?k 0 (rp_root_hash p) (rp_path p) = Some (t_steps H rg True [] (ts ! i) ?k)"
      using already_latest_steps [OF key(2) t, of ?k] wf walk(1) key(2) by simp
    then show ?thesis
      using True root(2) walk \<open>i = 0\<close> by (simp add: new_make_latest_def new_already_latest_def verified_for_def)
  next
    case False
    obtain m m' where m: "(case rp_leaf p of Some l \<Rightarrow> do { h \<leftarrow> lh; Some [h \<mapsto> Leaf l] } | None \<Rightarrow> Some Map.empty) = Some m"
      "proof_nodes_loop ?k (rp_root_hash p) (rp_path p) m = Some m'"
      "\<And>e. e \<in> on_path H rg True [] (ts ! i) ?k \<Longrightarrow> m' (nk_hash (fst e)) = Some (snd e)"
      using proof_map_ok [OF t wf key(1) walk(1) p(3)] fresh_nodes_eq [OF fresh] version_entry [OF inv, of i] i(1) len(2)
      by (meson order_trans)
    have "make_latest_loop (fetch (ov_nodes ?ov) m') ?k 0 (ov_latest_root ?ov) =
        Some (Some (t_steps H rg True [] (ts ! 0) ?k, snd (t_walk H rg True [] (ts ! 0) ?k)))"
      using make_latest_steps [OF t0(1) _ _ recent_nodes_found [OF inv fresh i(1) m(3)], of ?k ?k] ts(1) [of 0] key(2) t0(2) by simp
    then show ?thesis
      using False root(2) m(1,2) walk(2) by (simp add: new_make_latest_def verified_for_def Let_def)
  qed
  then show ?thesis
    using root(2) p(3) len(3) by (auto simp: latest_proof_def verify_def)
qed

text \<open>
  C18: proofs for recent versions.  Let a tree start from an existing root and be changed by
  insertions, such that no node is added twice: no two nodes of the first version and of the deltas
  have the same hash.  (Records are stored encrypted with a fresh nonce, so that a leaf does not
  come back; \<open>recurring_root_stale\<close> in \<open>OverlayLimits\<close> shows what happens when one does.)  Let a proof
  verify against the root of any of the versions that the overlay still covers: the newest one and
  the ones at most \<open>cap - 2\<close> insertions older.  Then the loop that brings the proof up to date ends
  and does not panic: the verified proof holds the newest value of the record, and inserting with it
  gives the root hash of the newest version with that record updated and a delta for the store.
\<close>

theorem recent_proof_latest:
  fixes H :: "'h::linorder NodeHasher"
  assumes "hasher_ok H" "ids_ok rg" "2 \<le> cap" "overlay_history H rg cap tree ts ds" "fresh_nodes H rg ts ds"
    and "i < length ts" "i < cap - 1" "t_node H rg True [] (ts ! i) = Some (rp_root_hash p, n)"
    and "proof_ok p" "no_collision H (t_builders H rg True [] (ts ! i)) (p_builders p)" "verify_proof H p = Some (Inr lh)"
    and "length v < 256 ^ 8"
  shows "\<exists>vp tree' h d t' n'. latest_proof H tree p = Some (Inr vp) \<and>
    map_option lf_value (vp_leaf vp) = t_lookup (hd ts) (rid_bits (rp_key p)) \<and>
    tree_insert H tree vp v = Some (tree', Inr (h, d)) \<and> t_node H rg True [] t' = Some (h, n') \<and>
    (\<forall>k. rid_ok k \<longrightarrow> t_lookup t' (rid_bits k) = (if k = rp_key p then Some v else t_lookup (hd ts) (rid_bits k))) \<and>
    (\<forall>st. holds_tree H rg st (hd ts) \<longrightarrow> holds_tree H rg (apply_delta d st) t')"
proof -
  let ?w = "min (length ds) (cap - 1)"
  have inv: "overlay_inv H rg ?w (tr_overlay tree) ts ds"
    using overlay_history_inv [OF assms(4,1,2,3,5)] by blast
  then have len: "length ts = Suc (length ds)" "hd ts \<in> set ts"
    using last_version [OF inv] by (simp_all add: overlay_inv_def)
  obtain vp where vp: "latest_proof H tree p = Some (Inr vp)" "verified_for H rg (hd ts) (rp_key p) vp"
    using recent_proof_verified [OF assms(1,2) inv assms(5) _ _ assms(8-11)] assms(6,7) len(1) by fastforce
  have key: "rid_ok (rp_key p)"
    using assms(9) by (simp add: proof_ok_def)
  have ov: "\<forall>t \<in> set ts. wf_tree True 256 t \<and> t_node H rg True [] t \<noteq> None" "ov_latest_root (tr_overlay tree) = version_root H rg (hd ts)"
    using inv unfolding overlay_inv_def by blast+
  then obtain n0 where t: "wf_tree True 256 (hd ts)" "t_node H rg True [] (hd ts) = Some (ov_latest_root (tr_overlay tree), n0)"
    using len(2) unfolding version_root_def by (metis option.exhaust_sel prod.collapse)
  show ?thesis
    using tree_insert_ok [OF assms(1,2) t key assms(12) vp(2)] vp(1) verified_for_root(2) [OF t key vp(2)] by blast
qed

section \<open>Two insertions into an empty tree\<close>

definition empty_tree :: mtree where
  "empty_tree = MNode MNone MNone"

lemma overlay_example_hashes:
  "nhb_build tag_hasher (NHRoot range_full None None) = Some 76"
  "nhb_build tag_hasher (NHRoot range_full (Some low_branch) None) = Some 108"
  "nhb_build tag_hasher (NHRoot range_full (Some low_branch) (Some high_branch)) = Some 140"
proof -
  have ok: "rid_bytes (rg_start range_full) = 0 # replicate 31 0" "rid_ok (rg_start range_full)" "rid_ok (rg_end range_full)"
    using record_id_min_ok(1) record_id_max_ok(1) by (simp_all add: range_full_def split_key_ok(3))
  show "nhb_build tag_hasher (NHRoot range_full (Some low_branch) None) = Some 108"
    "nhb_build tag_hasher (NHRoot range_full (Some low_branch) (Some high_branch)) = Some 140"
    using split_example_hashes(3,4) [OF ok] by simp_all
  show "nhb_build tag_hasher (NHRoot range_full None None) = Some 76"
    using ok by (simp add: nhb_build_def nhb_bytes_def tag_hasher_def example_hasher_def ascii_def branches_bytes_def branch_len_def
      branch_bytes_def length_bytes_of_bits rid_ok_def record_id_num_bytes_def Let_def)
qed

lemma t_proof_current:
  assumes "hasher_ok H" "wf_tree True 256 t" "range_ok rg" "key \<in> range_set rg" "t_node H rg True [] t = Some (root, n)"
    and "ov_latest_root (tr_overlay tree) = root" "root \<in> ov_roots (tr_overlay tree)"
  shows "latest_proof H tree (t_proof H rg t root key) = Some (Inr \<lparr>vp_path = t_steps H rg True [] t (rid_bits key),
    vp_leaf = snd (t_walk H rg True [] t (rid_bits key)), vp_key = key, vp_range = rg\<rparr>)"
proof -
  obtain lh where v: "verify_proof H (t_proof H rg t root key) = Some (Inr lh)"
    using t_proof_verifies [OF assms(1-5)] by blast
  have len: "length (rid_bits key) = 256"
    using assms(4) by (simp add: range_set_def length_rid_bits)
  have "already_latest_loop (rid_bits key) 0 root (fst (t_walk H rg True [] t (rid_bits key))) =
      Some (t_steps H rg True [] t (rid_bits key))"
    using already_latest_steps [OF len assms(5), of "rid_bits key"] assms(2) len by simp
  moreover have "rp_root_hash (t_proof H rg t root key) = root"
    by (simp add: t_proof_def)
  ultimately show ?thesis
    using v assms(6,7) by (simp add: latest_proof_def verify_def new_make_latest_def new_already_latest_def t_proof_def)
qed

text \<open>Inserting a record below a root that has nothing on its side.\<close>

lemma insert_beside:
  fixes H :: "'h::linorder NodeHasher"
  assumes "rid_bits key = x # ks" "branch i (dir_from x) = None" "new_leaf H key v = Some (lh, \<lparr>lf_value = v\<rparr>)"
    and "with_new_child H i rg True (dir_from x) \<lparr>br_prefix = rid_bits key, br_hash = lh\<rparr> = Some (h, i')" "r \<noteq> h"
  shows "insert_path H \<lparr>vp_path = [step_at r i [] x], vp_leaf = None, vp_key = key, vp_range = rg\<rparr> v =
    Some (h, \<lparr>sd_add = [(NodeKey [] h, Interior i'), (NodeKey (rid_bits key) lh, Leaf \<lparr>lf_value = v\<rparr>)],
      sd_remove = [(NodeKey [] r, ())]\<rparr>)"
  using assms
  by (simp add: insert_path_def insert_last_def kv_from_def step_at_def db_add_def db_remove_def db_new_def db_build_def less_NodeKey_def Let_def)

definition delta_1 :: "u8 StoreDelta" where
  "delta_1 = \<lparr>sd_add = [(NodeKey [] 108, Interior \<lparr>in_left = Some low_branch, in_right = None\<rparr>),
     (NodeKey (rid_bits record_id_min) 46, Leaf \<lparr>lf_value = [1, 2]\<rparr>)], sd_remove = [(NodeKey [] 76, ())]\<rparr>"

definition delta_2 :: "u8 StoreDelta" where
  "delta_2 = \<lparr>sd_add = [(NodeKey [] 140, Interior \<lparr>in_left = Some low_branch, in_right = Some high_branch\<rparr>),
     (NodeKey (rid_bits split_key) 173, Leaf \<lparr>lf_value = [3]\<rparr>)], sd_remove = [(NodeKey [] 108, ())]\<rparr>"

definition tree_1 :: "nat \<Rightarrow> u8 Tree" where
  "tree_1 cap = \<lparr>tr_overlay = add_delta 108 delta_1 (overlay_new 76 cap)\<rparr>"

definition tree_2 :: "nat \<Rightarrow> u8 Tree" where
  "tree_2 cap = \<lparr>tr_overlay = add_delta 140 delta_2 (add_delta 108 delta_1 (overlay_new 76 cap))\<rparr>"

lemma overlay_example_nodes:
  "t_node tag_hasher range_full True [] empty_tree = Some (76, Interior \<lparr>in_left = None, in_right = None\<rparr>)"
  "t_node tag_hasher range_full True [] low_example = Some (108, Interior \<lparr>in_left = Some low_branch, in_right = None\<rparr>)"
proof -
  obtain ms where ms: "rid_bits record_id_min = False # ms"
    using split_key_bits by blast
  show "t_node tag_hasher range_full True [] empty_tree = Some (76, Interior \<lparr>in_left = None, in_right = None\<rparr>)"
    using overlay_example_hashes(1) by (simp add: empty_tree_def new_with_hash_def calc_hash_def interior_new_def assert_dir_def)
  show "t_node tag_hasher range_full True [] low_example = Some (108, Interior \<lparr>in_left = Some low_branch, in_right = None\<rparr>)"
    using overlay_example_hashes(2) split_example_branches(1) [of range_full]
    by (simp add: low_example_def new_with_hash_def calc_hash_def interior_new_def assert_dir_def branch_dir_def index_get_def low_branch_def ms dir_from_def
        del: t_branch.simps(2))
qed

lemma overlay_example_inserts:
  "insert_path tag_hasher \<lparr>vp_path = t_steps tag_hasher range_full True [] empty_tree (rid_bits record_id_min),
     vp_leaf = snd (t_walk tag_hasher range_full True [] empty_tree (rid_bits record_id_min)), vp_key = record_id_min, vp_range = range_full\<rparr> [1, 2] =
     Some (108, delta_1)"
  "insert_path tag_hasher \<lparr>vp_path = t_steps tag_hasher range_full True [] low_example (rid_bits split_key),
     vp_leaf = snd (t_walk tag_hasher range_full True [] low_example (rid_bits split_key)), vp_key = split_key, vp_range = range_full\<rparr> [3] =
     Some (140, delta_2)"
proof -
  obtain ks ms where ks: "rid_bits split_key = True # ks" "rid_bits record_id_min = False # ms"
    using split_key_bits by blast
  have steps: "t_steps tag_hasher range_full True [] empty_tree (rid_bits record_id_min) = [step_at 76 \<lparr>in_left = None, in_right = None\<rparr> [] False]"
    "t_steps tag_hasher range_full True [] low_example (rid_bits split_key) = [step_at 108 \<lparr>in_left = Some low_branch, in_right = None\<rparr> [] True]"
    unfolding empty_tree_def low_example_def ks
    using t_steps_MNode [OF overlay_example_nodes(1) [unfolded empty_tree_def], of False ms]
      t_steps_MNode [OF overlay_example_nodes(2) [unfolded low_example_def ks], of True ks]
    by (simp_all add: step_at_def del: t_steps.simps)
  have walks: "snd (t_walk tag_hasher range_full True [] empty_tree (rid_bits record_id_min)) = None"
    "snd (t_walk tag_hasher range_full True [] low_example (rid_bits split_key)) = None"
    using split_example_branches(1) [of range_full] by (simp_all add: empty_tree_def low_example_def ks split: option.splits)
  show "insert_path tag_hasher \<lparr>vp_path = t_steps tag_hasher range_full True [] empty_tree (rid_bits record_id_min),
     vp_leaf = snd (t_walk tag_hasher range_full True [] empty_tree (rid_bits record_id_min)), vp_key = record_id_min, vp_range = range_full\<rparr> [1, 2] =
     Some (108, delta_1)"
    unfolding steps walks delta_1_def
    by (rule insert_beside [OF ks(2)])
      (use overlay_example_hashes(2) split_example_hashes(1) ks in
        \<open>simp_all add: branch_def dir_from_def new_leaf_def with_new_child_def new_with_hash_def calc_hash_def interior_new_def assert_dir_def branch_dir_def index_get_def low_branch_def\<close>)
  show "insert_path tag_hasher \<lparr>vp_path = t_steps tag_hasher range_full True [] low_example (rid_bits split_key),
     vp_leaf = snd (t_walk tag_hasher range_full True [] low_example (rid_bits split_key)), vp_key = split_key, vp_range = range_full\<rparr> [3] =
     Some (140, delta_2)"
    unfolding steps walks delta_2_def
    by (rule insert_beside [OF ks(1)])
      (use overlay_example_hashes(3) split_example_hashes(2) ks in
        \<open>simp_all add: branch_def dir_from_def new_leaf_def with_new_child_def new_with_hash_def calc_hash_def interior_new_def assert_dir_def branch_dir_def index_get_def low_branch_def high_branch_def\<close>)
qed

definition start_proof :: "u8 ReadProof" where
  "start_proof = t_proof tag_hasher range_full empty_tree 76 record_id_min"

definition next_proof :: "u8 ReadProof" where
  "next_proof = t_proof tag_hasher range_full low_example 108 split_key"

lemma overlay_example_wf:
  "wf_tree True 256 empty_tree" "range_ok range_full" "record_id_min \<in> range_set range_full" "split_key \<in> range_set range_full"
  "t_walk tag_hasher range_full True [] empty_tree (rid_bits record_id_min) = ([\<lparr>in_left = None, in_right = None\<rparr>], None)"
  using split_key_bits(2) split_key_ok(1) rid_val_bound [of split_key] example_range(1)
  by (auto simp: empty_tree_def range_set_def range_full_def rid_le)

lemma overlay_example_runs:
  assumes "2 \<le> cap"
  shows "\<exists>vp. latest_proof tag_hasher (with_existing_root 76 cap) start_proof = Some (Inr vp) \<and>
      verified_for tag_hasher range_full empty_tree record_id_min vp \<and>
      tree_insert tag_hasher (with_existing_root 76 cap) vp [1, 2] = Some (tree_1 cap, Inr (108, delta_1))"
    and "\<exists>vp. latest_proof tag_hasher (tree_1 cap) next_proof = Some (Inr vp) \<and>
      verified_for tag_hasher range_full low_example split_key vp \<and>
      tree_insert tag_hasher (tree_1 cap) vp [3] = Some (tree_2 cap, Inr (140, delta_2))"
proof -
  have "ov_latest_root (tr_overlay (tree_1 cap)) = 108" "108 \<in> ov_roots (tr_overlay (tree_1 cap))"
    using assms by (auto simp: tree_1_def add_delta_def add_cleanup_def expire_oldest_delta_def overlay_new_def Let_def)
  note vps = t_proof_current [OF tag_hasher_ok overlay_example_wf(1-3) overlay_example_nodes(1), of "with_existing_root 76 cap"]
    t_proof_current [OF tag_hasher_ok merge_example_wf(1) overlay_example_wf(2,4) overlay_example_nodes(2) this]
  obtain ks ms where ks: "rid_bits split_key = True # ks" "rid_bits record_id_min = False # ms"
    using split_key_bits by blast
  have roots: "vp_root_hash \<lparr>vp_path = t_steps tag_hasher range_full True [] empty_tree (rid_bits record_id_min), vp_leaf = lf, vp_key = k, vp_range = rg\<rparr> = Some 76"
    "vp_root_hash \<lparr>vp_path = t_steps tag_hasher range_full True [] low_example (rid_bits split_key), vp_leaf = lf, vp_key = k, vp_range = rg\<rparr> = Some 108" for lf k rg
    unfolding empty_tree_def low_example_def ks
    using t_steps_MNode [OF overlay_example_nodes(1) [unfolded empty_tree_def], of False ms]
      t_steps_MNode [OF overlay_example_nodes(2) [unfolded low_example_def ks], of True ks]
    by (simp_all add: vp_root_hash_def index_get_def del: t_steps.simps)
  show "\<exists>vp. latest_proof tag_hasher (with_existing_root 76 cap) start_proof = Some (Inr vp) \<and>
      verified_for tag_hasher range_full empty_tree record_id_min vp \<and>
      tree_insert tag_hasher (with_existing_root 76 cap) vp [1, 2] = Some (tree_1 cap, Inr (108, delta_1))"
    using vps(1) roots(1) overlay_example_inserts(1) overlay_example_wf(5)
    by (simp add: start_proof_def tree_insert_def with_existing_root_def overlay_new_def tree_1_def verified_for_def)
  have "snd (t_walk tag_hasher range_full True [] low_example (rid_bits split_key)) = None"
    using split_example_branches(1) [of range_full] by (simp add: low_example_def ks split: option.splits)
  then show "\<exists>vp. latest_proof tag_hasher (tree_1 cap) next_proof = Some (Inr vp) \<and>
      verified_for tag_hasher range_full low_example split_key vp \<and>
      tree_insert tag_hasher (tree_1 cap) vp [3] = Some (tree_2 cap, Inr (140, delta_2))"
    using vps(2) roots(2) overlay_example_inserts(2) \<open>ov_latest_root (tr_overlay (tree_1 cap)) = 108\<close>
    by (auto simp: next_proof_def tree_insert_def tree_1_def tree_2_def verified_for_def simp del: t_steps.simps t_walk.simps)
qed

lemma start_proof_ok:
  "proof_ok start_proof" "rp_key start_proof = record_id_min"
  "t_node tag_hasher range_full True [] empty_tree = Some (rp_root_hash start_proof, Interior \<lparr>in_left = None, in_right = None\<rparr>)"
  "no_collision tag_hasher (t_builders tag_hasher range_full True [] empty_tree) (p_builders start_proof)"
  "\<exists>lh. verify_proof tag_hasher start_proof = Some (Inr lh)"
  "t_nodes tag_hasher range_full True [] empty_tree = [(NodeKey [] 76, Interior \<lparr>in_left = None, in_right = None\<rparr>)]"
proof -
  have "ids_ok range_full" "rid_ok record_id_min"
    using overlay_example_wf(2) by (simp_all add: range_ok_def ids_ok_def)
  then show "proof_ok start_proof"
    by (simp add: start_proof_def t_proof_ok overlay_example_wf(1))
  show "rp_key start_proof = record_id_min"
    "t_node tag_hasher range_full True [] empty_tree = Some (rp_root_hash start_proof, Interior \<lparr>in_left = None, in_right = None\<rparr>)"
    using overlay_example_nodes(1) by (simp_all add: start_proof_def t_proof_def del: t_node.simps)
  have "p_builders start_proof = [NHRoot range_full None None]"
    by (simp add: p_builders_def start_proof_def t_proof_def overlay_example_wf(5))
  moreover have "t_builders tag_hasher range_full True [] empty_tree = [NHRoot range_full None None]"
    by (simp add: empty_tree_def node_builder_def opt_list_def)
  ultimately show "no_collision tag_hasher (t_builders tag_hasher range_full True [] empty_tree) (p_builders start_proof)"
    by (simp add: no_collision_def)
  show "\<exists>lh. verify_proof tag_hasher start_proof = Some (Inr lh)"
    using t_proof_verifies [OF tag_hasher_ok overlay_example_wf(1-3) overlay_example_nodes(1)] by (auto simp: start_proof_def)
  show "t_nodes tag_hasher range_full True [] empty_tree = [(NodeKey [] 76, Interior \<lparr>in_left = None, in_right = None\<rparr>)]"
    using overlay_example_nodes(1) by (simp add: empty_tree_def opt_list_def del: t_node.simps)
qed

lemma first_insertion:
  assumes "2 \<le> cap"
  shows "overlay_history tag_hasher range_full cap (tree_1 cap) [low_example, empty_tree] [delta_1]"
proof -
  obtain ms where ms: "rid_bits record_id_min = False # ms"
    using split_key_bits by blast
  obtain vp where vp: "verified_for tag_hasher range_full empty_tree record_id_min vp"
    "tree_insert tag_hasher (with_existing_root 76 cap) vp [1, 2] = Some (tree_1 cap, Inr (108, delta_1))"
    using overlay_example_runs(1) [OF assms] by auto
  have "t_insert empty_tree (rid_bits record_id_min) [1, 2] = low_example" "t_lookup empty_tree (rid_bits record_id_min) = None"
    by (simp_all add: empty_tree_def low_example_def ms)
  then show ?thesis
    using overlay_history.insert [OF overlay_history.start [OF overlay_example_wf(1) overlay_example_nodes(1)] vp(1) record_id_min_ok(1) _ _ vp(2)]
    by simp
qed

theorem recent_proof_latest_witness:
  "\<exists>vp tree' h d. latest_proof tag_hasher (tree_1 3) start_proof = Some (Inr vp) \<and>
     map_option lf_value (vp_leaf vp) = Some [1, 2] \<and> tree_insert tag_hasher (tree_1 3) vp [9] = Some (tree', Inr (h, d))"
proof -
  have ids: "ids_ok range_full" "t_lookup low_example (rid_bits record_id_min) = Some [1, 2]"
    using overlay_example_wf(2) split_key_bits by (auto simp: range_ok_def ids_ok_def low_example_def)
  have hist: "overlay_history tag_hasher range_full 3 (tree_1 3) [low_example, empty_tree] [delta_1]"
    by (rule first_insertion) simp
  have fresh: "fresh_nodes tag_hasher range_full [low_example, empty_tree] [delta_1]"
    by (simp add: fresh_nodes_def start_proof_ok(6) delta_1_def)
  have p: "[low_example, empty_tree] ! 1 = empty_tree"
    by simp
  obtain lh where "verify_proof tag_hasher start_proof = Some (Inr lh)"
    using start_proof_ok(5) by blast
  then show ?thesis
    using recent_proof_latest [OF tag_hasher_ok ids(1) _ hist fresh, of 1 start_proof, unfolded p, OF _ _ _ start_proof_ok(3,1,4), of lh "[9]"]
      ids(2) start_proof_ok(2) by auto
qed

end
