(* ===== verification/OverlayLimits.thy ===== *)
theory OverlayLimits
  imports MerkleOverlay
begin

text \<open>
  Where the overlay of \<open>src/hsm_core/src/merkle/overlay.rs\<close> does not give an up to date view of
  the tree: the root it was created with is never forgotten although the nodes below later roots
  are, and a root that comes back is forgotten together with the change that first made it.
\<close>

section \<open>Missing nodes\<close>

text \<open>The loop panics when a node on the path cannot be fetched.\<close>

lemma make_latest_panics:
  assumes "t_node H rg root pre t = Some (h, n)" "wf_tree root (length k) t" "full = pre @ k"
    and "\<And>e. e \<in> on_path H rg root pre t k \<Longrightarrow> get (nk_hash (fst e)) \<in> {None, Some (snd e)}"
    and "e \<in> on_path H rg root pre t k" "get (nk_hash (fst e)) = None"
  shows "make_latest_loop get full (length pre) h = Some None"
  using assms
proof (induction rule: path_induct)
  case (leaf root pre v h)
  have "get h = None"
    using leaf(1,4,5) by (auto simp: on_path_def opt_list_def)
  then show ?case
    by (subst make_latest_loop.simps) simp
next
  case (stop root pre l r h i x ks)
  have "get h = None"
    using stop(8,9) unfolding stop(5) by auto
  then show ?case
    by (subst make_latest_loop.simps) simp
next
  case (down root pre l r h i x ks p h1 n1 t')
  show ?case
  proof (cases "get h")
    case None
    then show ?thesis
      by (subst make_latest_loop.simps) simp
  next
    case (Some n')
    then have get: "get h = Some (Interior i)"
      using down(10) [of "(NodeKey pre h, Interior i)"] down(7) by simp
    then have e: "e \<in> on_path H rg False (pre @ p) t' (drop (length p) (x # ks))"
      using down(11,12) unfolding down(7) by auto
    have "kv_to full (length pre) = Some pre" "kv_from full (length pre) = Some (x # ks)"
      using down(9) by (auto simp: kv_to_def kv_from_def)
    moreover have "full = (pre @ p) @ drop (length p) (x # ks)"
      using down(3,9) by (auto simp: prefix_def)
    then have "make_latest_loop get full (length (pre @ p)) h1 = Some None"
      using down(7,8,10,12) e by blast
    ultimately show ?thesis
      using get down(2,3) by (subst make_latest_loop.simps) (simp add: index_get_def Let_def)
  qed
qed

section \<open>The first root\<close>

definition proof_nodes :: "'h ReadProof \<Rightarrow> 'h option \<Rightarrow> ('h \<rightharpoonup> 'h Node) option" where
  "proof_nodes p leaf_hash = do {
     m \<leftarrow> (case rp_leaf p of
             Some l \<Rightarrow> do { lh \<leftarrow> leaf_hash; Some [lh \<mapsto> Leaf l] }
           | None \<Rightarrow> Some Map.empty);
     proof_nodes_loop (rid_bits (rp_key p)) (rp_root_hash p) (rp_path p) m
   }"

lemma added_hashesI: "(NodeKey q x, n) \<in> set (sd_add d) \<Longrightarrow> x \<in> added_hashes d"
  unfolding added_hashes_def by (erule image_eqI [rotated]) simp

lemma expired_node_missing:
  assumes inv: "overlay_inv H rg w ov ts ds" and fresh: "fresh_nodes H rg ts ds" and j: "w \<le> j" "j < length ds"
    and e: "e \<in> set (sd_add (ds ! j))" and m: "\<And>x n'. m x = Some n' \<Longrightarrow> \<exists>q. (NodeKey q x, n') \<in> set (t_nodes H rg True [] (last ts))"
  shows "fetch (ov_nodes ov) m (nk_hash (fst e)) = None"
proof -
  have hash: "nk_hash (fst e) \<in> added_hashes (ds ! j)"
    using e by (auto simp: added_hashes_def)
  have "ov_nodes ov (nk_hash (fst e)) = None"
  proof (rule ccontr)
    assume "ov_nodes ov (nk_hash (fst e)) \<noteq> None"
    then obtain n i q where i: "i < w" "(NodeKey q (nk_hash (fst e)), n) \<in> set (sd_add (ds ! i))"
      using inv unfolding overlay_inv_def by blast
    then have "nk_hash (fst e) \<in> added_hashes (ds ! i)"
      using added_hashesI [OF i(2)] by simp
    then show False
      using fresh_nodes_disjoint [OF fresh, of i j] hash i(1) j by auto
  qed
  moreover have "m (nk_hash (fst e)) = None"
  proof (rule ccontr)
    assume "m (nk_hash (fst e)) \<noteq> None"
    then obtain n q where "(NodeKey q (nk_hash (fst e)), n) \<in> set (t_nodes H rg True [] (last ts))"
      using m by blast
    then show False
      using start_nodes_fresh [OF fresh _ j(2)] hash by fastforce
  qed
  ultimately show ?thesis
    by (simp add: fetch_def)
qed

lemma fetched_node:
  assumes inv: "overlay_inv H rg w ov ts ds" and fresh: "fresh_nodes H rg ts ds"
    and e: "e \<in> set (t_nodes H rg True [] (hd ts))"
    and m: "\<And>x n'. m x = Some n' \<Longrightarrow> \<exists>q. (NodeKey q x, n') \<in> set (t_nodes H rg True [] (last ts))"
  shows "fetch (ov_nodes ov) m (nk_hash (fst e)) \<in> {None, Some (snd e)}"
proof (cases "fetch (ov_nodes ov) m (nk_hash (fst e))")
  case (Some n)
  let ?all = "set (t_nodes H rg True [] (last ts)) \<union> set (concat (map sd_add ds))"
  have len: "w \<le> length ds" "hd ts = ts ! 0"
    using inv last_version [OF inv] by (simp_all add: overlay_inv_def hd_conv_nth)
  have "\<exists>q. (NodeKey q (nk_hash (fst e)), n) \<in> ?all"
  proof (cases "ov_nodes ov (nk_hash (fst e))")
    case None
    then have "m (nk_hash (fst e)) = Some n"
      using Some by (simp add: fetch_def)
    from m [OF this] show ?thesis
      by blast
  next
    case (Some n')
    then obtain i q where i: "i < w" "(NodeKey q (nk_hash (fst e)), n') \<in> set (sd_add (ds ! i))"
      using inv unfolding overlay_inv_def by blast
    moreover have "n' = n"
      using Some \<open>fetch (ov_nodes ov) m (nk_hash (fst e)) = Some n\<close> by (simp add: fetch_def)
    moreover have "ds ! i \<in> set ds"
      using i(1) len(1) by simp
    ultimately have "(NodeKey q (nk_hash (fst e)), n) \<in> ?all"
      using i(2) by auto
    then show ?thesis ..
  qed
  then obtain q where q: "(NodeKey q (nk_hash (fst e)), n) \<in> ?all"
    by blast
  have "e = (NodeKey q (nk_hash (fst e)), n)"
    using fresh_nodes_eq [OF fresh version_entry [OF inv, of 0] q] e len(2) by simp
  then show ?thesis
    using Some by (metis insertI1 insertI2 snd_conv)
qed simp

text \<open>
  C34: the root that an overlay starts with is never forgotten.  Let a tree start from an existing
  root and be changed by insertions that add no node twice, at least as many as the overlay has
  room for, and let a verified proof for the first root be for a record such that a node on the
  path to it in the newest tree was added by an insertion that the overlay has dropped.  Then the root
  is still among the ones the overlay knows, so that the proof is not refused as stale, and the
  loop that brings it up to date comes to a node that is in neither the overlay nor the proof,
  and panics.
\<close>

theorem first_root_panics:
  fixes H :: "'h::linorder NodeHasher"
  assumes "hasher_ok H" "ids_ok rg" "2 \<le> cap" "overlay_history H rg cap tree ts ds" "fresh_nodes H rg ts ds"
    and "t_node H rg True [] (last ts) = Some (rp_root_hash p, n)"
    and "proof_ok p" "no_collision H (t_builders H rg True [] (last ts)) (p_builders p)" "verify_proof H p = Some (Inr lh)"
    and "cap - 1 \<le> j" "j < length ds" "e \<in> set (sd_add (ds ! j))" "e \<in> on_path H rg True [] (hd ts) (rid_bits (rp_key p))"
  shows "rp_root_hash p \<in> ov_roots (tr_overlay tree) \<and>
    (\<exists>m. proof_nodes p lh = Some m \<and> make_latest_loop (fetch (ov_nodes (tr_overlay tree)) m) (rid_bits (rp_key p)) 0
       (ov_latest_root (tr_overlay tree)) = Some None) \<and>
    latest_proof H tree p = None"
proof -
  let ?w = "min (length ds) (cap - 1)" and ?k = "rid_bits (rp_key p)" and ?ov = "tr_overlay tree"
  have inv: "overlay_inv H rg ?w ?ov ts ds"
    using overlay_history_inv [OF assms(4,1,2,3,5)] by blast
  have len: "length ts = Suc (length ds)" "ts \<noteq> []" "last ts = ts ! length ds" "hd ts = ts ! 0"
    using inv last_version [OF inv] by (auto simp: overlay_inv_def hd_conv_nth)
  have ts: "\<forall>t \<in> set ts. wf_tree True 256 t \<and> t_node H rg True [] t \<noteq> None" "ov_latest_root ?ov = version_root H rg (hd ts)"
    using inv unfolding overlay_inv_def by blast+
  have key: "rid_ok (rp_key p)" "length ?k = 256"
    using assms(7) by (simp_all add: proof_ok_def length_rid_bits)
  have wf: "wf_tree True 256 (last ts)" "wf_tree True 256 (hd ts)"
    using ts(1) len(2) by simp_all
  have "0 < length ds"
    using assms(11) by auto
  then have root: "rp_root_hash p \<in> ov_roots ?ov" "rp_root_hash p \<noteq> ov_latest_root ?ov"
    using overlay_inv_root [OF inv, of "length ds"] version_roots_distinct [OF inv assms(5), of 0 "length ds"]
      version_root_eq [OF assms(6)] ts(2) len by auto
  obtain n0 where t0: "t_node H rg True [] (hd ts) = Some (ov_latest_root ?ov, n0)"
    using ts len(2) unfolding version_root_def by (metis hd_in_set option.exhaust_sel prod.collapse)
  have walk: "t_walk H rg True [] (last ts) ?k = (rp_path p, rp_leaf p)"
    using verify_proof_walk [OF assms(1) wf(1) _ _ assms(6-9)] assms(2) by (auto simp: ids_ok_def)
  have uniq: "e = e'" if "e \<in> set (t_nodes H rg True [] (last ts))" "e' \<in> set (t_nodes H rg True [] (last ts))"
    "nk_hash (fst e) = nk_hash (fst e')" for e e'
    using fresh_nodes_eq [OF assms(5) _ _ that(3)] that(1,2) by blast
  obtain m0 m where m0: "(case rp_leaf p of Some l \<Rightarrow> do { h \<leftarrow> lh; Some [h \<mapsto> Leaf l] } | None \<Rightarrow> Some Map.empty) = Some m0"
    "proof_nodes_loop ?k (rp_root_hash p) (rp_path p) m0 = Some m"
    "\<forall>x n'. m x = Some n' \<longrightarrow> (\<exists>q. (NodeKey q x, n') \<in> on_path H rg True [] (last ts) ?k)"
    using proof_map_ok [OF assms(6) wf(1) key(1) walk assms(9) uniq] by blast
  have m: "proof_nodes p lh = Some m" "\<And>x n'. m x = Some n' \<Longrightarrow> \<exists>q. (NodeKey q x, n') \<in> set (t_nodes H rg True [] (last ts))"
    using m0 unfolding proof_nodes_def on_path_def by (simp, blast)
  have missing: "fetch (ov_nodes ?ov) m (nk_hash (fst e)) = None"
    by (rule expired_node_missing [OF inv assms(5) _ assms(11,12)]) (use assms(10) m(2) in auto)
  have fetched: "fetch (ov_nodes ?ov) m (nk_hash (fst e)) \<in> {None, Some (snd e)}" if "e \<in> on_path H rg True [] (hd ts) ?k" for e
    by (rule fetched_node [OF inv assms(5)]) (use that m(2) in \<open>auto simp: on_path_def\<close>)
  have "make_latest_loop (fetch (ov_nodes ?ov) m) ?k 0 (ov_latest_root ?ov) = Some None"
    using make_latest_panics [OF t0 _ _ fetched assms(13) missing, of ?k] wf(2) key(2) by simp
  moreover from this have "new_make_latest p ?ov lh = None"
    using root m(1) by (auto simp: new_make_latest_def proof_nodes_def Let_def panic_simps split: option.splits)
  ultimately show ?thesis
    using root(1) m(1) assms(9) by (auto simp: latest_proof_def verify_def)
qed

section \<open>A root that comes back\<close>

lemma add_delta_changes:
  assumes "2 \<le> ov_capacity ov" "length (ov_changes ov) < ov_capacity ov"
  shows "ov_changes (add_delta root d ov) =
      (if length (ov_changes ov) + 1 = ov_capacity ov then tl (ov_changes ov) else ov_changes ov) @
        [\<lparr>dc_root = root, dc_to_remove = map fst (sd_add d)\<rparr>]"
    and "ov_capacity (add_delta root d ov) = ov_capacity ov"
  using assms
  by (cases "ov_changes ov"; simp add: add_delta_push push_delta_def expire_oldest_delta_def)+

lemma history_changes:
  fixes H :: "'h::linorder NodeHasher"
  assumes "overlay_history H rg cap tree ts ds" and H: "hasher_ok H" "ids_ok rg" "2 \<le> cap"
  shows "ts \<noteq> [] \<and> wf_tree True 256 (hd ts) \<and> t_node H rg True [] (hd ts) \<noteq> None \<and>
    ov_latest_root (tr_overlay tree) = version_root H rg (hd ts) \<and> ov_capacity (tr_overlay tree) = cap \<and>
    length (ov_changes (tr_overlay tree)) = min (length ds) (cap - 1) \<and>
    (\<forall>i < min (length ds) (cap - 1). dc_root (rev (ov_changes (tr_overlay tree)) ! i) = version_root H rg (ts ! i))"
  using assms(1)
proof induction
  case (start t root n)
  then show ?case
    by (simp add: with_existing_root_def overlay_new_def version_root_eq del: t_node.simps)
next
  case (insert tree t ts ds key vp v tree' h d)
  let ?ov = "tr_overlay tree" and ?t = "t_insert t (rid_bits key) v"
  obtain n where new: "tr_overlay tree' = add_delta h d ?ov" "wf_tree True 256 ?t" "t_node H rg True [] ?t = Some (h, n)"
    using insert_adds [OF H(1,2) _ _ _ insert.hyps(3-5,2,6)] insert.IH by auto
  have len: "ov_capacity ?ov = cap" "length (ov_changes ?ov) = min (length ds) (cap - 1)"
    and roots: "\<And>i. i < min (length ds) (cap - 1) \<Longrightarrow> dc_root (rev (ov_changes ?ov) ! i) = version_root H rg ((t # ts) ! i)"
    using insert.IH by auto
  have room: "2 \<le> ov_capacity ?ov" "length (ov_changes ?ov) < ov_capacity ?ov"
    using H(3) len by auto
  note changes = add_delta_changes [OF room, of h d, folded new(1)]
  have "length (ov_changes (tr_overlay tree')) = min (length (d # ds)) (cap - 1)"
    using H(3) len by (auto simp: changes(1))
  moreover have "dc_root (rev (ov_changes (tr_overlay tree')) ! i) = version_root H rg ((?t # t # ts) ! i)"
    if i: "i < min (length (d # ds)) (cap - 1)" for i
  proof (cases i)
    case 0
    then show ?thesis
      using version_root_eq [OF new(3)] by (simp add: changes(1))
  next
    case (Suc l)
    have "rev (tl (ov_changes ?ov)) ! l = rev (ov_changes ?ov) ! l" if "length (ov_changes ?ov) + 1 = ov_capacity ?ov"
      using i len Suc that by (cases "ov_changes ?ov") (auto simp: nth_append)
    then show ?thesis
      using roots [of l] i by (auto simp: changes(1) Suc)
  qed
  moreover have "ov_capacity (tr_overlay tree') = cap" "ov_latest_root (tr_overlay tree') = h"
    using len(1) changes(2) by (simp_all add: new(1))
  ultimately show ?case
    using new(2,3) version_root_eq [OF new(3)] by simp
qed

text \<open>
  C35: a root that comes back is forgotten.  Let insertions make the newest tree the same as the one
  whose change the last insertion drops from the overlay, \<open>cap - 1\<close> insertions before.  Then the overlay
  drops the newest root together with that change: every proof for the newest tree is refused as
  stale, so that the tree can be neither read nor changed with a proof for it.
\<close>

theorem recurring_root_stale:
  fixes H :: "'h::linorder NodeHasher"
  assumes "hasher_ok H" "ids_ok rg" "2 \<le> cap" "overlay_history H rg cap tree ts ds" "cap \<le> length ds"
    and "version_root H rg (ts ! (cap - 1)) = version_root H rg (hd ts)"
    and "rp_root_hash p = version_root H rg (hd ts)"
  shows "ov_latest_root (tr_overlay tree) = rp_root_hash p \<and> latest_proof H tree p = Some (Inl Stale)"
  using assms(4)
proof cases
  case start
  then show ?thesis
    using assms(3,5) by simp
next
  case (insert tree0 t ts0 ds0 key vp v h d)
  let ?ov = "tr_overlay tree0"
  note before = history_changes [OF insert(3) assms(1-3)]
  obtain n where new: "tr_overlay tree = add_delta h d ?ov" "t_node H rg True [] (hd ts) = Some (h, n)"
    using insert_adds [OF assms(1,2) _ _ _ insert(5-7,4,8)] before insert(1) by auto
  have full: "length (ov_changes ?ov) = cap - 1" "ov_capacity ?ov = cap"
    using before assms(5) insert(2) by auto
  then obtain c rest where c: "ov_changes ?ov = c # rest" "length rest = cap - 2"
    using assms(3) by (cases "ov_changes ?ov") auto
  define m where "m = cap - 2"
  then have m: "cap = Suc (Suc m)"
    using assms(3) by simp
  have "m < min (length ds0) (cap - 1)"
    using m assms(5) insert(2) by simp
  then have "dc_root (rev (ov_changes ?ov) ! m) = version_root H rg ((t # ts0) ! m)"
    using before by blast
  then have "dc_root c = h"
    using c m assms(6) version_root_eq [OF new(2)] insert(1) by (simp add: nth_append)
  then show ?thesis
    using full c(1) assms(3,7) version_root_eq [OF new(2)]
    by (simp add: new(1) add_delta_push latest_proof_def verify_def push_delta_def expire_oldest_delta_def)
qed

section \<open>Examples\<close>

lemma history_extend:
  fixes H :: "'h::linorder NodeHasher"
  assumes "overlay_history H rg cap tree (t # ts) ds" "hasher_ok H" "ids_ok rg" "2 \<le> cap"
    and "rid_ok key" "length v < 256 ^ 8" "t_lookup t (rid_bits key) \<noteq> Some v"
  shows "\<exists>tree' d. overlay_history H rg cap tree' (t_insert t (rid_bits key) v # t # ts) (d # ds)"
proof -
  define vp where "vp = \<lparr>vp_path = t_steps H rg True [] t (rid_bits key), vp_leaf = snd (t_walk H rg True [] t (rid_bits key)),
    vp_key = key, vp_range = rg\<rparr>"
  have vp: "verified_for H rg t key vp"
    by (simp add: verified_for_def vp_def)
  have t: "wf_tree True 256 t" "t_node H rg True [] t \<noteq> None" "ov_latest_root (tr_overlay tree) = version_root H rg t"
    using history_changes [OF assms(1-4)] by simp_all
  then obtain n where "t_node H rg True [] t = Some (ov_latest_root (tr_overlay tree), n)"
    unfolding version_root_def by (metis option.exhaust_sel prod.collapse)
  from tree_insert_changes [OF assms(2,3) t(1) this assms(5,6) vp assms(7)] obtain tree' h d
    where "tree_insert H tree vp v = Some (tree', Inr (h, d))"
    by blast
  then show ?thesis
    using overlay_history.insert [OF assms(1) vp assms(5-7)] by blast
qed

theorem recurring_root_stale_witness:
  "\<exists>tree ds. overlay_history tag_hasher range_full 3 tree
      [low_example, t_insert low_example (rid_bits record_id_min) [9], low_example, empty_tree] ds \<and>
     latest_proof tag_hasher tree (t_proof tag_hasher range_full low_example 108 record_id_min) = Some (Inl Stale)"
proof -
  let ?k = "rid_bits record_id_min"
  obtain ms where ms: "?k = False # ms"
    using split_key_bits by blast
  have ids: "ids_ok range_full" "rid_ok record_id_min"
    using overlay_example_wf(2) by (simp_all add: range_ok_def ids_ok_def)
  have t: "t_insert empty_tree ?k [1, 2] = low_example" "t_lookup empty_tree ?k = None" "t_lookup low_example ?k = Some [1, 2]"
    "t_lookup (t_insert low_example ?k [9]) ?k = Some [9]" "t_insert (t_insert low_example ?k [9]) ?k [1, 2] = low_example"
    by (simp_all add: empty_tree_def low_example_def ms)
  note extend = history_extend [OF _ tag_hasher_ok ids(1) _ ids(2)]
  obtain tree1 d1 where "overlay_history tag_hasher range_full 3 tree1 [low_example, empty_tree] [d1]"
    using extend [OF overlay_history.start [OF overlay_example_wf(1) overlay_example_nodes(1)], of 3 "[1, 2]"] t(1,2) by auto
  then obtain tree2 d2 where "overlay_history tag_hasher range_full 3 tree2
      [t_insert low_example ?k [9], low_example, empty_tree] [d2, d1]"
    using extend [of 3 tree1 low_example "[empty_tree]" "[d1]" "[9]"] t(3) by auto
  then obtain tree3 d3 where h: "overlay_history tag_hasher range_full 3 tree3
      [low_example, t_insert low_example ?k [9], low_example, empty_tree] [d3, d2, d1]"
    using extend [of 3 tree2 "t_insert low_example ?k [9]" "[low_example, empty_tree]" "[d2, d1]" "[1, 2]"] t(4,5) by auto
  have "rp_root_hash (t_proof tag_hasher range_full low_example 108 record_id_min) = version_root tag_hasher range_full low_example"
    using version_root_eq [OF overlay_example_nodes(2)] by (simp add: t_proof_def)
  then show ?thesis
    using recurring_root_stale [OF tag_hasher_ok ids(1) _ h, of "t_proof tag_hasher range_full low_example 108 record_id_min"] h
    by auto
qed

theorem first_root_panics_witness:
  "rp_root_hash start_proof \<in> ov_roots (tr_overlay (tree_2 2)) \<and> latest_proof tag_hasher (tree_2 2) start_proof = None"
proof -
  let ?ts = "[example_tree, low_example, empty_tree]"
  obtain ks ms where ks: "rid_bits split_key = True # ks" "rid_bits record_id_min = False # ms"
    using split_key_bits by blast
  obtain vp where vp: "verified_for tag_hasher range_full low_example split_key vp"
    "tree_insert tag_hasher (tree_1 2) vp [3] = Some (tree_2 2, Inr (140, delta_2))"
    using overlay_example_runs(2) [of 2] by auto
  have "t_insert low_example (rid_bits split_key) [3] = example_tree" "t_lookup low_example (rid_bits split_key) = None"
    by (simp_all add: low_example_def split_example_builders(1) ks)
  then have hist: "overlay_history tag_hasher range_full 2 (tree_2 2) ?ts [delta_2, delta_1]"
    using overlay_history.insert [OF first_insertion [of 2] vp(1) split_key_ok(1) _ _ vp(2)] by simp
  have fresh: "fresh_nodes tag_hasher range_full ?ts [delta_2, delta_1]"
    by (simp add: fresh_nodes_def start_proof_ok(6) delta_1_def delta_2_def)
  let ?e = "(NodeKey (rid_bits record_id_min) 46, Leaf \<lparr>lf_value = [1, 2]\<rparr>)"
  have "t_node tag_hasher range_full False (rid_bits record_id_min) (MLeaf [1, 2]) = Some (46, Leaf \<lparr>lf_value = [1, 2]\<rparr>)"
    using split_example_hashes(1) by (simp add: new_leaf_def record_id_of_bits)
  then have "?e \<in> on_path tag_hasher range_full True [] (hd ?ts) (rid_bits (rp_key start_proof))"
    by (simp add: on_path_def start_proof_ok(2) split_example_builders(1) opt_list_def del: t_node.simps)
  moreover have "?e \<in> set (sd_add ([delta_2, delta_1] ! 1))" "last ?ts = empty_tree" "ids_ok range_full"
    using overlay_example_wf(2) by (simp_all add: delta_1_def range_ok_def ids_ok_def)
  moreover obtain lh where "verify_proof tag_hasher start_proof = Some (Inr lh)"
    using start_proof_ok(5) by blast
  ultimately show ?thesis
    using first_root_panics [OF tag_hasher_ok _ _ hist fresh, of start_proof _ lh 1 ?e] start_proof_ok(1,3,4) by simp
qed

end
