(* ===== verification/Base128.thy ===== *)
theory Base128 imports BitVec
begin

unbundle bit_operations_syntax

text \<open>
  The encoding of key prefixes in row keys (\<open>src/store/src/base128.rs\<close>).  Every seven bits of
  input become one byte with a clear most significant bit, and a terminator with that bit set holds
  the number of bits in the last byte.  Whole chunks of seven bytes are encoded by shifts, the rest
  bit by bit; the theory shows that both compute the same reference encoding, and that the encoding
  can be read back.
\<close>

section \<open>The code\<close>

definition encoded_len :: "nat \<Rightarrow> nat" where
  "encoded_len num_bits =
     (let len = num_bits div 7 in if num_bits mod 7 \<noteq> 0 then len + 1 + 1 else len + 1)"

definition encode_chunk :: "bytes \<Rightarrow> bytes \<Rightarrow> bytes option" where
  "encode_chunk src dest = do {
     rust_assert (length src = 7);
     Some (dest @
       [drop_bit 1 (src ! 0),
        push_bit 6 (src ! 0 AND 1) OR drop_bit 2 (src ! 1),
        push_bit 5 (src ! 1 AND 3) OR drop_bit 3 (src ! 2),
        push_bit 4 (src ! 2 AND 7) OR drop_bit 4 (src ! 3),
        push_bit 3 (src ! 3 AND 15) OR drop_bit 5 (src ! 4),
        push_bit 2 (src ! 4 AND 31) OR drop_bit 6 (src ! 5),
        push_bit 1 (src ! 5 AND 63) OR drop_bit 7 (src ! 6),
        src ! 6 AND 127])
   }"

definition src_bit_mask :: bytes where
  "src_bit_mask = [128, 64, 32, 16, 8, 4, 2, 1]"

definition dst_bit_mask :: bytes where
  "dst_bit_mask = [64, 32, 16, 8, 4, 2, 1]"

fun encode_tail_loop :: "bytes \<Rightarrow> nat list \<Rightarrow> u8 \<Rightarrow> nat \<Rightarrow> bytes \<Rightarrow> (u8 \<times> nat \<times> bytes) option" where
  "encode_tail_loop src [] out dst_bit_idx dest = Some (out, dst_bit_idx, dest)"
| "encode_tail_loop src (si # sis) out dst_bit_idx dest = do {
     let (out, dst_bit_idx, dest) = (if dst_bit_idx = 7 then (0, 0, dest @ [out]) else (out, dst_bit_idx, dest));
     src_byte \<leftarrow> index_get src (si div 8);
     src_mask \<leftarrow> index_get src_bit_mask (si mod 8);
     dst_mask \<leftarrow> index_get dst_bit_mask dst_bit_idx;
     let is_set = (src_byte AND src_mask \<noteq> 0);
     encode_tail_loop src sis (if is_set then out OR dst_mask else out) (dst_bit_idx + 1) dest
   }"

definition encode_tail :: "bytes \<Rightarrow> nat \<Rightarrow> bytes \<Rightarrow> bytes option" where
  "encode_tail src num_bits dest = do {
     (out, dst_bit_idx, dest) \<leftarrow> encode_tail_loop src [0..<num_bits] 0 0 dest;
     let dest = (if dst_bit_idx \<noteq> 0 then dest @ [out] else dest);
     Some (dest @ [128 OR of_nat dst_bit_idx])
   }"

fun encode_loop :: "bytes \<Rightarrow> nat \<Rightarrow> bytes \<Rightarrow> (bytes \<times> nat \<times> bytes) option" where
  "encode_loop src bits_togo dest =
     (if 56 \<le> bits_togo then do {
        rust_assert (7 \<le> length src);
        dest' \<leftarrow> encode_chunk (take 7 src) dest;
        encode_loop (drop 7 src) (bits_togo - 56) dest'
      }
      else Some (src, bits_togo, dest))"

declare encode_loop.simps [simp del]

definition encode :: "bytes \<Rightarrow> nat \<Rightarrow> bytes \<Rightarrow> bytes option" where
  "encode src num_bits dest = do {
     (src', bits_togo, dest') \<leftarrow> encode_loop src num_bits dest;
     if bits_togo = 0 \<and> 0 < num_bits then Some (dest' @ [128 OR 7])
     else encode_tail src' bits_togo dest'
   }"

section \<open>The reference encoding\<close>

text \<open>Groups of seven bits, and the number of bits in the last group.\<close>

definition septet :: "bool list \<Rightarrow> u8" where
  "septet bs = byte_of_bits (False # bs)"

fun septets :: "bool list \<Rightarrow> bytes" where
  "septets [] = []"
| "septets (b # bs) = septet (take 7 (b # bs)) # septets (drop 7 (b # bs))"

definition last_bits :: "nat \<Rightarrow> nat" where
  "last_bits n = (if n = 0 then 0 else (n - 1) mod 7 + 1)"

definition encode_bits :: "bool list \<Rightarrow> bytes" where
  "encode_bits bs = septets bs @ [128 OR of_nat (last_bits (length bs))]"

lemma septets_step: "bs \<noteq> [] \<Longrightarrow> septets bs = septet (take 7 bs) # septets (drop 7 bs)"
  by (cases bs) simp_all

lemma septets_append: "length bs = 7 * k \<Longrightarrow> septets (bs @ cs) = septets bs @ septets cs"
proof (induction k arbitrary: bs)
  case (Suc k)
  have "septets (drop 7 bs @ cs) = septets (drop 7 bs) @ septets cs"
    using Suc by simp
  moreover have "bs \<noteq> []" "bs @ cs \<noteq> []"
    using Suc.prems by auto
  ultimately show ?case
    using Suc.prems by (simp add: septets_step)
qed simp

lemma septets_split: "7 * k \<le> length bs \<Longrightarrow> septets bs = septets (take (7 * k) bs) @ septets (drop (7 * k) bs)"
  using septets_append [of "take (7 * k) bs" k "drop (7 * k) bs"] by simp

lemma bit_septet: "n < 8 \<Longrightarrow> bit (septet bs) n \<longleftrightarrow> n < 7 \<and> 6 - n < length bs \<and> bs ! (6 - n)"
  by (cases "n = 7") (auto simp: septet_def bit_byte_of_bits nth_Cons' Suc_diff_le)

lemma length_septets: "length (septets bs) = (length bs + 6) div 7"
proof (induction bs rule: septets.induct)
  case (2 b bs)
  then show ?case
    by (simp add: le_div_geq)
qed simp

section \<open>The bit loop\<close>

lemma septet_Nil [simp]: "septet [] = 0"
  by (rule bit_word_eqI) (simp add: bit_septet)

lemma septet_snoc:
  assumes "length bs < 7"
  shows "septet (bs @ [b]) = (if b then septet bs OR dst_bit_mask ! length bs else septet bs)"
proof -
  have mask: "dst_bit_mask ! length bs = 2 ^ (6 - length bs)"
    using assms by (simp add: dst_bit_mask_def less_Suc_eq numeral_eq_Suc) auto
  show ?thesis
    by (rule bit_word_eqI) (use assms in \<open>auto simp: bit_septet bit_or_iff mask bit_exp_iff nth_append less_Suc_eq\<close>)
qed

lemma septet_single: "septet [b] = (if b then 64 else 0)"
  using septet_snoc [of "[]" b] by (cases b) (simp_all add: dst_bit_mask_def)

lemma src_mask_power: "j < 8 \<Longrightarrow> src_bit_mask ! j = 2 ^ (7 - j)"
  by (simp add: src_bit_mask_def less_Suc_eq numeral_eq_Suc) auto

lemma src_mask_bit:
  assumes "si < 8 * length src"
  shows "src ! (si div 8) AND src_bit_mask ! (si mod 8) \<noteq> 0 \<longleftrightarrow> bits_of_bytes src ! si"
proof -
  have "src_bit_mask ! (si mod 8) = 2 ^ (7 - si mod 8)"
    by (rule src_mask_power) simp
  then show ?thesis
    using assms by (simp add: and_mask_ne_0 nth_bits_of_bytes bits_val_def)
qed

definition flushed :: "nat \<Rightarrow> nat" where
  "flushed s = s - last_bits s"

lemma last_bits_Suc: "last_bits (Suc s) = (if last_bits s = 7 then 1 else last_bits s + 1)"
  by (cases s) (auto simp: last_bits_def mod_Suc)

lemma last_bits_le: "last_bits s \<le> s" "last_bits s \<le> 7" "last_bits s = 0 \<longleftrightarrow> s = 0"
  using mod_less_divisor [of 7 "s - 1"] mod_less_eq_dividend [of "s - 1" 7] by (auto simp: last_bits_def)

lemma flushed_Suc: "flushed (Suc s) = (if last_bits s = 7 then s else flushed s)"
  using last_bits_le [of s] by (auto simp: flushed_def last_bits_Suc)

lemma flushed_mult: "\<exists>k. flushed s = 7 * k"
proof (induction s)
  case (Suc s)
  then obtain k where "flushed s = 7 * k"
    by blast
  moreover have "last_bits s = 7 \<Longrightarrow> s = 7 * Suc k"
    using calculation last_bits_le [of s] by (simp add: flushed_def)
  ultimately have "flushed (Suc s) = 7 * (if last_bits s = 7 then Suc k else k)"
    by (auto simp: flushed_Suc)
  then show ?case
    by (rule exI)
qed (simp add: flushed_def)

lemma encode_tail_loop_ok:
  assumes "s \<le> n" "n \<le> 8 * length src"
  shows "encode_tail_loop src [s..<n] (septet (drop (flushed s) (take s (bits_of_bytes src)))) (last_bits s)
      (d @ septets (take (flushed s) (bits_of_bytes src))) =
    Some (septet (drop (flushed n) (take n (bits_of_bytes src))), last_bits n, d @ septets (take (flushed n) (bits_of_bytes src)))"
  using assms
proof (induction rule: inc_induct)
  case base
  then show ?case
    by simp
next
  case (step s)
  let ?bs = "bits_of_bytes src"
  have s: "s < 8 * length src" "[s..<n] = s # [Suc s..<n]"
    using step by (simp_all add: upt_conv_Cons)
  have ix: "index_get src (s div 8) = Some (src ! (s div 8))" "index_get src_bit_mask (s mod 8) = Some (src_bit_mask ! (s mod 8))"
    using s(1) by (simp_all add: less_mult_imp_div_less mult.commute src_bit_mask_def)
  have bits: "take (Suc s) ?bs = take s ?bs @ [?bs ! s]"
    using s(1) by (simp add: take_Suc_conv_app_nth)
  have le: "flushed s \<le> s"
    by (simp add: flushed_def)
  show ?case
  proof (cases "last_bits s = 7")
    case True
    then have "septets (take s ?bs) = septets (take (flushed s) ?bs) @ [septet (drop (flushed s) (take s ?bs))]"
    proof -
      obtain k where k: "flushed s = 7 * k"
        using flushed_mult by blast
      have len: "s = flushed s + 7"
        using True last_bits_le(1) [of s] by (simp add: flushed_def)
      have "take s ?bs = take (flushed s) ?bs @ drop (flushed s) (take s ?bs)"
        by (metis append_take_drop_id le take_take min.absorb1)
      moreover have "septets (drop (flushed s) (take s ?bs)) = [septet (drop (flushed s) (take s ?bs))]"
        using len s(1) by (subst septets_step) auto
      ultimately show ?thesis
        using septets_append [of "take (flushed s) ?bs" k "drop (flushed s) (take s ?bs)"] k s(1) le by simp
    qed
    moreover have "drop (flushed (Suc s)) (take (Suc s) ?bs) = [?bs ! s]"
      using s(1) by (simp add: flushed_Suc True bits)
    ultimately show ?thesis
      using step.IH step.prems septet_single [of "?bs ! s"] ix src_mask_bit [OF s(1)]
      by (cases "?bs ! s") (simp_all add: s(2) True last_bits_Suc flushed_Suc dst_bit_mask_def Let_def)
  next
    case False
    have lt: "last_bits s < 7"
      using False last_bits_le(2) [of s] by simp
    have len: "length (drop (flushed s) (take s ?bs)) = last_bits s"
      using s(1) last_bits_le(1) [of s] by (simp add: flushed_def)
    have "drop (flushed (Suc s)) (take (Suc s) ?bs) = drop (flushed s) (take s ?bs) @ [?bs ! s]"
      using s(1) le by (simp add: flushed_Suc False bits)
    moreover have "index_get dst_bit_mask (last_bits s) = Some (dst_bit_mask ! last_bits s)"
      using lt by (simp add: dst_bit_mask_def)
    ultimately show ?thesis
      using step.IH step.prems septet_snoc [of "drop (flushed s) (take s ?bs)" "?bs ! s"] ix src_mask_bit [OF s(1)] len lt
      by (cases "?bs ! s") (simp_all add: s(2) False last_bits_Suc flushed_Suc Let_def)
  qed
qed

lemma encode_tail_ok:
  assumes "n \<le> 8 * length src"
  shows "encode_tail src n dest = Some (dest @ encode_bits (take n (bits_of_bytes src)))"
proof -
  let ?bs = "take n (bits_of_bytes src)"
  have len: "length ?bs = n"
    using assms by simp
  obtain k where k: "flushed n = 7 * k"
    using flushed_mult by blast
  have le: "flushed n \<le> n"
    by (simp add: flushed_def)
  have "septets ?bs = septets (take (flushed n) ?bs) @ septets (drop (flushed n) ?bs)"
    unfolding k by (rule septets_split) (use k le len in simp)
  moreover have "septets (drop (flushed n) ?bs) = (if last_bits n \<noteq> 0 then [septet (drop (flushed n) ?bs)] else [])"
    using last_bits_le [of n] len by (cases "n = 0") (auto simp: septets_step flushed_def)
  ultimately have "septets ?bs = (if last_bits n \<noteq> 0 then septets (take (flushed n) ?bs) @ [septet (drop (flushed n) ?bs)]
      else septets (take (flushed n) ?bs))"
    by simp
  then show ?thesis
    using encode_tail_loop_ok [of 0 n src dest] assms le len
    by (simp add: encode_tail_def encode_bits_def flushed_def [of 0] last_bits_def [of 0] min_absorb1)
qed

section \<open>Whole chunks\<close>

lemma encode_chunk_ok:
  assumes "length src = 7"
  shows "encode_chunk src dest = Some (dest @ septets (bits_of_bytes src))"
proof -
  obtain a b c d e f g where src: "src = [a, b, c, d, e, f, g]"
    using assms by (auto simp: length_Suc_conv numeral_eq_Suc)
  have bytes: "byte_bits x = [bit x 7, bit x 6, bit x 5, bit x 4, bit x 3, bit x 2, bit x 1, bit x 0]" for x
    by (simp add: byte_bits_def upt_rec)
  have bits: "w = septet [b6, b5, b4, b3, b2, b1, b0]"
    if "\<not> bit w 7" "bit w 6 = b6" "bit w 5 = b5" "bit w 4 = b4" "bit w 3 = b3" "bit w 2 = b2" "bit w 1 = b1" "bit w 0 = b0"
    for b6 b5 b4 b3 b2 b1 b0 and w :: u8
  proof (rule bit_word_eqI)
    fix n
    assume "n < LENGTH(8)"
    then have "n = 0 \<or> n = 1 \<or> n = 2 \<or> n = 3 \<or> n = 4 \<or> n = 5 \<or> n = 6 \<or> n = 7"
      by simp arith
    then show "bit w n = bit (septet [b6, b5, b4, b3, b2, b1, b0]) n"
      by (elim disjE) (simp_all add: bit_septet that that(7) [unfolded One_nat_def])
  qed
  have mask: "(3 :: u8) = mask 2" "(7 :: u8) = mask 3" "(15 :: u8) = mask 4" "(31 :: u8) = mask 5" "(63 :: u8) = mask 6" "(127 :: u8) = mask 7"
    by (simp_all add: mask_eq_exp_minus_1)
  have high: "\<not> bit x n" if "8 \<le> n" for x :: u8 and n
    using bit_imp_le_length [of x n] that by auto
  have eqs: "drop_bit 1 a = septet [bit a 7, bit a 6, bit a 5, bit a 4, bit a 3, bit a 2, bit a 1]"
    "push_bit 6 (a AND 1) OR drop_bit 2 b = septet [bit a 0, bit b 7, bit b 6, bit b 5, bit b 4, bit b 3, bit b 2]"
    "push_bit 5 (b AND 3) OR drop_bit 3 c = septet [bit b 1, bit b 0, bit c 7, bit c 6, bit c 5, bit c 4, bit c 3]"
    "push_bit 4 (c AND 7) OR drop_bit 4 d = septet [bit c 2, bit c 1, bit c 0, bit d 7, bit d 6, bit d 5, bit d 4]"
    "push_bit 3 (d AND 15) OR drop_bit 5 e = septet [bit d 3, bit d 2, bit d 1, bit d 0, bit e 7, bit e 6, bit e 5]"
    "push_bit 2 (e AND 31) OR drop_bit 6 f = septet [bit e 4, bit e 3, bit e 2, bit e 1, bit e 0, bit f 7, bit f 6]"
    "push_bit 1 (f AND 63) OR drop_bit 7 g = septet [bit f 5, bit f 4, bit f 3, bit f 2, bit f 1, bit f 0, bit g 7]"
    "g AND 127 = septet [bit g 6, bit g 5, bit g 4, bit g 3, bit g 2, bit g 1, bit g 0]"
    by (rule bits; simp only: bit_drop_bit_eq bit_push_bit_iff bit_and_iff bit_or_iff mask; simp add: bit_mask_iff bit_1_iff high; simp add: eval_nat_numeral)+
  have nths: "length [a, b, c, d, e, f, g] = 7" "[a, b, c, d, e, f, g] ! 0 = a" "[a, b, c, d, e, f, g] ! 1 = b"
    "[a, b, c, d, e, f, g] ! 2 = c" "[a, b, c, d, e, f, g] ! 3 = d" "[a, b, c, d, e, f, g] ! 4 = e"
    "[a, b, c, d, e, f, g] ! 5 = f" "[a, b, c, d, e, f, g] ! 6 = g"
    by simp_all
  have "septets (bits_of_bytes [a, b, c, d, e, f, g]) = [septet [bit a 7, bit a 6, bit a 5, bit a 4, bit a 3, bit a 2, bit a 1], septet [bit a 0, bit b 7, bit b 6, bit b 5, bit b 4, bit b 3, bit b 2], septet [bit b 1, bit b 0, bit c 7, bit c 6, bit c 5, bit c 4, bit c 3], septet [bit c 2, bit c 1, bit c 0, bit d 7, bit d 6, bit d 5, bit d 4], septet [bit d 3, bit d 2, bit d 1, bit d 0, bit e 7, bit e 6, bit e 5], septet [bit e 4, bit e 3, bit e 2, bit e 1, bit e 0, bit f 7, bit f 6], septet [bit f 5, bit f 4, bit f 3, bit f 2, bit f 1, bit f 0, bit g 7], septet [bit g 6, bit g 5, bit g 4, bit g 3, bit g 2, bit g 1, bit g 0]]"
    by (simp add: bytes)
  then show ?thesis
    by (simp only: encode_chunk_def eqs src nths) simp
qed

lemma encode_loop_ok:
  "n \<le> 8 * length src \<Longrightarrow> encode_loop src n dest =
     Some (drop (7 * (n div 56)) src, n mod 56, dest @ septets (take (56 * (n div 56)) (bits_of_bytes src)))"
proof (induction src n dest rule: encode_loop.induct)
  case (1 src n dest)
  show ?case
  proof (cases "56 \<le> n")
    case True
    have len: "7 \<le> length src"
      using True 1(2) by simp
    have bits: "bits_of_bytes src = bits_of_bytes (take 7 src) @ bits_of_bytes (drop 7 src)"
      by (metis append_take_drop_id bits_of_bytes_def concat_append map_append)
    have "septets (take (56 * (n div 56)) (bits_of_bytes src)) =
        septets (bits_of_bytes (take 7 src)) @ septets (take (56 * ((n - 56) div 56)) (bits_of_bytes (drop 7 src)))"
      using septets_append [of "bits_of_bytes (take 7 src)" 8 "take (56 * ((n - 56) div 56)) (bits_of_bytes (drop 7 src))"] True len
      by (simp add: bits le_div_geq)
    then show ?thesis
      using 1(1) [OF True] 1(2) True len encode_chunk_ok [of "take 7 src" dest]
      by (subst encode_loop.simps) (simp add: le_div_geq le_mod_geq add.commute)
  next
    case False
    then show ?thesis
      by (subst encode_loop.simps) simp
  qed
qed

lemma bits_of_bytes_drop: "bits_of_bytes (drop m src) = drop (8 * m) (bits_of_bytes src)"
  by (induction src arbitrary: m) (auto simp: drop_Cons split: nat.splits)

lemma last_bits_mod: "last_bits n = (if n mod 56 = 0 \<and> 0 < n then 7 else last_bits (n mod 56))"
proof -
  define q r where "q = n div 56" and "r = n mod 56"
  have n: "n = 56 * q + r"
    by (simp add: q_def r_def)
  show ?thesis
  proof (cases "r = 0")
    case True
    then have "0 < n \<Longrightarrow> n - 1 = 6 + 7 * (8 * q - 1)"
      using n by (cases q) simp_all
    then show ?thesis
      using True by (simp add: last_bits_def flip: r_def)
  next
    case False
    then have "n - 1 = (r - 1) + 7 * (8 * q)"
      using n by simp
    then have "(n - 1) mod 7 = (r - 1) mod 7"
      by (metis mod_mult_self2)
    moreover have "0 < n"
      using False n by simp
    ultimately show ?thesis
      using False by (simp add: last_bits_def flip: r_def)
  qed
qed

lemma encode_ok:
  assumes "n \<le> 8 * length src"
  shows "encode src n dest = Some (dest @ encode_bits (take n (bits_of_bytes src)))"
proof -
  let ?bs = "take n (bits_of_bytes src)" and ?q = "56 * (n div 56)"
  have len: "length ?bs = n"
    using assms by simp
  have cut: "take ?q (bits_of_bytes src) = take ?q ?bs" "take (n mod 56) (bits_of_bytes (drop (7 * (n div 56)) src)) = drop ?q ?bs"
    by (simp_all add: min_def bits_of_bytes_drop drop_take minus_mult_div_eq_mod)
  have split: "septets ?bs = septets (take ?q ?bs) @ septets (drop ?q ?bs)"
    using septets_split [of "8 * (n div 56)" ?bs] len by simp
  have loop: "encode_loop src n dest = Some (drop (7 * (n div 56)) src, n mod 56, dest @ septets (take ?q ?bs))"
    using encode_loop_ok [OF assms, of dest] unfolding cut(1) .
  have "n mod 56 \<le> 8 * length (drop (7 * (n div 56)) src)"
    using assms by (simp add: minus_mult_div_eq_mod [symmetric])
  from encode_tail_ok [OF this, of "dest @ septets (take ?q ?bs)"]
  have tail: "encode_tail (drop (7 * (n div 56)) src) (n mod 56) (dest @ septets (take ?q ?bs)) =
      Some (dest @ septets (take ?q ?bs) @ encode_bits (drop ?q ?bs))"
    unfolding cut(2) by simp
  have rest: "length (drop ?q ?bs) = n mod 56"
    using len by (simp add: minus_mult_div_eq_mod)
  have bits: "encode_bits ?bs = septets (take ?q ?bs) @ septets (drop ?q ?bs) @ [128 OR of_nat (last_bits n)]"
    unfolding encode_bits_def len split by simp
  show ?thesis
  proof (cases "n mod 56 = 0 \<and> 0 < n")
    case True
    then have "drop ?q ?bs = []" "last_bits n = 7"
      using rest last_bits_mod [of n] by (auto simp del: drop_take drop_eq_Nil)
    then show ?thesis
      using True loop by (simp add: encode_def bits)
  next
    case False
    then have "last_bits n = last_bits (n mod 56)"
      using last_bits_mod [of n] by auto
    then have "encode_bits ?bs = septets (take ?q ?bs) @ encode_bits (drop ?q ?bs)"
      unfolding bits encode_bits_def [of "drop ?q ?bs"] rest by (simp del: drop_take)
    then show ?thesis
      using False loop tail by (auto simp: encode_def)
  qed
qed

lemma length_encode_bits: "length (encode_bits bs) = encoded_len (length bs)"
  by (simp add: encode_bits_def length_septets encoded_len_def Let_def) arith

text \<open>
  C21: the row key encoding.  For any number of bits that the input has, encoding neither panics
  nor depends on how the input is cut into chunks: it appends the groups of seven bits of the input
  followed by the terminator, which are as many bytes as \<open>encoded_len\<close> announces.
\<close>

theorem encode_equivalent:
  assumes "n \<le> 8 * length src"
  shows "encode src n dest = Some (dest @ encode_bits (take n (bits_of_bytes src))) \<and>
    length (encode_bits (take n (bits_of_bytes src))) = encoded_len n"
  using encode_ok [OF assms] length_encode_bits assms by simp

theorem encode_equivalent_witness:
  "encode [1, 2, 3, 4, 5, 6, 7, 8] 60 [] = Some (encode_bits (take 60 (bits_of_bytes [1, 2, 3, 4, 5, 6, 7, 8]))) \<and>
     length (encode_bits (take 60 (bits_of_bytes [1, 2, 3, 4, 5, 6, 7, 8]))) = 10"
  using encode_equivalent [of 60 "[1, 2, 3, 4, 5, 6, 7, 8]" "[]"] by (simp add: encoded_len_def)

end
