(* ===== verification/StoreKeys.thy ===== *)
theory StoreKeys imports Base128 MerkleNode
begin

unbundle bit_operations_syntax

text \<open>
  Row keys of the table of Merkle nodes (\<open>src/store/src/merkle.rs\<close>): a node is stored under its
  encoded key prefix followed by its hash, so that all versions of a node are neighbours and a range
  of row keys reads them.
\<close>

section \<open>The code\<close>

datatype StoreKey = StoreKey (sk_bytes: bytes)

datatype StoreKeyStart = StoreKeyStart (sks_bytes: bytes)

definition encode_prefix_into :: "KeyVec \<Rightarrow> bytes \<Rightarrow> bytes option" where
  "encode_prefix_into p dest = encode (bytes_of_bits p) (length p) dest"

definition store_key_new :: "'h NodeHasher \<Rightarrow> 'h NodeKey \<Rightarrow> StoreKey option" where
  "store_key_new H k = do {
     out \<leftarrow> encode_prefix_into (nk_prefix k) [];
     Some (StoreKey (out @ as_slice H (nk_hash k)))
   }"

fun position_msb :: "bytes \<Rightarrow> nat option" where
  "position_msb [] = None"
| "position_msb (b # bs) = (if b AND 128 \<noteq> 0 then Some 0 else map_option Suc (position_msb bs))"

definition store_key_parse :: "(bytes \<Rightarrow> 'h option) \<Rightarrow> bytes \<Rightarrow> (bytes \<times> 'h) option" where
  "store_key_parse from_slice bs =
     (case position_msb bs of
        None \<Rightarrow> None
      | Some p \<Rightarrow> map_option (\<lambda>h. (take (p + 1) bs, h)) (from_slice (drop (p + 1) bs)))"

fun start_next_loop :: "nat \<Rightarrow> bytes \<Rightarrow> bytes option" where
  "start_next_loop 0 c = None"
| "start_next_loop (Suc i) c =
     (if c ! i < 255 then Some (c[i := c ! i + 1]) else start_next_loop i (c[i := 0]))"

definition start_next :: "StoreKeyStart \<Rightarrow> StoreKeyStart option" where
  "start_next s = map_option StoreKeyStart (start_next_loop (length (sks_bytes s)) (sks_bytes s))"

fun store_key_starts :: "RecordId \<Rightarrow> nat list \<Rightarrow> StoreKeyStart list option" where
  "store_key_starts k [] = Some []"
| "store_key_starts k (i # is) = do {
     enc \<leftarrow> encode (rid_bytes k) i [];
     rest \<leftarrow> store_key_starts k is;
     Some (StoreKeyStart enc # rest)
   }"

definition all_store_key_starts :: "RecordId \<Rightarrow> StoreKeyStart list option" where
  "all_store_key_starts k = store_key_starts k [0..<record_id_num_bytes * 8 + 1]"

section \<open>Reading the encoding back\<close>

definition septet_bits :: "u8 \<Rightarrow> bool list" where
  "septet_bits b = tl (byte_bits b)"

lemma septet_bits_septet: "length bs \<le> 7 \<Longrightarrow> septet_bits (septet bs) = bs @ replicate (7 - length bs) False"
  by (rule nth_equalityI) (auto simp: septet_bits_def byte_bits_def nth_tl bit_septet nth_append)

lemma concat_septets: "\<exists>n. concat (map septet_bits (septets bs)) = bs @ replicate n False"
proof (induction bs rule: septets.induct)
  case (2 b bs)
  then obtain n where n: "concat (map septet_bits (septets (drop 7 (b # bs)))) = drop 7 (b # bs) @ replicate n False"
    by blast
  show ?case
  proof (cases "7 \<le> length (b # bs)")
    case True
    then have "septet_bits (septet (take 7 (b # bs))) = take 7 (b # bs)"
      using septet_bits_septet [of "take 7 (b # bs)"] by simp
    then have "concat (map septet_bits (septets (b # bs))) = take 7 (b # bs) @ drop 7 (b # bs) @ replicate n False"
      using n by (simp only: septets.simps list.map concat.simps)
    then show ?thesis
      by (metis append.assoc append_take_drop_id)
  next
    case False
    then have "take 7 (b # bs) = b # bs" "drop 7 (b # bs) = []"
      by simp_all
    moreover have "septet_bits (septet (b # bs)) = (b # bs) @ replicate (7 - length (b # bs)) False"
      using False by (intro septet_bits_septet) simp
    ultimately have "concat (map septet_bits (septets (b # bs))) = (b # bs) @ replicate (7 - length (b # bs)) False"
      by (simp only: septets.simps list.map concat.simps append_Nil2)
    then show ?thesis
      by (rule exI)
  qed
qed simp

lemma septets_inj:
  assumes "septets as = septets bs" "length as = length bs"
  shows "as = bs"
proof -
  obtain m n where "concat (map septet_bits (septets as)) = as @ replicate m False"
    "concat (map septet_bits (septets bs)) = bs @ replicate n False"
    using concat_septets [of as] concat_septets [of bs] by blast
  then have "as @ replicate m False = bs @ replicate n False"
    using assms(1) by (simp only:)
  then show ?thesis
    using assms(2) append_eq_append_conv by blast
qed

lemma length_from_septets:
  assumes "(m + 6) div 7 = (n + 6) div 7" "last_bits m = last_bits n"
  shows "m = n"
proof -
  have "k = 7 * ((k + 6) div 7 - 1) + last_bits k" for k
    by (cases k) (simp_all add: last_bits_def le_div_geq)
  from this [of m] this [of n] show ?thesis
    using assms by simp
qed

lemma last_bits_word: "unat ((128 :: u8) OR of_nat (last_bits n)) = 128 + last_bits n"
proof -
  have "last_bits n \<in> {0..7}"
    using last_bits_le(2) [of n] by simp
  then have "last_bits n = 0 \<or> last_bits n = 1 \<or> last_bits n = 2 \<or> last_bits n = 3 \<or> last_bits n = 4 \<or>
      last_bits n = 5 \<or> last_bits n = 6 \<or> last_bits n = 7"
    by simp arith
  then show ?thesis
    by (elim disjE) simp_all
qed

lemma septet_msb: "b \<in> set (septets bs) \<Longrightarrow> b AND 128 = 0"
proof (induction bs rule: septets.induct)
  case (2 b' bs)
  have "septet (take 7 (b' # bs)) AND 128 = 0"
    using and_mask_ne_0 [of "septet (take 7 (b' # bs))" 7] by (simp add: bit_septet)
  then show ?case
    using 2 by auto
qed simp

lemma terminator_msb: "((128 :: u8) OR of_nat k) AND 128 \<noteq> 0"
  using and_mask_ne_0 [of "(128 :: u8) OR of_nat k" 7] by (simp add: bit_or_iff)

lemma encode_bits_inj:
  assumes "encode_bits as = encode_bits bs"
  shows "as = bs"
proof -
  have eq: "septets as = septets bs" "(128 :: u8) OR of_nat (last_bits (length as)) = 128 OR of_nat (last_bits (length bs))"
    using assms by (simp_all add: encode_bits_def)
  from arg_cong [OF eq(2), of unat] have "last_bits (length as) = last_bits (length bs)"
    unfolding last_bits_word by simp
  moreover have "(length as + 6) div 7 = (length bs + 6) div 7"
    using eq(1) length_septets by metis
  ultimately show ?thesis
    using septets_inj [OF eq(1)] length_from_septets by blast
qed

text \<open>No encoding is a proper prefix of another one: only the last byte has its first bit set.\<close>

lemma msb_split:
  assumes "xs @ [t] @ r = ys @ [u] @ s" "\<forall>b \<in> set xs. b AND 128 = (0 :: u8)" "\<forall>b \<in> set ys. b AND 128 = 0"
    "t AND 128 \<noteq> 0" "u AND 128 \<noteq> 0"
  shows "xs = ys \<and> t = u \<and> r = s"
  using assms
proof (induction xs arbitrary: ys)
  case Nil
  then show ?case
    by (cases ys) auto
next
  case (Cons x xs)
  then show ?case
    by (cases ys) auto
qed

lemma encode_bits_append_inj:
  assumes "encode_bits as @ r = encode_bits bs @ s"
  shows "as = bs \<and> r = s"
proof -
  have "septets as = septets bs \<and> (128 :: u8) OR of_nat (last_bits (length as)) = 128 OR of_nat (last_bits (length bs)) \<and> r = s"
    using msb_split [of "septets as" "128 OR of_nat (last_bits (length as))" r "septets bs" "128 OR of_nat (last_bits (length bs))" s]
      assms septet_msb terminator_msb by (simp add: encode_bits_def)
  then show ?thesis
    using encode_bits_inj [of as bs] by (simp add: encode_bits_def)
qed

lemma byte_bits_padded: "length bs \<le> 8 \<Longrightarrow> byte_bits (byte_of_bits bs) = bs @ replicate (8 - length bs) False"
  by (rule nth_equalityI) (auto simp: nth_byte_bits bit_byte_of_bits nth_append)

lemma bits_of_bytes_padded: "\<exists>n. bits_of_bytes (bytes_of_bits bs) = bs @ replicate n False"
proof (induction bs rule: bytes_of_bits.induct)
  case (2 b bs)
  then obtain n where n: "bits_of_bytes (bytes_of_bits (drop 8 (b # bs))) = drop 8 (b # bs) @ replicate n False"
    by blast
  have step: "bits_of_bytes (bytes_of_bits (b # bs)) =
      (take 8 (b # bs) @ replicate (8 - length (take 8 (b # bs))) False) @ drop 8 (b # bs) @ replicate n False"
    unfolding bytes_of_bits.simps bits_of_bytes_Cons n by (subst byte_bits_padded) simp_all
  show ?case
  proof (cases "8 \<le> length (b # bs)")
    case True
    then have "replicate (8 - length (take 8 (b # bs))) False = []"
      by simp
    then have "bits_of_bytes (bytes_of_bits (b # bs)) = (take 8 (b # bs) @ drop 8 (b # bs)) @ replicate n False"
      using step by (simp only: append_Nil2 append.assoc)
    then show ?thesis
      unfolding append_take_drop_id by (rule exI)
  next
    case False
    then have "take 8 (b # bs) = b # bs" "drop 8 (b # bs) = []"
      by simp_all
    then have "bits_of_bytes (bytes_of_bits (b # bs)) = (b # bs) @ replicate (8 - length (b # bs) + n) False"
      using step by (simp only: append_Nil append.assoc replicate_add)
    then show ?thesis
      by (rule exI)
  qed
qed simp

lemma encode_prefix_into_ok: "encode_prefix_into p dest = Some (dest @ encode_bits p)"
proof -
  have "take (length p) (bits_of_bytes (bytes_of_bits p)) = p"
    using bits_of_bytes_padded [of p] by auto
  moreover have "length p \<le> 8 * length (bytes_of_bits p)"
    by (simp add: length_bytes_of_bits)
  ultimately show ?thesis
    using encode_ok by (simp add: encode_prefix_into_def)
qed

lemma store_key_new_ok: "store_key_new H k = Some (StoreKey (encode_bits (nk_prefix k) @ as_slice H (nk_hash k)))"
  by (simp add: store_key_new_def encode_prefix_into_ok)

text \<open>
  C22: row keys.  Every node key has a row key; different node keys have different row keys; and
  parsing a row key gives back the encoded prefix and the hash.
\<close>

theorem store_key_roundtrip:
  assumes "inj (as_slice H)" "\<And>h. from_slice (as_slice H h) = Some h"
  shows "\<exists>sk. store_key_new H k = Some sk \<and>
    store_key_parse from_slice (sk_bytes sk) = Some (encode_bits (nk_prefix k), nk_hash k) \<and>
    (\<forall>k'. store_key_new H k' = Some sk \<longleftrightarrow> k' = k)"
proof -
  have pos: "position_msb (xs @ t # r) = Some (length xs)" if "\<forall>b \<in> set xs. b AND 128 = 0" "t AND 128 \<noteq> 0" for xs t r
    using that by (induction xs) auto
  have "position_msb (encode_bits (nk_prefix k) @ r) = Some (length (septets (nk_prefix k)))" for r
    using pos [of "septets (nk_prefix k)"] septet_msb terminator_msb by (simp add: encode_bits_def)
  then have "store_key_parse from_slice (encode_bits (nk_prefix k) @ as_slice H (nk_hash k)) = Some (encode_bits (nk_prefix k), nk_hash k)"
    using assms(2) by (simp add: store_key_parse_def encode_bits_def)
  moreover have "k' = k" if "encode_bits (nk_prefix k') @ as_slice H (nk_hash k') = encode_bits (nk_prefix k) @ as_slice H (nk_hash k)" for k'
    using encode_bits_append_inj [OF that] assms(1) by (auto simp: inj_def intro: NodeKey.expand)
  ultimately show ?thesis
    by (auto simp: store_key_new_ok)
qed

section \<open>Ranges of row keys\<close>

lemma between_snoc:
  fixes t :: u8
  assumes "xs @ [t] \<le> ys" "ys < xs @ [t + 1]" "t < 255"
  shows "\<exists>r. ys = xs @ [t] @ r"
  using assms
proof (induction xs arbitrary: ys)
  case Nil
  then obtain u us where ys: "ys = u # us"
    by (cases ys) auto
  then have "t \<le> u" "u < t + 1 \<or> u = t + 1 \<and> us < []"
    using Nil by auto
  then have "u = t"
    using Nil(3) unat_u8_succ [of t] by (auto simp: word_less_nat_alt word_le_nat_alt word_unat_eq_iff)
  then show ?case
    by (simp add: ys)
next
  case (Cons x xs)
  then obtain u us where ys: "ys = u # us"
    by (cases ys) auto
  then have "u = x" "xs @ [t] \<le> us" "us < xs @ [t + 1]"
    using Cons.prems by auto
  then show ?case
    using Cons.IH [of us] Cons.prems(3) by (simp add: ys)
qed

definition terminator :: "bool list \<Rightarrow> u8" where
  "terminator bs = 128 OR of_nat (last_bits (length bs))"

lemma terminator_less: "terminator bs < 255"
  using last_bits_word [of "length bs"] last_bits_le(2) [of "length bs"] by (simp add: terminator_def word_less_nat_alt)

lemma encode_bits_snoc: "encode_bits bs = septets bs @ [terminator bs]"
  by (simp add: encode_bits_def terminator_def)

lemma start_next_ok: "start_next (StoreKeyStart (encode_bits bs)) = Some (StoreKeyStart (septets bs @ [terminator bs + 1]))"
  using terminator_less [of bs] by (simp add: start_next_def encode_bits_snoc nth_append)

lemma store_key_starts_ok:
  "rid_ok k \<Longrightarrow> \<forall>i \<in> set is. i \<le> 256 \<Longrightarrow>
     store_key_starts k is = Some (map (\<lambda>i. StoreKeyStart (encode_bits (take i (rid_bits k)))) is)"
  by (induction "is") (simp_all add: encode_ok rid_ok_def record_id_num_bytes_def rid_bits_def)

lemma all_store_key_starts_ok:
  "rid_ok k \<Longrightarrow> all_store_key_starts k = Some (map (\<lambda>i. StoreKeyStart (encode_bits (take i (rid_bits k)))) [0..<257])"
  unfolding all_store_key_starts_def by (subst store_key_starts_ok) (simp_all add: record_id_num_bytes_def)

lemma range_contains_key:
  "encode_bits bs \<le> encode_bits q @ h \<and> encode_bits q @ h < septets bs @ [terminator bs + 1] \<longleftrightarrow> q = bs"
proof
  assume *: "encode_bits bs \<le> encode_bits q @ h \<and> encode_bits q @ h < septets bs @ [terminator bs + 1]"
  then obtain r where "encode_bits q @ h = septets bs @ [terminator bs] @ r"
    using between_snoc [OF _ _ terminator_less] unfolding encode_bits_snoc [of bs] by blast
  then have "encode_bits q @ h = encode_bits bs @ r"
    by (simp add: encode_bits_snoc [of bs])
  then show "q = bs"
    using encode_bits_append_inj by blast
next
  assume q: "q = bs"
  have "xs @ [t] \<le> xs @ [t] @ r" for xs r and t :: u8
    by (induction xs) simp_all
  moreover have "terminator bs < terminator bs + 1"
    using terminator_less [of bs] unat_u8_succ [of "terminator bs"] by (simp add: word_less_nat_alt)
  then have "xs @ [terminator bs] @ r < xs @ [terminator bs + 1]" for xs r
    by (induction xs) simp_all
  ultimately show "encode_bits bs \<le> encode_bits q @ h \<and> encode_bits q @ h < septets bs @ [terminator bs + 1]"
    by (simp add: q encode_bits_snoc)
qed

text \<open>
  C23: range reads.  For each length from zero to all bits of a record id there is one start of row
  keys, and it has a successor.  The row keys from the start up to but not including the successor
  are exactly those of the versions of the node at that prefix of the record id.
\<close>

theorem store_key_range_exact:
  assumes "rid_ok k" "i \<le> 256"
  shows "\<exists>starts e. all_store_key_starts k = Some starts \<and> length starts = 257 \<and> start_next (starts ! i) = Some e \<and>
    (\<forall>nk. \<exists>sk. store_key_new H nk = Some sk \<and>
       (sks_bytes (starts ! i) \<le> sk_bytes sk \<and> sk_bytes sk < sks_bytes e \<longleftrightarrow> nk_prefix nk = take i (rid_bits k)))"
  using assms(2) by (simp add: all_store_key_starts_ok [OF assms(1)] start_next_ok store_key_new_ok range_contains_key del: upt_Suc)

theorem store_key_range_exact_witness:
  "\<exists>starts e sk. all_store_key_starts record_id_min = Some starts \<and> start_next (starts ! 0) = Some e \<and>
     store_key_new example_hasher (NodeKey [] 7) = Some sk \<and> sks_bytes (starts ! 0) \<le> sk_bytes sk \<and> sk_bytes sk < sks_bytes e"
  using store_key_range_exact [OF record_id_min_ok(1), of 0 example_hasher] by (metis NodeKey.sel(1) le0 take0)

theorem store_key_roundtrip_witness:
  "\<exists>sk. store_key_new example_hasher (NodeKey [True, False] 7) = Some sk \<and>
     store_key_parse (\<lambda>bs. case bs of [b] \<Rightarrow> Some b | _ \<Rightarrow> None) (sk_bytes sk) = Some (encode_bits [True, False], 7)"
proof -
  have "inj (as_slice example_hasher)" "(case as_slice example_hasher h of [b] \<Rightarrow> Some b | _ \<Rightarrow> None) = Some h" for h
    by (simp_all add: example_hasher_def inj_def)
  then show ?thesis
    using store_key_roundtrip [of example_hasher "\<lambda>bs. case bs of [b] \<Rightarrow> Some b | _ \<Rightarrow> None" "NodeKey [True, False] 7"] by auto
qed

end
