(* ===== verification/HsmTypes.thy ===== *)
theory HsmTypes
  imports MerkleProof
begin

text \<open>
  The data the HSMs of a realm exchange (\<open>src/hsm_api/src/lib.rs\<close>) and the message
  authentication codes over it (\<open>src/hsm_core/src/hsm/mac.rs\<close>,
  \<open>src/hsm_core/src/hsm/configuration.rs\<close>).  The keyed hash and the CBOR encoder are not part
  of the repository: they are the fields of the parameter \<open>MacAlg\<close>.
\<close>

section \<open>Log entries\<close>

datatype DataHash = DataHash (data_hash_bytes: bytes)

instantiation DataHash :: linorder
begin

definition less_eq_DataHash :: "DataHash \<Rightarrow> DataHash \<Rightarrow> bool" where
  "less_eq_DataHash a b \<longleftrightarrow> data_hash_bytes a \<le> data_hash_bytes b"

definition less_DataHash :: "DataHash \<Rightarrow> DataHash \<Rightarrow> bool" where
  "less_DataHash a b \<longleftrightarrow> data_hash_bytes a < data_hash_bytes b"

instance
  by intro_classes (auto simp: less_eq_DataHash_def less_DataHash_def intro: DataHash.expand)

end

definition data_hash_zero :: DataHash where
  "data_hash_zero = DataHash (replicate 32 0)"

datatype EntryMac = EntryMac bytes
datatype GroupConfigurationStatement = GroupConfigurationStatement bytes
datatype HsmRealmStatement = HsmRealmStatement bytes
datatype CapturedStatement = CapturedStatement bytes
datatype PreparedTransferStatement = PreparedTransferStatement bytes
datatype TransferStatement = TransferStatement bytes
datatype TransferNonce = TransferNonce bytes

definition entry_mac_zero :: EntryMac where
  "entry_mac_zero = EntryMac (replicate 32 0)"

record Partition =
  pt_range :: OwnedRange
  pt_root_hash :: DataHash

record TransferringOut =
  tout_destination :: GroupId
  tout_partition :: Partition
  tout_at :: LogIndex

record TransferringIn =
  tin_source :: GroupId
  tin_range :: OwnedRange
  tin_at :: LogIndex

datatype Transferring = TransIn TransferringIn | TransOut TransferringOut

record LogEntry =
  le_index :: LogIndex
  le_partition :: "Partition option"
  le_transferring :: "Transferring option"
  le_prev_mac :: EntryMac
  le_entry_mac :: EntryMac
  le_hsm :: HsmId

section \<open>Roles and results\<close>

type_synonym RoleLogicalClock = u64

definition role_clock_start :: RoleLogicalClock where
  "role_clock_start = 1"

text \<open>As in a release build, the clock wraps at the end of \<open>u64\<close>.\<close>

definition role_clock_next :: "RoleLogicalClock \<Rightarrow> RoleLogicalClock" where
  "role_clock_next c = c + 1"

datatype GroupMemberRole =
    RoleLeader (role_starting: LogIndex)
  | RoleSteppingDown (role_leader_starting: LogIndex)
  | RoleWitness

record RoleStatus =
  rs_role :: GroupMemberRole
  rs_at :: RoleLogicalClock

record GuessState =
  gs_num_guesses :: u16
  gs_guess_count :: u16

datatype AppResultType =
    ResRegister1
  | ResRegister2
  | ResRecover1
  | ResRecover2 (res_updated: "GuessState option")
  | ResRecover3 (res_recovered: bool)
  | ResDelete

record Captured =
  cap_hsm :: HsmId
  cap_realm :: RealmId
  cap_group :: GroupId
  cap_index :: LogIndex
  cap_mac :: EntryMac
  cap_statement :: CapturedStatement

definition configuration_limit :: nat where
  "configuration_limit = 9"

definition groups_limit :: nat where
  "groups_limit = 16"

section \<open>Group configurations\<close>

datatype GroupConfiguration = GroupConfiguration (config_hsms: "HsmId list")

datatype ConfigurationError =
    ConfigNeedsHsm
  | ConfigTooMany
  | ConfigNotSorted
  | ConfigMissingLocal

definition config_from_local :: "HsmId \<Rightarrow> GroupConfiguration" where
  "config_from_local local = GroupConfiguration [local]"

fun windows_increasing :: "HsmId list \<Rightarrow> bool" where
  "windows_increasing (a # b # hsms) \<longleftrightarrow> a < b \<and> windows_increasing (b # hsms)"
| "windows_increasing _ \<longleftrightarrow> True"

definition config_from_sorted_including_local ::
  "HsmId list \<Rightarrow> HsmId \<Rightarrow> ConfigurationError + GroupConfiguration" where
  "config_from_sorted_including_local hsms local =
     (if hsms = [] then Inl ConfigNeedsHsm
      else if length hsms > configuration_limit then Inl ConfigTooMany
      else if \<not> windows_increasing hsms then Inl ConfigNotSorted
      else if local \<notin> set hsms then Inl ConfigMissingLocal
      else Inr (GroupConfiguration hsms))"

definition config_to_vec :: "GroupConfiguration \<Rightarrow> HsmId list" where
  "config_to_vec c = config_hsms c"

text \<open>The invariants that the type's documentation lists, for the configuration of an HSM.\<close>

definition config_inv :: "HsmId \<Rightarrow> GroupConfiguration \<Rightarrow> bool" where
  "config_inv local c \<longleftrightarrow> sorted_wrt (<) (config_hsms c) \<and> local \<in> set (config_hsms c) \<and>
     length (config_hsms c) \<le> configuration_limit"

lemma windows_increasing_sorted: "windows_increasing hsms \<longleftrightarrow> sorted_wrt (<) hsms"
  by (induction hsms rule: windows_increasing.induct) (auto dest: less_trans)

lemma config_from_local_inv: "config_inv local (config_from_local local)"
  by (simp add: config_inv_def config_from_local_def configuration_limit_def)

lemma config_from_sorted_Inr:
  "config_from_sorted_including_local hsms local = Inr c \<longleftrightarrow>
   c = GroupConfiguration hsms \<and> config_inv local c"
  by (auto simp: config_from_sorted_including_local_def config_inv_def windows_increasing_sorted)

section \<open>Message authentication codes\<close>

record RealmKeys =
  rk_comm_secret :: bytes
  rk_comm_public :: bytes
  rk_record :: bytes
  rk_mac :: bytes

datatype MacMessage =
    GroupConfigurationStatementMessage RealmId GroupId GroupConfiguration
  | HsmRealmStatementMessage RealmId HsmId RealmKeys
  | CapturedStatementMessage HsmId RealmId GroupId LogIndex EntryMac
  | EntryMacMessage HsmId RealmId GroupId LogIndex "Partition option"
      "TransferringOut option" "TransferringIn option" EntryMac
  | PreparedTransferStatementMessage RealmId GroupId GroupId OwnedRange TransferNonce
  | TransferStatementMessage RealmId Partition GroupId TransferNonce

record MacAlg =
  blake2s_mac256 :: "bytes \<Rightarrow> bytes \<Rightarrow> bytes"
  cbor_message :: "MacMessage \<Rightarrow> bytes"

definition mac_input :: "MacAlg \<Rightarrow> MacMessage \<Rightarrow> string \<Rightarrow> bytes" where
  "mac_input A msg domain = of_nat (length domain) # ascii domain @ cbor_message A msg"

definition mac_calculate :: "MacAlg \<Rightarrow> bytes \<Rightarrow> MacMessage \<Rightarrow> string \<Rightarrow> bytes" where
  "mac_calculate A key msg domain = blake2s_mac256 A key (mac_input A msg domain)"

definition transferring_in :: "Transferring option \<Rightarrow> TransferringIn option" where
  "transferring_in t = (case t of None \<Rightarrow> None | Some (TransIn tin) \<Rightarrow> Some tin | Some (TransOut _) \<Rightarrow> None)"

definition transferring_out :: "Transferring option \<Rightarrow> TransferringOut option" where
  "transferring_out t = (case t of None \<Rightarrow> None | Some (TransIn _) \<Rightarrow> None | Some (TransOut tout) \<Rightarrow> Some tout)"

definition group_configuration_mac ::
  "MacAlg \<Rightarrow> RealmKeys \<Rightarrow> RealmId \<Rightarrow> GroupId \<Rightarrow> GroupConfiguration \<Rightarrow> GroupConfigurationStatement" where
  "group_configuration_mac A keys realm grp configuration =
     GroupConfigurationStatement (mac_calculate A (rk_mac keys)
       (GroupConfigurationStatementMessage realm grp configuration) ''groupcfg'')"

definition hsm_realm_mac :: "MacAlg \<Rightarrow> RealmKeys \<Rightarrow> RealmId \<Rightarrow> HsmId \<Rightarrow> HsmRealmStatement" where
  "hsm_realm_mac A keys realm hsm =
     HsmRealmStatement (mac_calculate A (rk_mac keys) (HsmRealmStatementMessage realm hsm keys) ''hsmrealm'')"

definition captured_mac ::
  "MacAlg \<Rightarrow> RealmKeys \<Rightarrow> HsmId \<Rightarrow> RealmId \<Rightarrow> GroupId \<Rightarrow> LogIndex \<Rightarrow> EntryMac \<Rightarrow> CapturedStatement" where
  "captured_mac A keys hsm realm grp index entry_mac =
     CapturedStatement (mac_calculate A (rk_mac keys)
       (CapturedStatementMessage hsm realm grp index entry_mac) ''capture'')"

fun log_entry_mac :: "MacAlg \<Rightarrow> RealmKeys \<Rightarrow> MacMessage \<Rightarrow> EntryMac option" where
  "log_entry_mac A keys (EntryMacMessage hsm realm grp index part tout tin prev_mac) = do {
     rust_assert (\<not> (tin \<noteq> None \<and> tout \<noteq> None));
     Some (EntryMac (mac_calculate A (rk_mac keys)
       (EntryMacMessage hsm realm grp index part tout tin prev_mac) ''logentry''))
   }"
| "log_entry_mac A keys _ = None"

definition prepared_transfer_mac ::
  "MacAlg \<Rightarrow> RealmKeys \<Rightarrow> RealmId \<Rightarrow> GroupId \<Rightarrow> GroupId \<Rightarrow> OwnedRange \<Rightarrow> TransferNonce \<Rightarrow>
   PreparedTransferStatement" where
  "prepared_transfer_mac A keys realm source destination rg nonce =
     PreparedTransferStatement (mac_calculate A (rk_mac keys)
       (PreparedTransferStatementMessage realm source destination rg nonce) ''prepared_transfer'')"

definition transfer_mac ::
  "MacAlg \<Rightarrow> RealmKeys \<Rightarrow> RealmId \<Rightarrow> Partition \<Rightarrow> GroupId \<Rightarrow> TransferNonce \<Rightarrow> TransferStatement" where
  "transfer_mac A keys realm part destination nonce =
     TransferStatement (mac_calculate A (rk_mac keys)
       (TransferStatementMessage realm part destination nonce) ''transfer'')"

definition entry_mac_message :: "RealmId \<Rightarrow> GroupId \<Rightarrow> LogEntry \<Rightarrow> MacMessage" where
  "entry_mac_message realm grp e =
     EntryMacMessage (le_hsm e) realm grp (le_index e) (le_partition e)
       (transferring_out (le_transferring e)) (transferring_in (le_transferring e)) (le_prev_mac e)"

record LogEntryBuilder =
  eb_hsm :: HsmId
  eb_realm :: RealmId
  eb_group :: GroupId
  eb_index :: LogIndex
  eb_partition :: "Partition option"
  eb_transferring :: "Transferring option"
  eb_prev_mac :: EntryMac

definition entry_build :: "MacAlg \<Rightarrow> RealmKeys \<Rightarrow> LogEntryBuilder \<Rightarrow> LogEntry option" where
  "entry_build A keys b = do {
     entry_mac \<leftarrow> log_entry_mac A keys
       (EntryMacMessage (eb_hsm b) (eb_realm b) (eb_group b) (eb_index b) (eb_partition b)
         (transferring_out (eb_transferring b)) (transferring_in (eb_transferring b)) (eb_prev_mac b));
     Some \<lparr>le_index = eb_index b, le_partition = eb_partition b, le_transferring = eb_transferring b,
       le_prev_mac = eb_prev_mac b, le_entry_mac = entry_mac, le_hsm = eb_hsm b\<rparr>
   }"

text \<open>Whether the MAC an entry carries is the one the realm's key gives it.\<close>

definition entry_authentic :: "MacAlg \<Rightarrow> RealmKeys \<Rightarrow> RealmId \<Rightarrow> GroupId \<Rightarrow> LogEntry \<Rightarrow> bool" where
  "entry_authentic A keys realm grp e \<longleftrightarrow>
     log_entry_mac A keys (entry_mac_message realm grp e) = Some (le_entry_mac e)"

definition captured_authentic :: "MacAlg \<Rightarrow> RealmKeys \<Rightarrow> Captured \<Rightarrow> bool" where
  "captured_authentic A keys c \<longleftrightarrow>
     captured_mac A keys (cap_hsm c) (cap_realm c) (cap_group c) (cap_index c) (cap_mac c) = cap_statement c"

lemma transferring_not_both: "transferring_in t = None \<or> transferring_out t = None"
  by (auto simp: transferring_in_def transferring_out_def split: option.splits Transferring.splits)

lemma transferring_inj:
  "transferring_in t = transferring_in u \<Longrightarrow> transferring_out t = transferring_out u \<Longrightarrow> t = u"
  by (auto simp: transferring_in_def transferring_out_def split: option.splits Transferring.splits)

lemma entry_build_total:
  "\<exists>e. entry_build A keys b = Some e \<and> entry_authentic A keys (eb_realm b) (eb_group b) e \<and>
     le_index e = eb_index b \<and> le_partition e = eb_partition b \<and> le_transferring e = eb_transferring b \<and>
     le_prev_mac e = eb_prev_mac b \<and> le_hsm e = eb_hsm b"
  using transferring_not_both [of "eb_transferring b"]
  by (auto simp: entry_build_def entry_authentic_def entry_mac_message_def panic_simps)

lemma log_entry_mac_total: "\<exists>m. log_entry_mac A keys (entry_mac_message realm grp e) = Some m"
  using transferring_not_both [of "le_transferring e"]
  by (auto simp: entry_mac_message_def panic_simps)

section \<open>Domain separation\<close>

fun mac_domain :: "MacMessage \<Rightarrow> string" where
  "mac_domain (GroupConfigurationStatementMessage _ _ _) = ''groupcfg''"
| "mac_domain (HsmRealmStatementMessage _ _ _) = ''hsmrealm''"
| "mac_domain (CapturedStatementMessage _ _ _ _ _) = ''capture''"
| "mac_domain (EntryMacMessage _ _ _ _ _ _ _ _) = ''logentry''"
| "mac_domain (PreparedTransferStatementMessage _ _ _ _ _) = ''prepared_transfer''"
| "mac_domain (TransferStatementMessage _ _ _ _) = ''transfer''"

text \<open>
  What is relied on of the CBOR encoder for the messages \<open>M\<close> of a run: within one message type,
  different messages have different encodings.  Nothing is assumed of encodings of different types.
  What is relied on of the keyed hash: it does not collide on the inputs of the run.
\<close>

definition cbor_ok :: "MacAlg \<Rightarrow> MacMessage set \<Rightarrow> bool" where
  "cbor_ok A M \<longleftrightarrow> (\<forall>m \<in> M. \<forall>m' \<in> M.
     mac_domain m = mac_domain m' \<longrightarrow> cbor_message A m = cbor_message A m' \<longrightarrow> m = m')"

definition mac_no_collision :: "MacAlg \<Rightarrow> bytes \<Rightarrow> MacMessage set \<Rightarrow> bool" where
  "mac_no_collision A key M \<longleftrightarrow> inj_on (blake2s_mac256 A key) ((\<lambda>m. mac_input A m (mac_domain m)) ` M)"

definition mac_of :: "MacAlg \<Rightarrow> RealmKeys \<Rightarrow> MacMessage \<Rightarrow> bytes" where
  "mac_of A keys m =
     (case m of
        GroupConfigurationStatementMessage r g c \<Rightarrow>
          (case group_configuration_mac A keys r g c of GroupConfigurationStatement b \<Rightarrow> b)
      | HsmRealmStatementMessage r h k \<Rightarrow>
          (case hsm_realm_mac A keys r h of HsmRealmStatement b \<Rightarrow> b)
      | CapturedStatementMessage h r g i e \<Rightarrow>
          (case captured_mac A keys h r g i e of CapturedStatement b \<Rightarrow> b)
      | EntryMacMessage h r g i p to ti e \<Rightarrow>
          (case log_entry_mac A keys m of None \<Rightarrow> [] | Some (EntryMac b) \<Rightarrow> b)
      | PreparedTransferStatementMessage r s d rg n \<Rightarrow>
          (case prepared_transfer_mac A keys r s d rg n of PreparedTransferStatement b \<Rightarrow> b)
      | TransferStatementMessage r p d n \<Rightarrow>
          (case transfer_mac A keys r p d n of TransferStatement b \<Rightarrow> b))"

text \<open>The messages an HSM authenticates: realm statements are over its own keys, and a log entry
  is not transferring in both directions.\<close>

fun mac_message_ok :: "RealmKeys \<Rightarrow> MacMessage \<Rightarrow> bool" where
  "mac_message_ok keys (HsmRealmStatementMessage _ _ k) \<longleftrightarrow> k = keys"
| "mac_message_ok keys (EntryMacMessage _ _ _ _ _ to ti _) \<longleftrightarrow> to = None \<or> ti = None"
| "mac_message_ok keys _ \<longleftrightarrow> True"

lemma mac_of_input:
  "mac_message_ok keys m \<Longrightarrow> mac_of A keys m = blake2s_mac256 A (rk_mac keys) (mac_input A m (mac_domain m))"
  by (cases m) (auto simp: mac_of_def group_configuration_mac_def hsm_realm_mac_def captured_mac_def
      prepared_transfer_mac_def transfer_mac_def mac_calculate_def panic_simps)

lemma mac_domain_inj:
  "ascii (mac_domain m) @ x = ascii (mac_domain m') @ y \<Longrightarrow>
   length (mac_domain m) = length (mac_domain m') \<Longrightarrow> mac_domain m = mac_domain m' \<and> x = y"
  by (cases m; cases m') (simp_all add: ascii_def)

lemma mac_domain_length: "length (mac_domain m) < 256"
  by (cases m) simp_all

lemma of_nat_u8_inj: "a < 256 \<Longrightarrow> b < 256 \<Longrightarrow> (of_nat a :: u8) = of_nat b \<longleftrightarrow> a = b"
  by (simp add: word_of_nat_eq_iff take_bit_nat_def)

lemma mac_input_inj:
  assumes "cbor_ok A M" "m \<in> M" "m' \<in> M" "mac_input A m (mac_domain m) = mac_input A m' (mac_domain m')"
  shows "m = m'"
proof -
  have "length (mac_domain m) = length (mac_domain m')"
    using assms(4) mac_domain_length [of m] mac_domain_length [of m']
    by (auto simp: mac_input_def of_nat_u8_inj)
  then show ?thesis
    using mac_domain_inj [of m "cbor_message A m" m' "cbor_message A m'"] assms
    by (auto simp: mac_input_def cbor_ok_def)
qed

lemma mac_of_inj:
  assumes "cbor_ok A M" "mac_no_collision A (rk_mac keys) M" "m \<in> M" "m' \<in> M"
    and "mac_message_ok keys m" "mac_message_ok keys m'" "mac_of A keys m = mac_of A keys m'"
  shows "m = m'"
proof -
  have "mac_input A m (mac_domain m) = mac_input A m' (mac_domain m')"
    using assms(2-) by (auto simp: mac_of_input mac_no_collision_def dest: inj_onD)
  then show ?thesis
    using mac_input_inj assms(1,3,4) by blast
qed

lemma captured_mac_inj:
  assumes "cbor_ok A M" "mac_no_collision A (rk_mac keys) M"
    and "CapturedStatementMessage h r g i e \<in> M" "CapturedStatementMessage h' r' g' i' e' \<in> M"
    and "captured_mac A keys h r g i e = captured_mac A keys h' r' g' i' e'"
  shows "h = h' \<and> r = r' \<and> g = g' \<and> i = i' \<and> e = e'"
  using mac_of_inj [OF assms(1-4)] assms(5) by (simp add: mac_of_def)

text \<open>
  C10: statements of different kinds or contents are never interchangeable.  The six kinds of
  statement (group configurations, realm membership, captures, log entries, prepared transfers,
  transfers) are authenticated under one key; if two of them carry the same bytes then they are the
  same statement, provided the encoder is injective within each kind and the keyed hash does not
  collide on the two inputs.
\<close>

theorem statements_unambiguous:
  assumes "cbor_ok A {m, m'}" "mac_no_collision A (rk_mac keys) {m, m'}"
    and "mac_message_ok keys m" "mac_message_ok keys m'" "mac_of A keys m = mac_of A keys m'"
  shows "m = m'"
  using mac_of_inj [OF assms(1,2) _ _ assms(3-5)] by simp

definition example_mac_alg :: MacAlg where
  "example_mac_alg = \<lparr>blake2s_mac256 = (\<lambda>key x. x),
     cbor_message = (\<lambda>m. case m of CapturedStatementMessage _ _ _ i _ \<Rightarrow> [ucast i] | _ \<Rightarrow> [])\<rparr>"

theorem statements_unambiguous_witness:
  "let keys = \<lparr>rk_comm_secret = [], rk_comm_public = [], rk_record = [], rk_mac = [1]\<rparr>;
       m = CapturedStatementMessage (HsmId [1]) (RealmId [2]) (GroupId [3]) 7 entry_mac_zero;
       m' = TransferStatementMessage (RealmId [2]) \<lparr>pt_range = range_full, pt_root_hash = data_hash_zero\<rparr> (GroupId [3]) (TransferNonce [4])
   in mac_of example_mac_alg keys m \<noteq> mac_of example_mac_alg keys m'"
proof -
  let ?keys = "\<lparr>rk_comm_secret = [], rk_comm_public = [], rk_record = [], rk_mac = [1]\<rparr>"
  let ?m = "CapturedStatementMessage (HsmId [1]) (RealmId [2]) (GroupId [3]) 7 entry_mac_zero"
  let ?m' = "TransferStatementMessage (RealmId [2]) \<lparr>pt_range = range_full, pt_root_hash = data_hash_zero\<rparr>
    (GroupId [3]) (TransferNonce [4])"
  have "cbor_ok example_mac_alg {?m, ?m'}" "mac_no_collision example_mac_alg (rk_mac ?keys) {?m, ?m'}"
    by (simp_all add: cbor_ok_def mac_no_collision_def example_mac_alg_def)
  then show ?thesis
    using statements_unambiguous [of example_mac_alg ?m ?m' ?keys] by (auto simp: Let_def)
qed

end
