(* ===== verification/LeaderLog.thy ===== *)
theory LeaderLog
  imports HsmTypes
begin

text \<open>
  The log a leader keeps in memory (\<open>LeaderLog\<close> of \<open>src/hsm_core/src/hsm.rs\<close>): the entries that
  are not yet committed, each with the response it may release, preceded by the last entry that is.
  The invariant is the one the type's comments state: never empty, contiguous indexes, and every
  entry's \<open>prev_mac\<close> is the MAC of the entry before it.
\<close>

datatype 'o NoiseResponse =
    NoiseRespHandshake 'o nat
  | NoiseRespTransport bytes

record 'o LeaderLogEntry =
  lle_entry :: LogEntry
  lle_response :: "('o NoiseResponse \<times> AppResultType) option"

type_synonym 'o LeaderLog = "'o LeaderLogEntry list"

section \<open>Operations\<close>

definition ll_new :: "LogEntry \<Rightarrow> 'o LeaderLog" where
  "ll_new e = [\<lparr>lle_entry = e, lle_response = None\<rparr>]"

definition ll_first :: "'o LeaderLog \<Rightarrow> 'o LeaderLogEntry option" where
  "ll_first l = (case l of [] \<Rightarrow> None | x # _ \<Rightarrow> Some x)"

definition ll_last :: "'o LeaderLog \<Rightarrow> 'o LeaderLogEntry option" where
  "ll_last l = (if l = [] then None else Some (last l))"

definition ll_first_index :: "'o LeaderLog \<Rightarrow> LogIndex option" where
  "ll_first_index l = map_option (le_index \<circ> lle_entry) (ll_first l)"

definition ll_last_index :: "'o LeaderLog \<Rightarrow> LogIndex option" where
  "ll_last_index l = map_option (le_index \<circ> lle_entry) (ll_last l)"

definition ll_get_index :: "'o LeaderLog \<Rightarrow> LogIndex \<Rightarrow> 'o LeaderLogEntry option option" where
  "ll_get_index l index = do {
     first_idx \<leftarrow> ll_first_index l;
     last_idx \<leftarrow> ll_last_index l;
     if index < first_idx \<or> index > last_idx then Some None
     else do {
       let offset = unat (index - first_idx);
       entry \<leftarrow> index_get l offset;
       rust_assert (le_index (lle_entry entry) = index);
       Some (Some entry)
     }
   }"

definition ll_append ::
  "'o LeaderLog \<Rightarrow> LogEntry \<Rightarrow> ('o NoiseResponse \<times> AppResultType) option \<Rightarrow> 'o LeaderLog option" where
  "ll_append l e response = do {
     prior \<leftarrow> ll_last l;
     next_idx \<leftarrow> log_index_next (le_index (lle_entry prior));
     rust_assert (le_index e = next_idx);
     rust_assert (le_prev_mac e = le_entry_mac (lle_entry prior));
     Some (l @ [\<lparr>lle_entry = e, lle_response = response\<rparr>])
   }"

definition ll_pop_last :: "'o LeaderLog \<Rightarrow> ('o LeaderLogEntry \<times> 'o LeaderLog) option" where
  "ll_pop_last l = do {
     rust_assert (length l > 1);
     Some (last l, butlast l)
   }"

definition ll_pop_first :: "'o LeaderLog \<Rightarrow> ('o LeaderLogEntry \<times> 'o LeaderLog) option" where
  "ll_pop_first l = do {
     rust_assert (length l > 1);
     Some (hd l, tl l)
   }"

definition ll_take_first_response ::
  "'o LeaderLog \<Rightarrow> ((EntryMac \<times> 'o NoiseResponse \<times> AppResultType) option \<times> 'o LeaderLog) option" where
  "ll_take_first_response l = (case l of
      [] \<Rightarrow> None
    | e # es \<Rightarrow> Some (map_option (\<lambda>(r, g). (le_entry_mac (lle_entry e), r, g)) (lle_response e),
        e\<lparr>lle_response := None\<rparr> # es))"

section \<open>Invariant\<close>

definition follows :: "LogEntry \<Rightarrow> LogEntry \<Rightarrow> bool" where
  "follows a b \<longleftrightarrow> log_index_next (le_index a) = Some (le_index b) \<and> le_prev_mac b = le_entry_mac a"

fun entries_chain :: "LogEntry list \<Rightarrow> bool" where
  "entries_chain (a # b # es) \<longleftrightarrow> follows a b \<and> entries_chain (b # es)"
| "entries_chain _ \<longleftrightarrow> True"

definition ll_entries :: "'o LeaderLog \<Rightarrow> LogEntry list" where
  "ll_entries l = map lle_entry l"

definition ll_inv :: "'o LeaderLog \<Rightarrow> bool" where
  "ll_inv l \<longleftrightarrow> l \<noteq> [] \<and> entries_chain (ll_entries l)"

lemma entries_chain_Cons:
  "entries_chain (a # es) \<longleftrightarrow> (es = [] \<or> follows a (hd es)) \<and> entries_chain es"
  by (cases es) auto

lemma entries_chain_snoc:
  "entries_chain (es @ [b]) \<longleftrightarrow> (es = [] \<or> follows (last es) b) \<and> entries_chain es"
  by (induction es) (auto simp: entries_chain_Cons hd_append)

lemma entries_chain_append:
  "entries_chain (es @ fs) \<longleftrightarrow> entries_chain es \<and> entries_chain fs \<and>
     (es \<noteq> [] \<and> fs \<noteq> [] \<longrightarrow> follows (last es) (hd fs))"
  by (induction es) (auto simp: entries_chain_Cons hd_append)

lemma follows_index: "follows a b \<Longrightarrow> unat (le_index b) = Suc (unat (le_index a))"
  by (auto simp: follows_def log_index_next_def dest: checked_add1_unat)

lemma entries_chain_nth:
  "entries_chain es \<Longrightarrow> i < length es \<Longrightarrow> unat (le_index (es ! i)) = unat (le_index (es ! 0)) + i"
proof (induction es arbitrary: i)
  case (Cons a es)
  show ?case
  proof (cases i)
    case (Suc j)
    then have "es \<noteq> []" and "follows a (hd es)"
      using Cons.prems by (auto simp: entries_chain_Cons)
    then show ?thesis
      using Cons.IH [of j] Cons.prems Suc by (auto simp: entries_chain_Cons hd_conv_nth follows_index)
  qed simp
qed simp

lemma entries_chain_sorted: "entries_chain es \<Longrightarrow> sorted_wrt (<) (map le_index es)"
  by (auto simp: sorted_wrt_iff_nth_less word_less_nat_alt entries_chain_nth)

lemma entries_chain_le_last:
  assumes "entries_chain es" "e \<in> set es"
  shows "le_index (hd es) \<le> le_index e" "le_index e \<le> le_index (last es)"
proof -
  obtain i where i: "i < length es" "e = es ! i"
    using assms(2) by (auto simp: in_set_conv_nth)
  then have "es \<noteq> []" by auto
  then show "le_index (hd es) \<le> le_index e" "le_index e \<le> le_index (last es)"
    using i entries_chain_nth [OF assms(1), of i] entries_chain_nth [OF assms(1), of "length es - 1"]
    by (auto simp: word_le_nat_alt hd_conv_nth last_conv_nth)
qed

lemma entries_chain_unique:
  "entries_chain es \<Longrightarrow> e \<in> set es \<Longrightarrow> f \<in> set es \<Longrightarrow> le_index e = le_index f \<Longrightarrow> e = f"
  by (metis entries_chain_nth in_set_conv_nth add_left_imp_eq)

lemma ll_entries_simps [simp]:
  "ll_entries [] = []" "ll_entries (x # l) = lle_entry x # ll_entries l"
  "ll_entries (l @ l') = ll_entries l @ ll_entries l'" "ll_entries l = [] \<longleftrightarrow> l = []"
  "length (ll_entries l) = length l"
  by (simp_all add: ll_entries_def)

lemma ll_entries_hd_last:
  "l \<noteq> [] \<Longrightarrow> hd (ll_entries l) = lle_entry (hd l)" "l \<noteq> [] \<Longrightarrow> last (ll_entries l) = lle_entry (last l)"
  "i < length l \<Longrightarrow> ll_entries l ! i = lle_entry (l ! i)"
  by (simp_all add: ll_entries_def hd_map last_map)

lemma ll_index_simps:
  "l \<noteq> [] \<Longrightarrow> ll_first l = Some (hd l)" "l \<noteq> [] \<Longrightarrow> ll_last l = Some (last l)"
  "l \<noteq> [] \<Longrightarrow> ll_first_index l = Some (le_index (hd (ll_entries l)))"
  "l \<noteq> [] \<Longrightarrow> ll_last_index l = Some (le_index (last (ll_entries l)))"
  by (auto simp: ll_first_index_def ll_last_index_def ll_first_def ll_last_def ll_entries_hd_last split: list.splits)

lemma ll_inv_not_Nil: "ll_inv l \<Longrightarrow> l \<noteq> []"
  by (simp add: ll_inv_def)

lemma ll_new_inv: "ll_inv (ll_new e)"
  by (simp add: ll_inv_def ll_new_def)

lemma ll_append_Some:
  "ll_inv l \<Longrightarrow> ll_append l e r = Some l' \<longleftrightarrow>
   follows (last (ll_entries l)) e \<and> l' = l @ [\<lparr>lle_entry = e, lle_response = r\<rparr>]"
  by (auto simp: ll_append_def ll_index_simps ll_inv_def follows_def ll_entries_hd_last panic_simps
      split: Option.bind_splits)

lemma ll_append_inv: "ll_inv l \<Longrightarrow> ll_append l e r = Some l' \<Longrightarrow> ll_inv l'"
  by (auto simp: ll_append_Some) (auto simp: ll_inv_def entries_chain_snoc)

lemma ll_pop_last_Some:
  "ll_pop_last l = Some (e, l') \<longleftrightarrow> l' \<noteq> [] \<and> l = l' @ [e]"
  by (cases l rule: rev_cases) (auto simp: ll_pop_last_def panic_simps)

lemma ll_pop_first_Some:
  "ll_pop_first l = Some (e, l') \<longleftrightarrow> l' \<noteq> [] \<and> l = e # l'"
  by (cases l) (auto simp: ll_pop_first_def panic_simps)

lemma ll_pop_last_inv: "ll_inv l \<Longrightarrow> ll_pop_last l = Some (e, l') \<Longrightarrow> ll_inv l'"
  by (auto simp: ll_pop_last_Some ll_inv_def entries_chain_snoc)

lemma ll_pop_first_inv: "ll_inv l \<Longrightarrow> ll_pop_first l = Some (e, l') \<Longrightarrow> ll_inv l'"
  by (auto simp: ll_pop_first_Some ll_inv_def entries_chain_Cons)

lemma ll_take_first_response_entries:
  "ll_take_first_response l = Some (r, l') \<Longrightarrow> ll_entries l' = ll_entries l"
  by (auto simp: ll_take_first_response_def split: list.splits)

lemma ll_get_index_lookup:
  assumes "ll_inv l"
  shows "\<exists>r. ll_get_index l i = Some r \<and> (\<forall>e. r = Some e \<longleftrightarrow> e \<in> set l \<and> le_index (lle_entry e) = i)"
proof -
  define es where "es = ll_entries l"
  have l: "l \<noteq> []" and chain: "entries_chain es"
    using assms by (auto simp: ll_inv_def es_def)
  have nth: "unat (le_index (lle_entry (l ! j))) = unat (le_index (hd es)) + j" if "j < length l" for j
    using entries_chain_nth [OF chain, of j] that l
    by (simp add: es_def ll_entries_hd_last hd_conv_nth)
  have bounds: "le_index (hd es) \<le> i" "i \<le> le_index (last es)" if "e \<in> set l" "le_index (lle_entry e) = i" for e
    using entries_chain_le_last [OF chain, of "lle_entry e"] that by (auto simp: es_def ll_entries_def)
  show ?thesis
  proof (cases "le_index (hd es) \<le> i \<and> i \<le> le_index (last es)")
    case True
    define k where "k = unat (i - le_index (hd es))"
    have k: "k = unat i - unat (le_index (hd es))"
      using True by (simp add: k_def unat_sub)
    have "unat (le_index (last es)) = unat (le_index (hd es)) + (length l - 1)"
      using nth [of "length l - 1"] l by (simp add: es_def ll_entries_hd_last last_conv_nth)
    then have "unat i \<le> unat (le_index (hd es)) + (length l - 1)" "0 < length l"
      using True l by (simp_all add: word_le_nat_alt)
    then have kl: "k < length l"
      unfolding k by linarith
    have idx: "le_index (lle_entry (l ! k)) = i"
      using nth [OF kl] True k by (auto simp: word_le_nat_alt word_unat_eq_iff)
    have "e = l ! k" if e: "e \<in> set l" "le_index (lle_entry e) = i" for e
    proof -
      obtain j where "j < length l" "e = l ! j"
        using e(1) by (auto simp: in_set_conv_nth)
      then show ?thesis
        using nth [of j] nth [OF kl] e(2) idx by simp
    qed
    then have "\<forall>e. l ! k = e \<longleftrightarrow> e \<in> set l \<and> le_index (lle_entry e) = i"
      using kl idx by auto
    moreover have "\<not> (i < le_index (hd es) \<or> i > le_index (last es))"
      using True by auto
    ultimately show ?thesis
      using kl idx l by (simp add: ll_get_index_def ll_index_simps es_def [symmetric] k_def [symmetric] panic_simps)
  next
    case False
    then have "ll_get_index l i = Some None"
      using l by (auto simp: ll_get_index_def ll_index_simps es_def [symmetric] not_le)
    then show ?thesis
      using bounds False by auto
  qed
qed


text \<open>
  C13: looking an index up in the leader's log never panics, and it returns exactly the entry of
  the log that has that index.
\<close>

theorem ll_get_index_exact:
  "ll_inv l \<Longrightarrow> \<exists>r. ll_get_index l i = Some r \<and> (\<forall>e. r = Some e \<longleftrightarrow> e \<in> set l \<and> le_index (lle_entry e) = i)"
  by (rule ll_get_index_lookup)

definition example_entry :: LogEntry where
  "example_entry = \<lparr>le_index = 5, le_partition = None, le_transferring = None,
      le_prev_mac = entry_mac_zero, le_entry_mac = entry_mac_zero, le_hsm = HsmId []\<rparr>"

theorem ll_get_index_exact_witness:
  "ll_get_index (ll_new example_entry :: unit LeaderLog) 5 = Some (Some \<lparr>lle_entry = example_entry, lle_response = None\<rparr>)"
proof -
  let ?e = "\<lparr>lle_entry = example_entry, lle_response = None\<rparr> :: unit LeaderLogEntry"
  obtain r where r: "ll_get_index (ll_new example_entry) 5 = Some r"
    "\<forall>e. r = Some e \<longleftrightarrow> e \<in> set (ll_new example_entry :: unit LeaderLog) \<and> le_index (lle_entry e) = 5"
    using ll_get_index_exact [OF ll_new_inv, of example_entry 5] by blast
  have "r = Some ?e"
    using r(2) by (simp add: ll_new_def example_entry_def)
  then show ?thesis
    using r(1) by simp
qed

end
