(* ===== verification/Wp.thy ===== *)
theory Wp
  imports Prelude
begin

text \<open>
  Weakest preconditions for code that may panic: \<open>wp m Q\<close> holds when every result that \<open>m\<close>
  returns satisfies \<open>Q\<close>.  The rules in \<open>wp_simps\<close> push the predicate through the option monad, so
  that a property of a handler follows from the properties of the operations it calls.
\<close>

named_theorems wp_simps

definition wp :: "'a option \<Rightarrow> ('a \<Rightarrow> bool) \<Rightarrow> bool" where
  "wp m Q \<longleftrightarrow> (\<forall>x. m = Some x \<longrightarrow> Q x)"

lemma wpI: "(\<And>x. m = Some x \<Longrightarrow> Q x) \<Longrightarrow> wp m Q"
  by (simp add: wp_def)

lemma wpD: "wp m Q \<Longrightarrow> m = Some x \<Longrightarrow> Q x"
  by (simp add: wp_def)

lemma wp_mono: "wp m Q \<Longrightarrow> (\<And>x. m = Some x \<Longrightarrow> Q x \<Longrightarrow> R x) \<Longrightarrow> wp m R"
  by (simp add: wp_def)

lemma wp_Some [wp_simps, simp]: "wp (Some x) Q \<longleftrightarrow> Q x"
  by (simp add: wp_def)

lemma wp_None [wp_simps, simp]: "wp None Q"
  by (simp add: wp_def)

lemma wp_bind [wp_simps]: "wp (Option.bind m f) Q \<longleftrightarrow> wp m (\<lambda>x. wp (f x) Q)"
  by (cases m) (auto simp: wp_def)

lemma wp_assert [wp_simps]: "wp (rust_assert b) Q \<longleftrightarrow> (b \<longrightarrow> Q ())"
  by (auto simp: wp_def rust_assert_def)

lemma wp_map_option [wp_simps]: "wp (map_option f m) Q \<longleftrightarrow> wp m (Q \<circ> f)"
  by (cases m) auto

lemma wp_if [wp_simps]: "wp (if b then m else m') Q \<longleftrightarrow> (b \<longrightarrow> wp m Q) \<and> (\<not> b \<longrightarrow> wp m' Q)"
  by simp

lemma wp_case_option [wp_simps]:
  "wp (case x of None \<Rightarrow> m | Some y \<Rightarrow> f y) Q \<longleftrightarrow> (x = None \<longrightarrow> wp m Q) \<and> (\<forall>y. x = Some y \<longrightarrow> wp (f y) Q)"
  by (cases x) auto

lemma wp_case_sum [wp_simps]:
  "wp (case x of Inl a \<Rightarrow> f a | Inr b \<Rightarrow> g b) Q \<longleftrightarrow> (\<forall>a. x = Inl a \<longrightarrow> wp (f a) Q) \<and> (\<forall>b. x = Inr b \<longrightarrow> wp (g b) Q)"
  by (cases x) auto

lemma wp_case_prod [wp_simps]:
  "wp (case x of (a, b) \<Rightarrow> f a b) Q \<longleftrightarrow> (\<forall>a b. x = (a, b) \<longrightarrow> wp (f a b) Q)"
  by (cases x) auto

lemma wp_case_list [wp_simps]:
  "wp (case x of [] \<Rightarrow> m | a # as \<Rightarrow> f a as) Q \<longleftrightarrow> (x = [] \<longrightarrow> wp m Q) \<and> (\<forall>a as. x = a # as \<longrightarrow> wp (f a as) Q)"
  by (cases x) auto

text \<open>A value from a fallible lookup is any value the lookup can give.\<close>

lemma wp_var: "(\<And>x. m = Some x \<Longrightarrow> Q x) \<Longrightarrow> wp m Q"
  by (rule wpI)

end
