(* ===== verification/HsmState.thy ===== *)
theory HsmState
  imports LeaderLog LruCache MerkleInsert Wp
begin

text \<open>
  The state of one HSM (\<open>src/hsm_core/src/hsm.rs\<close>): what it keeps in NVRAM, its volatile role in
  each replication group, the writer that persists every mutation, booting from NVRAM
  (\<open>Hsm::new\<close>), and the membership and leadership checks every handler starts with.  The hash,
  the marshalling and the NVRAM device are fields of the parameter \<open>Platform\<close>.
\<close>

section \<open>State\<close>

record HsmOptions =
  tree_overlay_size :: u16
  max_sessions :: u16

record PersistentGroupState =
  pg_configuration :: GroupConfiguration
  pg_captured :: "(LogIndex \<times> EntryMac) option"

record PersistentRealmState =
  pr_id :: RealmId
  pr_statement :: HsmRealmStatement
  pr_groups :: "(GroupId, PersistentGroupState) fmap"

record PersistentState =
  pst_id :: HsmId
  pst_realm :: "PersistentRealmState option"

type_synonym 'o SessionCache = "(RecordId \<times> SessionId, 'o) Cache"

record 'o LeaderVolatileGroupState =
  ld_log :: "'o LeaderLog"
  ld_committed :: "LogIndex option"
  ld_incoming :: "TransferNonce option"
  ld_tree :: "DataHash Tree option"
  ld_sessions :: "'o SessionCache"
  ld_starting_index :: LogIndex

record 'o SteppingDownVolatileGroupState =
  sdn_log :: "'o LeaderLog"
  sdn_committed :: "LogIndex option"
  sdn_abandoned :: "EntryMac list"
  sdn_stepdown_at :: LogIndex
  sdn_leader_starting_index :: LogIndex

datatype 'o RoleVolatileState =
    Leader "'o LeaderVolatileGroupState"
  | SteppingDown "'o SteppingDownVolatileGroupState"
  | Witness

record 'o RoleState =
  rl_state :: "'o RoleVolatileState"
  rl_at :: RoleLogicalClock

record NVRamWriter =
  nw_nvram :: bytes
  nw_hash_of_last_write :: "bytes option"

record 'o Hsm =
  hsm_options :: HsmOptions
  hsm_persistent :: PersistentState
  hsm_writer :: NVRamWriter
  volatile_captured :: "(GroupId, LogIndex \<times> EntryMac) fmap"
  volatile_groups :: "(GroupId, 'o RoleState) fmap"
  hsm_realm_keys :: RealmKeys

record Platform =
  pf_mac :: MacAlg
  pf_hasher :: "DataHash NodeHasher"
  pf_blake2s :: "bytes \<Rightarrow> bytes"
  pf_state_to_vec :: "PersistentState \<Rightarrow> bytes option"
  pf_state_from_slice :: "bytes \<Rightarrow> PersistentState option"
  pf_nvram_write_ok :: "bytes \<Rightarrow> bool"

section \<open>Finite maps\<close>

definition fm_filter_map :: "('k \<Rightarrow> 'a \<Rightarrow> 'b option) \<Rightarrow> ('k, 'a) fmap \<Rightarrow> ('k, 'b) fmap" where
  "fm_filter_map f m =
     (let m' = fmmap_keys f m in fmmap the (fmfilter (\<lambda>k. fmlookup m' k \<noteq> Some None) m'))"

lemma fmlookup_filter_map [simp]: "fmlookup (fm_filter_map f m) k = Option.bind (fmlookup m k) (f k)"
  by (auto simp: fm_filter_map_def Let_def split: Option.bind_splits)

section \<open>Roles\<close>

definition have_same_role :: "'o RoleVolatileState \<Rightarrow> 'o RoleVolatileState \<Rightarrow> bool" where
  "have_same_role a b = (case (a, b) of
      (Witness, Witness) \<Rightarrow> True
    | (SteppingDown _, SteppingDown _) \<Rightarrow> True
    | (Leader _, Leader _) \<Rightarrow> True
    | _ \<Rightarrow> False)"

definition role_transition :: "'o RoleState \<Rightarrow> 'o RoleVolatileState \<Rightarrow> 'o RoleState option \<times> 'o RoleState" where
  "role_transition r nxt =
     (if have_same_role (rl_state r) nxt then (None, r)
      else (Some r, \<lparr>rl_state = nxt, rl_at = role_clock_next (rl_at r)\<rparr>))"

definition make_witness :: "'o RoleState \<Rightarrow> 'o RoleState option \<times> 'o RoleState" where
  "make_witness r = role_transition r Witness"

definition make_stepping_down :: "'o RoleState \<Rightarrow> 'o SteppingDownVolatileGroupState \<Rightarrow> 'o RoleState" where
  "make_stepping_down r sd = snd (role_transition r (SteppingDown sd))"

definition make_leader :: "'o RoleState \<Rightarrow> 'o LeaderVolatileGroupState \<Rightarrow> 'o RoleState" where
  "make_leader r leader = snd (role_transition r (Leader leader))"

definition role_status :: "'o RoleState \<Rightarrow> RoleStatus" where
  "role_status r = (case rl_state r of
      Leader leader \<Rightarrow> \<lparr>rs_role = RoleLeader (ld_starting_index leader), rs_at = rl_at r\<rparr>
    | SteppingDown sd \<Rightarrow> \<lparr>rs_role = RoleSteppingDown (sdn_leader_starting_index sd), rs_at = rl_at r\<rparr>
    | Witness \<Rightarrow> \<lparr>rs_role = RoleWitness, rs_at = rl_at r\<rparr>)"

definition leader_new :: "LogEntry \<Rightarrow> HsmOptions \<Rightarrow> 'o LeaderVolatileGroupState option" where
  "leader_new last_entry options = do {
     let tree = map_option (\<lambda>p. with_existing_root (pt_root_hash p) (unat (tree_overlay_size options)))
                  (le_partition last_entry);
     starting_index \<leftarrow> log_index_next (le_index last_entry);
     sessions \<leftarrow> cache_new (unat (max_sessions options));
     Some \<lparr>ld_log = ll_new last_entry, ld_committed = None, ld_incoming = None, ld_tree = tree,
       ld_sessions = sessions, ld_starting_index = starting_index\<rparr>
   }"

section \<open>Persistence\<close>

definition writer_finished :: "Platform \<Rightarrow> NVRamWriter \<Rightarrow> PersistentState \<Rightarrow> NVRamWriter option" where
  "writer_finished P w state = do {
     data \<leftarrow> pf_state_to_vec P state;
     let d = pf_blake2s P data;
     if nw_hash_of_last_write w = Some d then Some w
     else do {
       rust_assert (pf_nvram_write_ok P (data @ d));
       Some \<lparr>nw_nvram = data @ d, nw_hash_of_last_write = Some d\<rparr>
     }
   }"

definition hsm_mutate ::
  "Platform \<Rightarrow> (PersistentState \<Rightarrow> PersistentState option) \<Rightarrow> 'o Hsm \<Rightarrow> 'o Hsm option" where
  "hsm_mutate P f h = do {
     state \<leftarrow> f (hsm_persistent h);
     w \<leftarrow> writer_finished P (hsm_writer h) state;
     Some (h\<lparr>hsm_persistent := state, hsm_writer := w\<rparr>)
   }"

datatype PersistenceError = IOErrorP | DeserializationP | InvalidChecksum | InvalidRealmStatement

definition blake2s_output_size :: nat where
  "blake2s_output_size = 32"

definition read_persisted_state ::
  "Platform \<Rightarrow> bytes option \<Rightarrow> PersistenceError + PersistentState option" where
  "read_persisted_state P nvram = (case nvram of
      None \<Rightarrow> Inl IOErrorP
    | Some d \<Rightarrow>
        if d = [] then Inr None
        else if length d < blake2s_output_size then Inl InvalidChecksum
        else let data = take (length d - blake2s_output_size) d;
                 stored_digest = drop (length d - blake2s_output_size) d;
                 calced_digest = pf_blake2s P data
             in if stored_digest = calced_digest
                then (case pf_state_from_slice P data of
                        Some state \<Rightarrow> Inr (Some state)
                      | None \<Rightarrow> Inl DeserializationP)
                else Inl InvalidChecksum)"

definition create_random_hsm_id :: "bytes \<Rightarrow> HsmId" where
  "create_random_hsm_id rnd = HsmId rnd"

definition create_random_group_id :: "bytes \<Rightarrow> GroupId" where
  "create_random_group_id rnd = GroupId rnd"

definition create_random_realm_id :: "bytes \<Rightarrow> RealmId" where
  "create_random_realm_id rnd = RealmId rnd"

definition persisted_captures :: "PersistentState \<Rightarrow> (GroupId, LogIndex \<times> EntryMac) fmap" where
  "persisted_captures s = (case pst_realm s of
      None \<Rightarrow> fmempty
    | Some r \<Rightarrow> fm_filter_map (\<lambda>_ g. pg_captured g) (pr_groups r))"

definition hsm_new ::
  "Platform \<Rightarrow> HsmOptions \<Rightarrow> bytes option \<Rightarrow> bytes \<Rightarrow> RealmKeys \<Rightarrow> (PersistenceError + 'o Hsm) option" where
  "hsm_new P options nvram rnd keys =
     (case read_persisted_state P nvram of
        Inl e \<Rightarrow> Some (Inl e)
      | Inr persisted \<Rightarrow> do {
          let writer = \<lparr>nw_nvram = (case nvram of None \<Rightarrow> [] | Some d \<Rightarrow> d), nw_hash_of_last_write = None\<rparr>;
          (persistent, writer) \<leftarrow> (case persisted of
              Some state \<Rightarrow> Some (state, writer)
            | None \<Rightarrow> do {
                let state = \<lparr>pst_id = create_random_hsm_id rnd, pst_realm = None\<rparr>;
                writer \<leftarrow> writer_finished P writer state;
                Some (state, writer)
              });
          if (case pst_realm persistent of
                None \<Rightarrow> False
              | Some realm \<Rightarrow> hsm_realm_mac (pf_mac P) keys (pr_id realm) (pst_id persistent) \<noteq> pr_statement realm)
          then Some (Inl InvalidRealmStatement)
          else Some (Inr \<lparr>hsm_options = options, hsm_persistent = persistent, hsm_writer = writer,
            volatile_captured = persisted_captures persistent,
            volatile_groups = (case pst_realm persistent of
                None \<Rightarrow> fmempty
              | Some r \<Rightarrow> fmmap (\<lambda>_. \<lparr>rl_state = Witness, rl_at = role_clock_start\<rparr>) (pr_groups r)),
            hsm_realm_keys = keys\<rparr>)
        })"

section \<open>Membership\<close>

datatype RealmMemberError = NoRealm | OtherRealm
datatype GroupMemberError = GmInvalidRealm | GmInvalidGroup
datatype GroupLeaderError = GlInvalidRealm | GlInvalidGroup | GlNotLeader RoleStatus
datatype RecordLeaderError = RlInvalidRealm | RlInvalidGroup | RlNotLeader RoleStatus | RlNotOwner

definition is_realm_member :: "PersistentState \<Rightarrow> RealmId \<Rightarrow> RealmMemberError + PersistentRealmState" where
  "is_realm_member state realm = (case pst_realm state of
      Some r \<Rightarrow> if pr_id r = realm then Inr r else Inl OtherRealm
    | None \<Rightarrow> Inl NoRealm)"

definition is_group_member ::
  "PersistentState \<Rightarrow> RealmId \<Rightarrow> GroupId \<Rightarrow> GroupMemberError + PersistentGroupState" where
  "is_group_member state realm grp = (case is_realm_member state realm of
      Inl _ \<Rightarrow> Inl GmInvalidRealm
    | Inr r \<Rightarrow> (case fmlookup (pr_groups r) grp of None \<Rightarrow> Inl GmInvalidGroup | Some g \<Rightarrow> Inr g))"

definition is_group_leader ::
  "PersistentState \<Rightarrow> (GroupId, 'o RoleState) fmap \<Rightarrow> RealmId \<Rightarrow> GroupId \<Rightarrow>
   GroupLeaderError + 'o LeaderVolatileGroupState" where
  "is_group_leader state roles realm grp = (case is_group_member state realm grp of
      Inl GmInvalidRealm \<Rightarrow> Inl GlInvalidRealm
    | Inl GmInvalidGroup \<Rightarrow> Inl GlInvalidGroup
    | Inr _ \<Rightarrow> (case fmlookup roles grp of
          None \<Rightarrow> Inl GlInvalidGroup
        | Some role \<Rightarrow> (case rl_state role of
              Leader leader \<Rightarrow> Inr leader
            | _ \<Rightarrow> Inl (GlNotLeader (role_status role)))))"

definition is_leader_record_owner ::
  "PersistentState \<Rightarrow> (GroupId, 'o RoleState) fmap \<Rightarrow> RealmId \<Rightarrow> GroupId \<Rightarrow> RecordId \<Rightarrow>
   (RecordLeaderError + 'o LeaderVolatileGroupState) option" where
  "is_leader_record_owner state roles realm grp rid = (case is_group_leader state roles realm grp of
      Inl GlInvalidRealm \<Rightarrow> Some (Inl RlInvalidRealm)
    | Inl GlInvalidGroup \<Rightarrow> Some (Inl RlInvalidGroup)
    | Inl (GlNotLeader s) \<Rightarrow> Some (Inl (RlNotLeader s))
    | Inr leader \<Rightarrow> do {
        e \<leftarrow> ll_last (ld_log leader);
        case le_partition (lle_entry e) of
          None \<Rightarrow> Some (Inl RlNotOwner)
        | Some p \<Rightarrow> do {
            c \<leftarrow> range_contains (pt_range p) rid;
            if c then Some (Inr leader) else Some (Inl RlNotOwner)
          }
      })"

text \<open>A leader is mutated in place by the handlers; its role and clock stay.\<close>

definition set_leader :: "GroupId \<Rightarrow> 'o LeaderVolatileGroupState \<Rightarrow> 'o Hsm \<Rightarrow> 'o Hsm" where
  "set_leader grp leader h = (case fmlookup (volatile_groups h) grp of
      None \<Rightarrow> h
    | Some r \<Rightarrow> h\<lparr>volatile_groups := fmupd grp (r\<lparr>rl_state := Leader leader\<rparr>) (volatile_groups h)\<rparr>)"

definition set_role :: "GroupId \<Rightarrow> 'o RoleState \<Rightarrow> 'o Hsm \<Rightarrow> 'o Hsm" where
  "set_role grp r h = h\<lparr>volatile_groups := fmupd grp r (volatile_groups h)\<rparr>"

section \<open>Invariants\<close>

definition log_authentic :: "MacAlg \<Rightarrow> RealmKeys \<Rightarrow> RealmId \<Rightarrow> GroupId \<Rightarrow> 'o LeaderLog \<Rightarrow> bool" where
  "log_authentic A keys realm grp l \<longleftrightarrow> list_all (entry_authentic A keys realm grp) (ll_entries l)"

definition committed_inv :: "LogIndex option \<Rightarrow> 'o LeaderLog \<Rightarrow> bool" where
  "committed_inv committed l \<longleftrightarrow> committed = None \<or> committed = ll_first_index l"

definition tree_inv :: "DataHash Tree option \<Rightarrow> LogEntry \<Rightarrow> bool" where
  "tree_inv t e \<longleftrightarrow> (case t of
      None \<Rightarrow> True
    | Some tr \<Rightarrow> (case le_partition e of
        None \<Rightarrow> False
      | Some p \<Rightarrow> ov_latest_root (tr_overlay tr) = pt_root_hash p))"

definition started_before :: "LogIndex \<Rightarrow> 'o LeaderLog \<Rightarrow> bool" where
  "started_before start l \<longleftrightarrow> unat start \<le> Suc (unat (le_index (hd (ll_entries l))))"

definition leader_inv :: "MacAlg \<Rightarrow> RealmKeys \<Rightarrow> RealmId \<Rightarrow> GroupId \<Rightarrow> 'o LeaderVolatileGroupState \<Rightarrow> bool" where
  "leader_inv A keys realm grp ld \<longleftrightarrow>
     ll_inv (ld_log ld) \<and> log_authentic A keys realm grp (ld_log ld) \<and>
     committed_inv (ld_committed ld) (ld_log ld) \<and> started_before (ld_starting_index ld) (ld_log ld) \<and>
     tree_inv (ld_tree ld) (last (ll_entries (ld_log ld)))"

definition stepping_down_inv ::
  "MacAlg \<Rightarrow> RealmKeys \<Rightarrow> RealmId \<Rightarrow> GroupId \<Rightarrow> 'o SteppingDownVolatileGroupState \<Rightarrow> bool" where
  "stepping_down_inv A keys realm grp sd \<longleftrightarrow>
     ll_inv (sdn_log sd) \<and> log_authentic A keys realm grp (sdn_log sd) \<and>
     committed_inv (sdn_committed sd) (sdn_log sd) \<and>
     le_index (hd (ll_entries (sdn_log sd))) \<le> sdn_stepdown_at sd \<and>
     started_before (sdn_leader_starting_index sd) (sdn_log sd) \<and>
     (1 < sdn_leader_starting_index sd \<longrightarrow> sdn_stepdown_at sd \<le> le_index (last (ll_entries (sdn_log sd))))"

definition role_inv :: "MacAlg \<Rightarrow> RealmKeys \<Rightarrow> RealmId \<Rightarrow> GroupId \<Rightarrow> 'o RoleVolatileState \<Rightarrow> bool" where
  "role_inv A keys realm grp s = (case s of
      Leader ld \<Rightarrow> leader_inv A keys realm grp ld
    | SteppingDown sd \<Rightarrow> stepping_down_inv A keys realm grp sd
    | Witness \<Rightarrow> True)"

definition persistent_inv :: "MacAlg \<Rightarrow> RealmKeys \<Rightarrow> PersistentState \<Rightarrow> bool" where
  "persistent_inv A keys s = (case pst_realm s of
      None \<Rightarrow> True
    | Some r \<Rightarrow>
        pr_statement r = hsm_realm_mac A keys (pr_id r) (pst_id s) \<and> map_len (pr_groups r) \<le> groups_limit \<and>
        fmpred (\<lambda>_ g. config_inv (pst_id s) (pg_configuration g)) (pr_groups r))"

definition persistent_groups :: "PersistentState \<Rightarrow> (GroupId, PersistentGroupState) fmap" where
  "persistent_groups s = (case pst_realm s of None \<Rightarrow> fmempty | Some r \<Rightarrow> pr_groups r)"

definition capture_le :: "(LogIndex \<times> EntryMac) option \<Rightarrow> (LogIndex \<times> EntryMac) option \<Rightarrow> bool" where
  "capture_le a b = (case a of None \<Rightarrow> True | Some (i, m) \<Rightarrow>
     (case b of None \<Rightarrow> False | Some (i', m') \<Rightarrow> (i, m) = (i', m') \<or> i < i'))"

definition hsm_inv :: "Platform \<Rightarrow> 'o Hsm \<Rightarrow> bool" where
  "hsm_inv P h \<longleftrightarrow>
     persistent_inv (pf_mac P) (hsm_realm_keys h) (hsm_persistent h) \<and>
     fmdom (volatile_groups h) = fmdom (persistent_groups (hsm_persistent h)) \<and>
     fmdom (volatile_captured h) |\<subseteq>| fmdom (persistent_groups (hsm_persistent h)) \<and>
     (\<forall>grp g. fmlookup (persistent_groups (hsm_persistent h)) grp = Some g \<longrightarrow>
        capture_le (pg_captured g) (fmlookup (volatile_captured h) grp)) \<and>
     (\<forall>r grp role. pst_realm (hsm_persistent h) = Some r \<longrightarrow> fmlookup (volatile_groups h) grp = Some role \<longrightarrow>
        role_inv (pf_mac P) (hsm_realm_keys h) (pr_id r) grp (rl_state role))"

lemma capture_le_refl [simp]: "capture_le c c"
  by (auto simp: capture_le_def split: option.splits)

lemma capture_le_trans: "capture_le a b \<Longrightarrow> capture_le b c \<Longrightarrow> capture_le a c"
  by (auto simp: capture_le_def split: option.splits)

lemma capture_le_None [simp]: "capture_le None c"
  by (simp add: capture_le_def)

section \<open>Facts about the checks\<close>

lemma is_realm_member_Inr: "is_realm_member s realm = Inr r \<longleftrightarrow> pst_realm s = Some r \<and> pr_id r = realm"
  by (auto simp: is_realm_member_def split: option.splits)

lemma is_group_member_Inr:
  "is_group_member s realm grp = Inr g \<longleftrightarrow>
   (\<exists>r. pst_realm s = Some r \<and> pr_id r = realm \<and> fmlookup (pr_groups r) grp = Some g)"
  by (auto simp: is_group_member_def is_realm_member_def split: option.splits sum.splits)

lemma is_group_leader_Inr:
  "is_group_leader s roles realm grp = Inr leader \<longleftrightarrow>
   (\<exists>g role. is_group_member s realm grp = Inr g \<and> fmlookup roles grp = Some role \<and> rl_state role = Leader leader)"
  by (auto simp: is_group_leader_def split: option.splits sum.splits GroupMemberError.splits RoleVolatileState.splits)

lemma is_leader_record_owner_Inr:
  "is_leader_record_owner s roles realm grp rid = Some (Inr leader) \<Longrightarrow>
   is_group_leader s roles realm grp = Inr leader \<and> ld_log leader \<noteq> [] \<and>
   (\<exists>p. le_partition (lle_entry (last (ld_log leader))) = Some p \<and> range_contains (pt_range p) rid = Some True)"
  by (auto simp: is_leader_record_owner_def ll_last_def split: option.splits sum.splits GroupLeaderError.splits
      Option.bind_splits if_splits)

lemma hsm_inv_leader:
  assumes "hsm_inv P h" "is_group_leader (hsm_persistent h) (volatile_groups h) realm grp = Inr leader"
  shows "leader_inv (pf_mac P) (hsm_realm_keys h) realm grp leader"
  using assms by (fastforce simp: hsm_inv_def is_group_leader_Inr is_group_member_Inr role_inv_def)

lemma hsm_inv_role:
  assumes "hsm_inv P h" "is_group_member (hsm_persistent h) realm grp = Inr g"
  shows "\<exists>role. fmlookup (volatile_groups h) grp = Some role \<and>
    role_inv (pf_mac P) (hsm_realm_keys h) realm grp (rl_state role)"
proof -
  have "grp |\<in>| fmdom (volatile_groups h)"
    using assms by (auto simp: hsm_inv_def is_group_member_Inr persistent_groups_def fmlookup_dom_iff)
  then show ?thesis
    using assms by (auto simp: hsm_inv_def is_group_member_Inr fmlookup_dom_iff)
qed

lemma hsm_inv_set_role:
  assumes "hsm_inv P h" "grp |\<in>| fmdom (volatile_groups h)"
    and "\<And>r. pst_realm (hsm_persistent h) = Some r \<Longrightarrow> role_inv (pf_mac P) (hsm_realm_keys h) (pr_id r) grp (rl_state role)"
  shows "hsm_inv P (set_role grp role h)"
  using assms by (auto simp: hsm_inv_def set_role_def)

lemma set_leader_role:
  "fmlookup (volatile_groups h) grp = Some role \<Longrightarrow> set_leader grp leader h = set_role grp (role\<lparr>rl_state := Leader leader\<rparr>) h"
  by (simp add: set_leader_def set_role_def)

lemma hsm_inv_set_leader:
  assumes "hsm_inv P h" "is_group_leader (hsm_persistent h) (volatile_groups h) realm grp = Inr leader"
    and "leader_inv (pf_mac P) (hsm_realm_keys h) realm grp leader'"
  shows "hsm_inv P (set_leader grp leader' h)"
proof -
  obtain role where role: "fmlookup (volatile_groups h) grp = Some role"
    using assms(2) by (auto simp: is_group_leader_Inr)
  show ?thesis
    unfolding set_leader_role [OF role] using assms role
    by (intro hsm_inv_set_role) (auto simp: is_group_leader_Inr is_group_member_Inr role_inv_def fmlookup_dom_iff)
qed

lemma hsm_inv_no_realm:
  assumes "hsm_inv P h" "pst_realm (hsm_persistent h) = None"
  shows "volatile_groups h = fmempty" "volatile_captured h = fmempty"
proof -
  have "fmdom (volatile_groups h) = {||}" "fmdom (volatile_captured h) = {||}"
    using assms by (auto simp: hsm_inv_def persistent_groups_def)
  then show "volatile_groups h = fmempty" "volatile_captured h = fmempty"
    by (auto intro!: fmap_ext fmdom_notD)
qed

section \<open>How a role evolves\<close>

definition committed_le :: "LogIndex option \<Rightarrow> LogIndex option \<Rightarrow> bool" where
  "committed_le a b = (case a of None \<Rightarrow> True | Some i \<Rightarrow> (case b of None \<Rightarrow> False | Some j \<Rightarrow> i \<le> j))"

definition role_progress :: "'o RoleVolatileState \<Rightarrow> 'o RoleVolatileState \<Rightarrow> bool" where
  "role_progress s s' = (case (s, s') of
      (Leader l, Leader l') \<Rightarrow>
        ld_starting_index l' = ld_starting_index l \<and> committed_le (ld_committed l) (ld_committed l')
    | (SteppingDown a, SteppingDown b) \<Rightarrow>
        sdn_leader_starting_index b = sdn_leader_starting_index a \<and>
        committed_le (sdn_committed a) (sdn_committed b) \<and> sdn_stepdown_at b \<le> sdn_stepdown_at a
    | (Witness, Witness) \<Rightarrow> True
    | _ \<Rightarrow> False)"

text \<open>The transitions between roles: a leader steps down or becomes a witness, an HSM that is
  stepping down becomes a witness, and only a witness becomes a leader.\<close>

definition role_switch :: "'o RoleVolatileState \<Rightarrow> 'o RoleVolatileState \<Rightarrow> bool" where
  "role_switch s s' = (case (s, s') of
      (Leader l, SteppingDown b) \<Rightarrow>
        sdn_leader_starting_index b = ld_starting_index l \<and> sdn_committed b = ld_committed l
    | (Leader l, Witness) \<Rightarrow> True
    | (SteppingDown a, Witness) \<Rightarrow> True
    | (Witness, Leader l) \<Rightarrow> ld_committed l = None
    | _ \<Rightarrow> False)"

definition role_evolves :: "'o RoleState \<Rightarrow> 'o RoleState \<Rightarrow> bool" where
  "role_evolves r r' \<longleftrightarrow>
     rl_at r' = rl_at r \<and> role_progress (rl_state r) (rl_state r') \<or>
     rl_at r' = role_clock_next (rl_at r) \<and> role_switch (rl_state r) (rl_state r')"

definition group_evolves :: "PersistentGroupState \<Rightarrow> PersistentGroupState \<Rightarrow> bool" where
  "group_evolves g g' \<longleftrightarrow> pg_configuration g' = pg_configuration g \<and> capture_le (pg_captured g) (pg_captured g')"

definition persistent_evolves :: "PersistentState \<Rightarrow> PersistentState \<Rightarrow> bool" where
  "persistent_evolves s s' \<longleftrightarrow> pst_id s' = pst_id s \<and>
     (\<forall>r. pst_realm s = Some r \<longrightarrow> (\<exists>r'. pst_realm s' = Some r' \<and> pr_id r' = pr_id r)) \<and>
     (\<forall>grp g. fmlookup (persistent_groups s) grp = Some g \<longrightarrow>
        (\<exists>g'. fmlookup (persistent_groups s') grp = Some g' \<and> group_evolves g g'))"

definition hsm_evolves :: "'o Hsm \<Rightarrow> 'o Hsm \<Rightarrow> bool" where
  "hsm_evolves h h' \<longleftrightarrow>
     hsm_realm_keys h' = hsm_realm_keys h \<and> hsm_options h' = hsm_options h \<and>
     persistent_evolves (hsm_persistent h) (hsm_persistent h') \<and>
     (\<forall>grp. capture_le (fmlookup (volatile_captured h) grp) (fmlookup (volatile_captured h') grp)) \<and>
     (\<forall>grp role. fmlookup (volatile_groups h) grp = Some role \<longrightarrow>
        (\<exists>role'. fmlookup (volatile_groups h') grp = Some role' \<and> role_evolves role role'))"

lemma committed_le_refl [simp]: "committed_le c c"
  by (simp add: committed_le_def split: option.splits)

lemma committed_le_None [simp]: "committed_le None c"
  by (simp add: committed_le_def)

lemma committed_le_trans: "committed_le a b \<Longrightarrow> committed_le b c \<Longrightarrow> committed_le a c"
  by (auto simp: committed_le_def split: option.splits)

lemma role_progress_refl [simp]: "role_progress s s"
  by (simp add: role_progress_def split: RoleVolatileState.splits)

lemma role_progress_trans: "role_progress a b \<Longrightarrow> role_progress b c \<Longrightarrow> role_progress a c"
  by (auto simp: role_progress_def split: RoleVolatileState.splits intro: committed_le_trans)

lemma role_evolves_refl [simp]: "role_evolves r r"
  by (simp add: role_evolves_def)

lemma group_evolves_refl [simp]: "group_evolves g g"
  by (simp add: group_evolves_def)

lemma persistent_evolves_refl [simp]: "persistent_evolves s s"
  by (simp add: persistent_evolves_def)

lemma hsm_evolves_refl [simp]: "hsm_evolves h h"
  by (auto simp: hsm_evolves_def)

lemma hsm_evolves_set_role:
  "fmlookup (volatile_groups h) grp = Some role \<Longrightarrow> role_evolves role role' \<Longrightarrow> hsm_evolves h (set_role grp role' h)"
  by (auto simp: hsm_evolves_def set_role_def)

lemma hsm_evolves_set_leader:
  assumes "is_group_leader (hsm_persistent h) (volatile_groups h) realm grp = Inr leader"
    and "role_progress (Leader leader) (Leader leader')"
  shows "hsm_evolves h (set_leader grp leader' h)"
proof -
  obtain role where "fmlookup (volatile_groups h) grp = Some role" "rl_state role = Leader leader"
    using assms(1) by (auto simp: is_group_leader_Inr)
  then show ?thesis
    using assms(2) by (auto simp: set_leader_role role_evolves_def intro: hsm_evolves_set_role)
qed

text \<open>What a step of the HSM guarantees: the invariant is kept and the state evolves.\<close>

definition step_ok :: "Platform \<Rightarrow> 'o Hsm \<Rightarrow> 'o Hsm \<times> 'r \<Rightarrow> bool" where
  "step_ok P h hr \<longleftrightarrow> hsm_inv P (fst hr) \<and> hsm_evolves h (fst hr)"

lemma step_ok_same [simp]: "step_ok P h (h, r) \<longleftrightarrow> hsm_inv P h"
  by (simp add: step_ok_def)

lemma step_ok_leader:
  assumes "hsm_inv P h" "is_group_leader (hsm_persistent h) (volatile_groups h) realm grp = Inr leader"
    and "leader_inv (pf_mac P) (hsm_realm_keys h) realm grp leader'"
    and "role_progress (Leader leader) (Leader leader')"
  shows "step_ok P h (set_leader grp leader' h, r)"
  using assms hsm_inv_set_leader hsm_evolves_set_leader by (auto simp: step_ok_def)

text \<open>Appending an authentic entry to the log of a leader.\<close>

lemma leader_append:
  assumes "leader_inv A keys realm grp leader" "ll_append (ld_log leader) entry response = Some log'"
    and "entry_authentic A keys realm grp entry" "tree_inv (ld_tree leader') entry"
    and "ld_log leader' = log'" "ld_committed leader' = ld_committed leader" "ld_starting_index leader' = ld_starting_index leader"
  shows "leader_inv A keys realm grp leader'"
proof -
  have l: "ll_inv (ld_log leader)" "ld_log leader \<noteq> []"
    using assms(1) by (auto simp: leader_inv_def ll_inv_def)
  have "ll_inv log'" "log' = ld_log leader @ [\<lparr>lle_entry = entry, lle_response = response\<rparr>]"
    using ll_append_inv [OF l(1) assms(2)] ll_append_Some [OF l(1)] assms(2) by auto
  then show ?thesis
    using assms l by (auto simp: leader_inv_def log_authentic_def committed_inv_def started_before_def ll_index_simps)
qed

lemma leader_inv_same_log:
  assumes "leader_inv A keys realm grp leader" "ld_log leader' = ld_log leader" "ld_committed leader' = ld_committed leader"
    and "ld_starting_index leader' = ld_starting_index leader" "ld_tree leader' = ld_tree leader \<or> ld_tree leader' = None"
  shows "leader_inv A keys realm grp leader'"
  using assms by (auto simp: leader_inv_def tree_inv_def)

lemma leader_inv_ignores [simp]:
  "leader_inv A keys realm grp (leader\<lparr>ld_sessions := s\<rparr>) \<longleftrightarrow> leader_inv A keys realm grp leader"
  "leader_inv A keys realm grp (leader\<lparr>ld_incoming := n\<rparr>) \<longleftrightarrow> leader_inv A keys realm grp leader"
  by (simp_all add: leader_inv_def)

lemma role_progress_leader:
  "ld_starting_index l' = ld_starting_index l \<Longrightarrow> ld_committed l' = ld_committed l \<Longrightarrow> role_progress (Leader l) (Leader l')"
  by (simp add: role_progress_def)

lemma leader_step:
  assumes "hsm_inv P h" "is_group_leader (hsm_persistent h) (volatile_groups h) realm grp = Inr leader"
    and "leader_inv (pf_mac P) (hsm_realm_keys h) realm grp leader \<Longrightarrow> leader_inv (pf_mac P) (hsm_realm_keys h) realm grp leader'"
    and "ld_starting_index leader' = ld_starting_index leader" "ld_committed leader' = ld_committed leader"
  shows "step_ok P h (set_leader grp leader' h, r)"
  using assms(3-5) hsm_inv_leader [OF assms(1,2)]
  by (intro step_ok_leader [OF assms(1,2)] role_progress_leader) auto

section \<open>What NVRAM holds\<close>

text \<open>
  What is relied on of the platform: the digest has its documented length and a serialised state
  deserialises to itself.  \<open>no_digest_collision\<close> says that the digest tells two given states apart:
  the writer skips a write when the digest of the state has not changed.
\<close>

definition platform_ok :: "Platform \<Rightarrow> bool" where
  "platform_ok P \<longleftrightarrow> (\<forall>bs. length (pf_blake2s P bs) = blake2s_output_size) \<and>
     (\<forall>s data. pf_state_to_vec P s = Some data \<longrightarrow> pf_state_from_slice P data = Some s)"

definition no_digest_collision :: "Platform \<Rightarrow> PersistentState \<Rightarrow> PersistentState \<Rightarrow> bool" where
  "no_digest_collision P s s' \<longleftrightarrow> (\<forall>data data'. pf_state_to_vec P s = Some data \<longrightarrow> pf_state_to_vec P s' = Some data' \<longrightarrow>
     pf_blake2s P data = pf_blake2s P data' \<longrightarrow> data = data')"

definition writer_holds :: "Platform \<Rightarrow> NVRamWriter \<Rightarrow> PersistentState \<Rightarrow> bool" where
  "writer_holds P w s \<longleftrightarrow> (\<exists>data. pf_state_to_vec P s = Some data \<and> nw_nvram w = data @ pf_blake2s P data \<and>
     (nw_hash_of_last_write w = None \<or> nw_hash_of_last_write w = Some (pf_blake2s P data)))"

lemma read_written:
  assumes "platform_ok P" "writer_holds P w s"
  shows "read_persisted_state P (Some (nw_nvram w)) = Inr (Some s)"
proof -
  obtain data where data: "pf_state_to_vec P s = Some data" "nw_nvram w = data @ pf_blake2s P data"
    using assms(2) by (auto simp: writer_holds_def)
  have "length (pf_blake2s P data) = 32" "pf_state_from_slice P data = Some s"
    using assms(1) data(1) by (auto simp: platform_ok_def blake2s_output_size_def)
  moreover from this have "pf_blake2s P data \<noteq> []"
    by auto
  ultimately show ?thesis
    by (simp add: read_persisted_state_def data(2) blake2s_output_size_def Let_def)
qed

lemma writer_finished_holds:
  assumes "writer_holds P w s" "no_digest_collision P s s'" "writer_finished P w s' = Some w'"
  shows "writer_holds P w' s'"
proof -
  obtain data where data: "pf_state_to_vec P s' = Some data"
    using assms(3) by (auto simp: writer_finished_def panic_simps)
  show ?thesis
  proof (cases "nw_hash_of_last_write w = Some (pf_blake2s P data)")
    case True
    obtain old where old: "pf_state_to_vec P s = Some old" "nw_nvram w = old @ pf_blake2s P old"
      "nw_hash_of_last_write w = None \<or> nw_hash_of_last_write w = Some (pf_blake2s P old)"
      using assms(1) unfolding writer_holds_def by blast
    then have "pf_blake2s P old = pf_blake2s P data"
      using True by simp
    then have "old = data"
      using assms(2) old(1) data unfolding no_digest_collision_def by blast
    moreover have "w' = w"
      using assms(3) data True by (simp add: writer_finished_def)
    ultimately show ?thesis
      using old data unfolding writer_holds_def by blast
  next
    case False
    then show ?thesis
      using assms(3) data by (auto simp: writer_holds_def writer_finished_def panic_simps Let_def)
  qed
qed

lemma hsm_mutate_Some:
  "hsm_mutate P f h = Some h' \<longleftrightarrow> (\<exists>s w. f (hsm_persistent h) = Some s \<and> writer_finished P (hsm_writer h) s = Some w \<and>
     h' = h\<lparr>hsm_persistent := s, hsm_writer := w\<rparr>)"
  by (auto simp: hsm_mutate_def panic_simps)

end
