(* ===== verification/HsmRealm.thy ===== *)
theory HsmRealm
  imports HsmState
begin

text \<open>
  The requests that form realms and groups and move an HSM between its roles
  (\<open>src/hsm_core/src/hsm.rs\<close>): status, new and join realm, new and join group, become leader,
  step down and persist state.  A handler takes the HSM, the random bytes it draws and the request,
  and returns the HSM and the response; \<open>None\<close> is a panic.  A response whose documentation says
  \<open>in no particular order\<close> lists groups as a finite map.
\<close>

section \<open>Status\<close>

record LeaderStatus =
  ls_committed :: "LogIndex option"
  ls_last :: LogIndex
  ls_owned_range :: "OwnedRange option"
  ls_transferring :: "Transferring option"

record GroupStatus =
  gst_configuration :: "HsmId list"
  gst_captured :: "(LogIndex \<times> EntryMac) option"
  gst_leader :: "LeaderStatus option"
  gst_role :: RoleStatus

record RealmStatus =
  rst_id :: RealmId
  rst_statement :: HsmRealmStatement
  rst_groups :: "(GroupId, GroupStatus) fmap"

record StatusResponse =
  str_id :: HsmId
  str_realm :: "RealmStatus option"
  str_public_key :: bytes

definition group_status :: "PersistentGroupState \<Rightarrow> 'o RoleState \<Rightarrow> GroupStatus option" where
  "group_status g role = do {
     leader \<leftarrow> (case rl_state role of
         Leader leader \<Rightarrow> do {
           e \<leftarrow> ll_last (ld_log leader);
           Some (Some \<lparr>ls_committed = ld_committed leader, ls_last = le_index (lle_entry e),
             ls_owned_range = map_option pt_range (le_partition (lle_entry e)),
             ls_transferring = le_transferring (lle_entry e)\<rparr>)
         }
       | _ \<Rightarrow> Some None);
     Some \<lparr>gst_configuration = config_to_vec (pg_configuration g), gst_captured = pg_captured g,
       gst_leader = leader, gst_role = role_status role\<rparr>
   }"

definition handle_status_request :: "'o Hsm \<Rightarrow> ('o Hsm \<times> StatusResponse) option" where
  "handle_status_request h = do {
     realm \<leftarrow> (case pst_realm (hsm_persistent h) of
         None \<Rightarrow> Some None
       | Some realm \<Rightarrow>
           let status = fmmap_keys (\<lambda>gid g. Option.bind (fmlookup (volatile_groups h) gid) (group_status g)) (pr_groups realm)
           in do {
             rust_assert (fmpred (\<lambda>_ s. s \<noteq> None) status);
             Some (Some \<lparr>rst_id = pr_id realm, rst_statement = pr_statement realm, rst_groups = fmmap the status\<rparr>)
           });
     Some (h, \<lparr>str_id = pst_id (hsm_persistent h), str_realm = realm,
       str_public_key = rk_comm_public (hsm_realm_keys h)\<rparr>)
   }"

section \<open>Forming a realm\<close>

datatype NewRealmResponse =
    NewRealmOk RealmId GroupId LogEntry "DataHash StoreDelta" RoleStatus
  | NewRealmHaveRealm

definition handle_new_realm ::
  "Platform \<Rightarrow> bytes \<Rightarrow> bytes \<Rightarrow> 'o Hsm \<Rightarrow> ('o Hsm \<times> NewRealmResponse) option" where
  "handle_new_realm P rnd_realm rnd_group h =
     (if pst_realm (hsm_persistent h) \<noteq> None then Some (h, NewRealmHaveRealm)
      else do {
        let realm = create_random_realm_id rnd_realm;
        let grp = create_random_group_id rnd_group;
        let hsm_id = pst_id (hsm_persistent h);
        let keys = hsm_realm_keys h;
        h1 \<leftarrow> hsm_mutate P (\<lambda>s. Some (s\<lparr>pst_realm := Some
          \<lparr>pr_id = realm, pr_statement = hsm_realm_mac (pf_mac P) keys realm hsm_id,
           pr_groups = fmupd grp \<lparr>pg_configuration = config_from_local hsm_id, pg_captured = None\<rparr> fmempty\<rparr>\<rparr>)) h;
        (root_hash, delta) \<leftarrow> new_tree (pf_hasher P) range_full;
        entry \<leftarrow> entry_build (pf_mac P) keys
          \<lparr>eb_hsm = hsm_id, eb_realm = realm, eb_group = grp, eb_index = log_index_first,
           eb_partition = Some \<lparr>pt_range = range_full, pt_root_hash = root_hash\<rparr>, eb_transferring = None,
           eb_prev_mac = entry_mac_zero\<rparr>;
        leader \<leftarrow> leader_new entry (hsm_options h);
        starting \<leftarrow> log_index_next log_index_first;
        Some (set_role grp \<lparr>rl_state = Leader leader, rl_at = role_clock_start\<rparr> h1,
          NewRealmOk realm grp entry delta \<lparr>rs_role = RoleLeader starting, rs_at = role_clock_start\<rparr>)
      })"

record JoinRealmRequest =
  jr_realm :: RealmId
  jr_peer :: HsmId
  jr_statement :: HsmRealmStatement

datatype JoinRealmResponse = JoinRealmOk HsmId | JoinRealmHaveOtherRealm | JoinRealmInvalidStatement

definition handle_join_realm ::
  "Platform \<Rightarrow> 'o Hsm \<Rightarrow> JoinRealmRequest \<Rightarrow> ('o Hsm \<times> JoinRealmResponse) option" where
  "handle_join_realm P h req =
     (let hsm_id = pst_id (hsm_persistent h); keys = hsm_realm_keys h
      in case is_realm_member (hsm_persistent h) (jr_realm req) of
        Inr _ \<Rightarrow> Some (h, JoinRealmOk hsm_id)
      | Inl OtherRealm \<Rightarrow> Some (h, JoinRealmHaveOtherRealm)
      | Inl NoRealm \<Rightarrow>
          if hsm_realm_mac (pf_mac P) keys (jr_realm req) (jr_peer req) \<noteq> jr_statement req
          then Some (h, JoinRealmInvalidStatement)
          else do {
            let statement = hsm_realm_mac (pf_mac P) keys (jr_realm req) hsm_id;
            h1 \<leftarrow> hsm_mutate P (\<lambda>s. Some (s\<lparr>pst_realm := Some
              \<lparr>pr_id = jr_realm req, pr_statement = statement, pr_groups = fmempty\<rparr>\<rparr>)) h;
            Some (h1, JoinRealmOk hsm_id)
          })"

section \<open>Forming a group\<close>

record NewGroupRequest =
  ng_realm :: RealmId
  ng_members :: "(HsmId \<times> HsmRealmStatement) list"

datatype NewGroupResponse =
    NewGroupOk GroupId GroupConfigurationStatement LogEntry RoleStatus
  | NewGroupInvalidRealm
  | NewGroupInvalidConfiguration
  | NewGroupInvalidStatement
  | NewGroupTooManyGroups

definition insert_group ::
  "GroupId \<Rightarrow> PersistentGroupState \<Rightarrow> PersistentState \<Rightarrow> PersistentState option" where
  "insert_group grp g s = do {
     realm \<leftarrow> pst_realm s;
     rust_assert (fmlookup (pr_groups realm) grp = None);
     Some (s\<lparr>pst_realm := Some (realm\<lparr>pr_groups := fmupd grp g (pr_groups realm)\<rparr>)\<rparr>)
   }"

definition handle_new_group ::
  "Platform \<Rightarrow> bytes \<Rightarrow> 'o Hsm \<Rightarrow> NewGroupRequest \<Rightarrow> ('o Hsm \<times> NewGroupResponse) option" where
  "handle_new_group P rnd_group h req =
     (let hsm_id = pst_id (hsm_persistent h); keys = hsm_realm_keys h
      in case is_realm_member (hsm_persistent h) (ng_realm req) of
        Inl _ \<Rightarrow> Some (h, NewGroupInvalidRealm)
      | Inr realm \<Rightarrow>
          if map_len (pr_groups realm) \<ge> groups_limit then Some (h, NewGroupTooManyGroups)
          else if \<exists>(hid, statement) \<in> set (ng_members req). hsm_realm_mac (pf_mac P) keys (pr_id realm) hid \<noteq> statement
          then Some (h, NewGroupInvalidStatement)
          else (case config_from_sorted_including_local (map fst (ng_members req)) hsm_id of
              Inl _ \<Rightarrow> Some (h, NewGroupInvalidConfiguration)
            | Inr configuration \<Rightarrow> do {
                let grp = create_random_group_id rnd_group;
                let statement = group_configuration_mac (pf_mac P) keys (ng_realm req) grp configuration;
                h1 \<leftarrow> hsm_mutate P (insert_group grp \<lparr>pg_configuration = configuration, pg_captured = None\<rparr>) h;
                entry \<leftarrow> entry_build (pf_mac P) keys
                  \<lparr>eb_hsm = hsm_id, eb_realm = ng_realm req, eb_group = grp, eb_index = log_index_first,
                   eb_partition = None, eb_transferring = None, eb_prev_mac = entry_mac_zero\<rparr>;
                leader \<leftarrow> leader_new entry (hsm_options h);
                starting \<leftarrow> log_index_next log_index_first;
                Some (set_role grp \<lparr>rl_state = Leader leader, rl_at = role_clock_start\<rparr> h1,
                  NewGroupOk grp statement entry \<lparr>rs_role = RoleLeader starting, rs_at = role_clock_start\<rparr>)
              }))"

record JoinGroupRequest =
  jg_realm :: RealmId
  jg_group :: GroupId
  jg_configuration :: "HsmId list"
  jg_statement :: GroupConfigurationStatement

datatype JoinGroupResponse =
    JoinGroupOk RoleStatus
  | JoinGroupInvalidRealm
  | JoinGroupInvalidConfiguration
  | JoinGroupInvalidStatement
  | JoinGroupTooManyGroups

definition or_insert_group ::
  "GroupId \<Rightarrow> PersistentGroupState \<Rightarrow> PersistentState \<Rightarrow> PersistentState option" where
  "or_insert_group grp g s = do {
     realm \<leftarrow> pst_realm s;
     Some (case fmlookup (pr_groups realm) grp of
         Some _ \<Rightarrow> s
       | None \<Rightarrow> s\<lparr>pst_realm := Some (realm\<lparr>pr_groups := fmupd grp g (pr_groups realm)\<rparr>)\<rparr>)
   }"

definition handle_join_group ::
  "Platform \<Rightarrow> 'o Hsm \<Rightarrow> JoinGroupRequest \<Rightarrow> ('o Hsm \<times> JoinGroupResponse) option" where
  "handle_join_group P h req =
     (case config_from_sorted_including_local (jg_configuration req) (pst_id (hsm_persistent h)) of
        Inl _ \<Rightarrow> Some (h, JoinGroupInvalidConfiguration)
      | Inr configuration \<Rightarrow> (case is_realm_member (hsm_persistent h) (jg_realm req) of
          Inl _ \<Rightarrow> Some (h, JoinGroupInvalidRealm)
        | Inr realm \<Rightarrow>
            if map_len (pr_groups realm) \<ge> groups_limit then Some (h, JoinGroupTooManyGroups)
            else if group_configuration_mac (pf_mac P) (hsm_realm_keys h) (jg_realm req) (jg_group req) configuration
                      \<noteq> jg_statement req
            then Some (h, JoinGroupInvalidStatement)
            else do {
              h1 \<leftarrow> hsm_mutate P (or_insert_group (jg_group req)
                \<lparr>pg_configuration = configuration, pg_captured = None\<rparr>) h;
              let role = (case fmlookup (volatile_groups h1) (jg_group req) of
                  Some r \<Rightarrow> r
                | None \<Rightarrow> \<lparr>rl_state = Witness, rl_at = role_clock_start\<rparr>);
              Some (set_role (jg_group req) role h1, JoinGroupOk (role_status role))
            }))"

section \<open>Persisting captures\<close>

definition copy_captures ::
  "(GroupId, LogIndex \<times> EntryMac) fmap \<Rightarrow> PersistentState \<Rightarrow> PersistentState" where
  "copy_captures captured s = (case pst_realm s of
      None \<Rightarrow> s
    | Some realm \<Rightarrow> s\<lparr>pst_realm := Some (realm\<lparr>pr_groups :=
        fmmap_keys (\<lambda>gid g. case fmlookup captured gid of
            None \<Rightarrow> g
          | Some c \<Rightarrow> g\<lparr>pg_captured := Some c\<rparr>) (pr_groups realm)\<rparr>)\<rparr>)"

definition persist_current_captures :: "Platform \<Rightarrow> 'o Hsm \<Rightarrow> 'o Hsm option" where
  "persist_current_captures P h =
     (if volatile_captured h = fmempty then Some h
      else hsm_mutate P (\<lambda>s. Some (copy_captures (volatile_captured h) s)) h)"

definition handle_persist_state ::
  "Platform \<Rightarrow> 'o Hsm \<Rightarrow> ('o Hsm \<times> (GroupId, Captured) fmap) option" where
  "handle_persist_state P h = do {
     h1 \<leftarrow> persist_current_captures P h;
     let state = hsm_persistent h1;
     let captured = (case pst_realm state of
         None \<Rightarrow> fmempty
       | Some r \<Rightarrow> fm_filter_map (\<lambda>grp g. map_option (\<lambda>(index, entry_mac).
           \<lparr>cap_hsm = pst_id state, cap_realm = pr_id r, cap_group = grp, cap_index = index, cap_mac = entry_mac,
            cap_statement = captured_mac (pf_mac P) (hsm_realm_keys h1) (pst_id state) (pr_id r) grp index entry_mac\<rparr>)
           (pg_captured g)) (pr_groups r));
     Some (h1, captured)
   }"

section \<open>Leadership\<close>

record BecomeLeaderRequest =
  bl_realm :: RealmId
  bl_group :: GroupId
  bl_last_entry :: LogEntry

datatype BecomeLeaderResponse =
    BecomeLeaderOk RoleStatus
  | BecomeLeaderInvalidRealm
  | BecomeLeaderInvalidGroup
  | BecomeLeaderInvalidMac
  | BecomeLeaderNotCaptured "LogIndex option"
  | BecomeLeaderStepdownInProgress

definition handle_become_leader ::
  "Platform \<Rightarrow> 'o Hsm \<Rightarrow> BecomeLeaderRequest \<Rightarrow> ('o Hsm \<times> BecomeLeaderResponse) option" where
  "handle_become_leader P h req = do {
     h1 \<leftarrow> persist_current_captures P h;
     case is_group_member (hsm_persistent h1) (bl_realm req) (bl_group req) of
       Inl GmInvalidRealm \<Rightarrow> Some (h1, BecomeLeaderInvalidRealm)
     | Inl GmInvalidGroup \<Rightarrow> Some (h1, BecomeLeaderInvalidGroup)
     | Inr group_state \<Rightarrow> do {
         role \<leftarrow> fmlookup (volatile_groups h1) (bl_group req);
         case rl_state role of
           SteppingDown _ \<Rightarrow> Some (h1, BecomeLeaderStepdownInProgress)
         | _ \<Rightarrow> (case pg_captured group_state of
             None \<Rightarrow> Some (h1, BecomeLeaderNotCaptured None)
           | Some (captured_index, captured_mac') \<Rightarrow>
               if le_index (bl_last_entry req) \<noteq> captured_index \<or> le_entry_mac (bl_last_entry req) \<noteq> captured_mac'
               then Some (h1, BecomeLeaderNotCaptured (Some captured_index))
               else do {
                 m \<leftarrow> log_entry_mac (pf_mac P) (hsm_realm_keys h1)
                   (entry_mac_message (bl_realm req) (bl_group req) (bl_last_entry req));
                 if m \<noteq> le_entry_mac (bl_last_entry req) then Some (h1, BecomeLeaderInvalidMac)
                 else do {
                   leader \<leftarrow> leader_new (bl_last_entry req) (hsm_options h1);
                   let role' = make_leader role leader;
                   Some (set_role (bl_group req) role' h1, BecomeLeaderOk (role_status role'))
                 }
               })
       }
   }"

datatype StepDownPoint = StepDownLastLogIndex | StepDownLogIndex LogIndex

datatype StepDownResponse =
    StepDownOk (sdr_last: LogIndex) (sdr_role: RoleStatus)
  | StepDownInvalidRealm
  | StepDownInvalidGroup
  | StepDownNotLeader RoleStatus

function pop_after :: "'o LeaderLog \<Rightarrow> LogIndex \<Rightarrow> EntryMac list \<Rightarrow> ('o LeaderLog \<times> EntryMac list) option" where
  "pop_after l stepdown_index abandoned =
     (case ll_last_index l of
        None \<Rightarrow> None
      | Some last_idx \<Rightarrow>
          if last_idx > stepdown_index then
            (case ll_pop_last l of
               None \<Rightarrow> None
             | Some (e, l') \<Rightarrow> pop_after l' stepdown_index (abandoned @ [le_entry_mac (lle_entry e)]))
          else Some (l, abandoned))"
  by pat_completeness auto
termination
  by (relation "measure (\<lambda>(l, _). length l)") (auto simp: ll_pop_last_Some)

declare pop_after.simps [simp del]

definition stepdown_at ::
  "GroupId \<Rightarrow> StepDownPoint \<Rightarrow> 'o Hsm \<Rightarrow> ('o Hsm \<times> StepDownResponse) option" where
  "stepdown_at grp stepdown h =
     (case fmlookup (volatile_groups h) grp of
        None \<Rightarrow> Some (h, StepDownInvalidGroup)
      | Some role \<Rightarrow> (case rl_state role of
          Leader leader \<Rightarrow> do {
            last_idx \<leftarrow> ll_last_index (ld_log leader);
            let stepdown_index = (case stepdown of StepDownLastLogIndex \<Rightarrow> last_idx | StepDownLogIndex i \<Rightarrow> i);
            if ld_committed leader = Some stepdown_index \<and> last_idx = stepdown_index
            then do {
              let role' = snd (make_witness role);
              Some (set_role grp role' h, StepDownOk stepdown_index (role_status role'))
            }
            else do {
              (log, abandoned) \<leftarrow> pop_after (ld_log leader) stepdown_index [];
              let sd = \<lparr>sdn_log = log, sdn_committed = ld_committed leader, sdn_abandoned = abandoned,
                sdn_stepdown_at = stepdown_index, sdn_leader_starting_index = ld_starting_index leader\<rparr>;
              let role' = make_stepping_down role sd;
              Some (set_role grp role' h, StepDownOk stepdown_index (role_status role'))
            }
          }
        | _ \<Rightarrow> Some (h, StepDownNotLeader (role_status role))))"

record StepDownRequest =
  sdq_realm :: RealmId
  sdq_group :: GroupId
  sdq_force :: bool

definition handle_stepdown_as_leader ::
  "'o Hsm \<Rightarrow> StepDownRequest \<Rightarrow> ('o Hsm \<times> StepDownResponse) option" where
  "handle_stepdown_as_leader h req =
     (case is_group_member (hsm_persistent h) (sdq_realm req) (sdq_group req) of
        Inl GmInvalidRealm \<Rightarrow> Some (h, StepDownInvalidRealm)
      | Inl GmInvalidGroup \<Rightarrow> Some (h, StepDownInvalidGroup)
      | Inr _ \<Rightarrow>
          if sdq_force req then do {
            role \<leftarrow> fmlookup (volatile_groups h) (sdq_group req);
            let (prior, role') = make_witness role;
            let h' = set_role (sdq_group req) role' h;
            case map_option rl_state prior of
              Some (Leader leader) \<Rightarrow> do {
                last_idx \<leftarrow> ll_last_index (ld_log leader);
                Some (h', StepDownOk last_idx (role_status role'))
              }
            | Some (SteppingDown sd) \<Rightarrow> Some (h', StepDownOk (sdn_stepdown_at sd) (role_status role'))
            | _ \<Rightarrow> Some (h', StepDownNotLeader (role_status role'))
          }
          else stepdown_at (sdq_group req) StepDownLastLogIndex h)"

section \<open>Forming realms and groups keeps the invariant\<close>

lemma leader_new_inv:
  assumes "leader_new e options = Some leader" "entry_authentic A keys realm grp e"
  shows "leader_inv A keys realm grp leader" "ld_committed leader = None" "ld_log leader = ll_new e"
    and "log_index_next (le_index e) = Some (ld_starting_index leader)"
  using assms by (auto simp: leader_new_def panic_simps leader_inv_def log_authentic_def committed_inv_def
      started_before_def log_index_next_def checked_add1_unat ll_new_def ll_inv_def tree_inv_def with_existing_root_def overlay_new_def split: option.splits)

lemma map_len_fmupd: "map_len (fmupd k v m) = (if k |\<in>| fmdom m then map_len m else Suc (map_len m))"
  by (simp add: map_len_def fcard_finsert_if)

lemma add_group_ok:
  assumes "hsm_inv P h" "pst_realm (hsm_persistent h) = Some r" "fmlookup (pr_groups r) grp = None"
    and "map_len (pr_groups r) < groups_limit" "config_inv (pst_id (hsm_persistent h)) conf"
    and "role_inv (pf_mac P) (hsm_realm_keys h) (pr_id r) grp (rl_state role)"
    and "s = (hsm_persistent h)\<lparr>pst_realm := Some (r\<lparr>pr_groups :=
      fmupd grp \<lparr>pg_configuration = conf, pg_captured = None\<rparr> (pr_groups r)\<rparr>)\<rparr>"
  shows "step_ok P h (set_role grp role (h\<lparr>hsm_persistent := s, hsm_writer := w\<rparr>), x)"
proof -
  have new: "grp |\<notin>| fmdom (pr_groups r)"
    using assms(3) by (simp add: fmdom_notI)
  moreover have "fmlookup (volatile_groups h) grp = None"
    using assms(1,2) new by (auto simp: hsm_inv_def persistent_groups_def fmdom_notD)
  ultimately show ?thesis
    using assms
    by (auto simp: step_ok_def hsm_inv_def hsm_evolves_def persistent_evolves_def persistent_inv_def
        persistent_groups_def set_role_def map_len_fmupd Suc_le_eq)
qed

lemma handle_new_realm_ok:
  assumes "hsm_inv P h"
  shows "wp (handle_new_realm P rr rg h) (step_ok P h)"
proof (rule wpI)
  fix hr
  assume run: "handle_new_realm P rr rg h = Some hr"
  let ?id = "pst_id (hsm_persistent h)" and ?keys = "hsm_realm_keys h"
  let ?realm = "create_random_realm_id rr" and ?grp = "create_random_group_id rg"
  show "step_ok P h hr"
  proof (cases "pst_realm (hsm_persistent h)")
    case (Some r)
    then show ?thesis
      using run assms by (auto simp: handle_new_realm_def)
  next
    case None
    let ?s = "(hsm_persistent h)\<lparr>pst_realm := Some \<lparr>pr_id = ?realm, pr_statement = hsm_realm_mac (pf_mac P) ?keys ?realm ?id,
      pr_groups = fmupd ?grp \<lparr>pg_configuration = config_from_local ?id, pg_captured = None\<rparr> fmempty\<rparr>\<rparr>"
    let ?b = "\<lambda>root_hash. \<lparr>eb_hsm = ?id, eb_realm = ?realm, eb_group = ?grp, eb_index = log_index_first,
      eb_partition = Some \<lparr>pt_range = range_full, pt_root_hash = root_hash\<rparr>, eb_transferring = None,
      eb_prev_mac = entry_mac_zero\<rparr>"
    obtain root_hash entry leader resp w where e: "entry_build (pf_mac P) ?keys (?b root_hash) = Some entry"
      and l: "leader_new entry (hsm_options h) = Some leader"
      and hr: "hr = (set_role ?grp \<lparr>rl_state = Leader leader, rl_at = role_clock_start\<rparr>
        (h\<lparr>hsm_persistent := ?s, hsm_writer := w\<rparr>), resp)"
      using run None by (auto simp: handle_new_realm_def Let_def panic_simps hsm_mutate_Some split: prod.splits)
    have "leader_inv (pf_mac P) ?keys ?realm ?grp leader"
      using leader_new_inv(1) [OF l] entry_build_total [of "pf_mac P" ?keys "?b root_hash"] e by auto
    moreover have "volatile_groups h = fmempty" "volatile_captured h = fmempty"
      by (rule hsm_inv_no_realm [OF assms None])+
    ultimately show ?thesis
      unfolding hr using assms None
      by (auto simp: fcard_finsert_if fcard_fempty step_ok_def hsm_inv_def hsm_evolves_def persistent_evolves_def persistent_inv_def
          persistent_groups_def set_role_def role_inv_def map_len_fmupd map_len_def groups_limit_def config_from_local_inv)
  qed
qed

lemma handle_join_realm_ok:
  assumes "hsm_inv P h"
  shows "wp (handle_join_realm P h req) (step_ok P h)"
proof (rule wpI)
  fix hr
  assume run: "handle_join_realm P h req = Some hr"
  show "step_ok P h hr"
  proof (cases "pst_realm (hsm_persistent h)")
    case (Some r)
    then show ?thesis
      using run assms by (auto simp: handle_join_realm_def Let_def is_realm_member_def split: if_splits)
  next
    case None
    then have "volatile_groups h = fmempty" "volatile_captured h = fmempty"
      using hsm_inv_no_realm [OF assms] by auto
    then show ?thesis
      using run assms None
      by (auto simp: handle_join_realm_def Let_def is_realm_member_def panic_simps hsm_mutate_Some step_ok_def hsm_inv_def
          hsm_evolves_def persistent_evolves_def persistent_inv_def persistent_groups_def map_len_def fcard_fempty split: if_splits)
  qed
qed

lemma handle_new_group_ok:
  assumes "hsm_inv P h"
  shows "wp (handle_new_group P rg h req) (step_ok P h)"
proof (rule wpI)
  fix hr
  assume run: "handle_new_group P rg h req = Some hr"
  let ?id = "pst_id (hsm_persistent h)" and ?keys = "hsm_realm_keys h" and ?grp = "create_random_group_id rg"
  let ?b = "\<lparr>eb_hsm = ?id, eb_realm = ng_realm req, eb_group = ?grp, eb_index = log_index_first,
    eb_partition = None, eb_transferring = None, eb_prev_mac = entry_mac_zero\<rparr>"
  show "step_ok P h hr"
  proof (cases "fst hr = h")
    case True
    then show ?thesis
      using assms by (simp add: step_ok_def)
  next
    case False
    then obtain r conf entry leader w resp where r: "pst_realm (hsm_persistent h) = Some r" "pr_id r = ng_realm req"
      "map_len (pr_groups r) < groups_limit" "fmlookup (pr_groups r) ?grp = None"
      and conf: "config_from_sorted_including_local (map fst (ng_members req)) ?id = Inr conf"
      and e: "entry_build (pf_mac P) ?keys ?b = Some entry" "leader_new entry (hsm_options h) = Some leader"
      and hr: "hr = (set_role ?grp \<lparr>rl_state = Leader leader, rl_at = role_clock_start\<rparr>
        (h\<lparr>hsm_persistent := (hsm_persistent h)\<lparr>pst_realm := Some (r\<lparr>pr_groups :=
          fmupd ?grp \<lparr>pg_configuration = conf, pg_captured = None\<rparr> (pr_groups r)\<rparr>)\<rparr>, hsm_writer := w\<rparr>), resp)"
      using run
      by (auto simp: handle_new_group_def Let_def is_realm_member_def insert_group_def panic_simps hsm_mutate_Some not_le
          split: option.splits sum.splits if_splits)
    have "leader_inv (pf_mac P) ?keys (ng_realm req) ?grp leader"
      using leader_new_inv(1) [OF e(2)] entry_build_total [of "pf_mac P" ?keys ?b] e(1) by auto
    then show ?thesis
      unfolding hr using assms r conf by (intro add_group_ok) (auto simp: role_inv_def config_from_sorted_Inr)
  qed
qed

lemma handle_join_group_ok:
  assumes "hsm_inv P h"
  shows "wp (handle_join_group P h req) (step_ok P h)"
proof (rule wpI)
  fix hr
  assume run: "handle_join_group P h req = Some hr"
  let ?grp = "jg_group req"
  show "step_ok P h hr"
  proof (cases "fst hr = h")
    case True
    then show ?thesis
      using assms by (simp add: step_ok_def)
  next
    case False
    then obtain r conf s w role resp where r: "pst_realm (hsm_persistent h) = Some r" "map_len (pr_groups r) < groups_limit"
      and conf: "config_from_sorted_including_local (jg_configuration req) (pst_id (hsm_persistent h)) = Inr conf"
      and s: "or_insert_group ?grp \<lparr>pg_configuration = conf, pg_captured = None\<rparr> (hsm_persistent h) = Some s"
      and role: "role = (case fmlookup (volatile_groups h) ?grp of Some r \<Rightarrow> r | None \<Rightarrow> \<lparr>rl_state = Witness, rl_at = role_clock_start\<rparr>)"
      and hr: "hr = (set_role ?grp role (h\<lparr>hsm_persistent := s, hsm_writer := w\<rparr>), resp)"
      using run
      by (auto simp: handle_join_group_def Let_def is_realm_member_Inr panic_simps hsm_mutate_Some not_le
          split: sum.splits if_splits)
    show ?thesis
    proof (cases "fmlookup (pr_groups r) ?grp")
      case None
      then have "fmlookup (volatile_groups h) ?grp = None"
        using assms r by (metis (no_types, lifting) fmdom_notD fmdom_notI hsm_inv_def persistent_groups_def option.simps(5))
      then show ?thesis
        unfolding hr using assms r conf s None role
        by (intro add_group_ok) (auto simp: role_inv_def config_from_sorted_Inr or_insert_group_def)
    next
      case (Some g)
      then have "is_group_member (hsm_persistent h) (pr_id r) ?grp = Inr g"
        using r by (simp add: is_group_member_Inr)
      then obtain role0 where "fmlookup (volatile_groups h) ?grp = Some role0"
        using hsm_inv_role [OF assms] by blast
      moreover from this have "fmupd ?grp role0 (volatile_groups h) = volatile_groups h"
        by (intro fmap_ext) auto
      moreover have "s = hsm_persistent h"
        using s r Some by (simp add: or_insert_group_def)
      ultimately show ?thesis
        unfolding hr role using assms by (auto simp: step_ok_def set_role_def hsm_inv_def hsm_evolves_def)
    qed
  qed
qed

section \<open>Persisting captures keeps the invariant\<close>

lemma copy_captures_groups:
  "fmlookup (persistent_groups (copy_captures c s)) grp =
     map_option (\<lambda>g. case fmlookup c grp of None \<Rightarrow> g | Some x \<Rightarrow> g\<lparr>pg_captured := Some x\<rparr>)
       (fmlookup (persistent_groups s) grp)"
  by (simp add: copy_captures_def persistent_groups_def split: option.splits)

lemma copy_captures_dom: "fmdom (persistent_groups (copy_captures c s)) = fmdom (persistent_groups s)"
  by (auto simp: copy_captures_def persistent_groups_def split: option.splits)

lemma copy_captures_id [simp]: "pst_id (copy_captures c s) = pst_id s"
  by (simp add: copy_captures_def split: option.splits)

lemma copy_captures_realm:
  "map_option pr_id (pst_realm (copy_captures c s)) = map_option pr_id (pst_realm s)"
  by (simp add: copy_captures_def split: option.splits)

lemma copy_captures_inv: "persistent_inv A keys s \<Longrightarrow> persistent_inv A keys (copy_captures c s)"
  by (auto simp: persistent_inv_def copy_captures_def map_len_def fmpred_iff split: option.splits)

lemma persist_current_captures_ok:
  assumes "hsm_inv P h" "persist_current_captures P h = Some h'"
  shows "step_ok P h (h', x)" "volatile_groups h' = volatile_groups h" "volatile_captured h' = volatile_captured h"
    and "\<And>grp g. fmlookup (persistent_groups (hsm_persistent h')) grp = Some g \<Longrightarrow>
      pg_captured g = fmlookup (volatile_captured h) grp"
proof -
  have cap: "capture_le (pg_captured g) (fmlookup (volatile_captured h) grp)"
    if "fmlookup (persistent_groups (hsm_persistent h)) grp = Some g" for grp g
    using assms(1) that by (auto simp: hsm_inv_def)
  consider "volatile_captured h = fmempty" "h' = h"
    | w where "h' = h\<lparr>hsm_persistent := copy_captures (volatile_captured h) (hsm_persistent h), hsm_writer := w\<rparr>"
    using assms(2) by (auto simp: persist_current_captures_def hsm_mutate_Some split: if_splits)
  note cases = this
  show "volatile_groups h' = volatile_groups h" "volatile_captured h' = volatile_captured h"
    by (cases rule: cases; simp)+
  show "pg_captured g = fmlookup (volatile_captured h) grp"
    if lookup: "fmlookup (persistent_groups (hsm_persistent h')) grp = Some g" for grp g
  proof (cases rule: cases)
    case 1
    then show ?thesis
      using lookup cap [of grp g] by (simp add: capture_le_def split: option.splits)
  next
    case 2
    then obtain g0 where "fmlookup (persistent_groups (hsm_persistent h)) grp = Some g0"
      "g = (case fmlookup (volatile_captured h) grp of None \<Rightarrow> g0 | Some x \<Rightarrow> g0\<lparr>pg_captured := Some x\<rparr>)"
      using lookup by (auto simp: copy_captures_groups)
    then show ?thesis
      using cap [of grp g0] by (auto simp: capture_le_def split: option.splits)
  qed
  show "step_ok P h (h', x)"
  proof (cases rule: cases)
    case 1
    then show ?thesis
      using assms(1) by simp
  next
    case 2
    let ?s = "copy_captures (volatile_captured h) (hsm_persistent h)"
    have "persistent_evolves (hsm_persistent h) ?s"
      using copy_captures_realm [of "volatile_captured h" "hsm_persistent h"] cap
      by (auto simp: persistent_evolves_def copy_captures_groups group_evolves_def split: option.splits)
        fastforce+
    moreover have "role_inv (pf_mac P) (hsm_realm_keys h) (pr_id r) grp (rl_state role)"
      if "pst_realm ?s = Some r" "fmlookup (volatile_groups h) grp = Some role" for r grp role
      using assms(1) that copy_captures_realm [of "volatile_captured h" "hsm_persistent h"]
      by (cases "pst_realm (hsm_persistent h)") (auto simp: hsm_inv_def)
    moreover have "capture_le (pg_captured g) (fmlookup (volatile_captured h) grp)"
      if "fmlookup (persistent_groups ?s) grp = Some g" for grp g
      using that cap [of grp] by (auto simp: copy_captures_groups split: option.splits)
    ultimately show ?thesis
      using assms(1) by (auto simp: 2 step_ok_def hsm_inv_def hsm_evolves_def copy_captures_inv copy_captures_dom)
  qed
qed

lemma handle_persist_state_ok:
  assumes "hsm_inv P h"
  shows "wp (handle_persist_state P h) (step_ok P h)"
  unfolding handle_persist_state_def
  by (auto simp: wp_simps Let_def intro!: wpI intro: persist_current_captures_ok(1) [OF assms])

section \<open>Changing the role keeps the invariant\<close>

lemma role_transition_evolves:
  "role_switch (rl_state r) s \<Longrightarrow> role_evolves r (snd (role_transition r s))"
  by (auto simp: role_transition_def have_same_role_def role_evolves_def)

lemma step_ok_set_role:
  assumes "hsm_inv P h" "is_group_member (hsm_persistent h) realm grp = Inr g"
    and "fmlookup (volatile_groups h) grp = Some role" "role_evolves role role'"
    and "role_inv (pf_mac P) (hsm_realm_keys h) realm grp (rl_state role')"
  shows "step_ok P h (set_role grp role' h, x)"
  using assms hsm_inv_set_role [of P h grp role'] hsm_evolves_set_role [of h grp role role']
  by (auto simp: step_ok_def is_group_member_Inr fmlookup_dom_iff)

text \<open>Steps compose when the first one leaves the roles alone.\<close>

lemma step_ok_after:
  assumes "step_ok P h (h1, x)" "volatile_groups h1 = volatile_groups h" "volatile_captured h1 = volatile_captured h"
    and "step_ok P h1 hr" "hsm_persistent (fst hr) = hsm_persistent h1"
  shows "step_ok P h hr"
  using assms by (auto simp: step_ok_def hsm_evolves_def)

lemma handle_become_leader_cases:
  assumes "persist_current_captures P h = Some h1"
  shows "wp (handle_become_leader P h req) (\<lambda>(h', r). h' = h1 \<and> (\<forall>status. r \<noteq> BecomeLeaderOk status) \<or>
    (\<exists>g role leader. is_group_member (hsm_persistent h1) (bl_realm req) (bl_group req) = Inr g \<and>
       fmlookup (volatile_groups h1) (bl_group req) = Some role \<and> (\<forall>sd. rl_state role \<noteq> SteppingDown sd) \<and>
       pg_captured g = Some (le_index (bl_last_entry req), le_entry_mac (bl_last_entry req)) \<and>
       entry_authentic (pf_mac P) (hsm_realm_keys h1) (bl_realm req) (bl_group req) (bl_last_entry req) \<and>
       leader_new (bl_last_entry req) (hsm_options h1) = Some leader \<and>
       h' = set_role (bl_group req) (make_leader role leader) h1 \<and> r = BecomeLeaderOk (role_status (make_leader role leader))))"
  unfolding handle_become_leader_def assms
  by (auto simp: wp_simps Let_def entry_authentic_def intro!: wpI
      split: GroupMemberError.splits sum.splits RoleVolatileState.splits option.splits if_splits)

lemma handle_become_leader_ok:
  assumes "hsm_inv P h"
  shows "wp (handle_become_leader P h req) (step_ok P h)"
proof (cases "persist_current_captures P h")
  case (Some h1)
  note persisted = persist_current_captures_ok [OF assms Some]
  have inv1: "hsm_inv P h1"
    using persisted(1) [of "()"] by (simp add: step_ok_def)
  have granted: "step_ok P h (set_role (bl_group req) (make_leader role leader) h1, r)"
    if g: "is_group_member (hsm_persistent h1) (bl_realm req) (bl_group req) = Inr g"
      and role: "fmlookup (volatile_groups h1) (bl_group req) = Some role" "\<forall>sd. rl_state role \<noteq> SteppingDown sd"
      and auth: "entry_authentic (pf_mac P) (hsm_realm_keys h1) (bl_realm req) (bl_group req) (bl_last_entry req)"
      and leader: "leader_new (bl_last_entry req) (hsm_options h1) = Some leader" for g role leader r
  proof -
    have "role_inv (pf_mac P) (hsm_realm_keys h1) (bl_realm req) (bl_group req) (rl_state role)"
      using hsm_inv_role [OF inv1 g] role by auto
    then have "role_evolves role (make_leader role leader)"
      "role_inv (pf_mac P) (hsm_realm_keys h1) (bl_realm req) (bl_group req) (rl_state (make_leader role leader))"
      using role(2) leader_new_inv(1,2) [OF leader auth]
      by (auto simp: make_leader_def role_transition_def have_same_role_def role_evolves_def role_switch_def role_inv_def
          split: RoleVolatileState.splits)
    then have "step_ok P h1 (set_role (bl_group req) (make_leader role leader) h1, r)"
      by (rule step_ok_set_role [OF inv1 g role(1)])
    then show ?thesis
      by (rule step_ok_after [OF persisted(1-3)]) (simp add: set_role_def)
  qed
  show ?thesis
    using handle_become_leader_cases [OF Some, of req] by (rule wp_mono) (use persisted(1) in \<open>auto intro: granted\<close>)
qed (simp add: handle_become_leader_def)

lemma pop_after_Some:
  "ll_inv l \<Longrightarrow> pop_after l i ab = Some (l', ab') \<Longrightarrow>
   \<exists>pop. l = l' @ pop \<and> l' \<noteq> [] \<and> le_index (last (ll_entries l')) \<le> i \<and>
     (pop \<noteq> [] \<longrightarrow> i < le_index (hd (ll_entries pop))) \<and> ab' = ab @ rev (map le_entry_mac (ll_entries pop))"
proof (induction l i ab rule: pop_after.induct)
  case (1 l i ab)
  note l = ll_inv_not_Nil [OF 1(2)]
  show ?case
  proof (cases "le_index (last (ll_entries l)) > i")
    case True
    then obtain e l1 where pop: "ll_pop_last l = Some (e, l1)"
      and run: "pop_after l1 i (ab @ [le_entry_mac (lle_entry e)]) = Some (l', ab')"
      using 1(3) l by (subst (asm) pop_after.simps) (auto simp: ll_index_simps split: option.splits)
    obtain pop where "l1 = l' @ pop" "l' \<noteq> []" "le_index (last (ll_entries l')) \<le> i"
      "pop \<noteq> [] \<longrightarrow> i < le_index (hd (ll_entries pop))"
      "ab' = (ab @ [le_entry_mac (lle_entry e)]) @ rev (map le_entry_mac (ll_entries pop))"
      using 1(1) [OF _ _ pop refl ll_pop_last_inv [OF 1(2) pop] run] True l by (auto simp: ll_index_simps)
    then show ?thesis
      using pop True by (intro exI [of _ "pop @ [e]"]) (auto simp: ll_pop_last_Some hd_append)
  next
    case False
    then show ?thesis
      using 1(3) l by (subst (asm) pop_after.simps) (auto simp: ll_index_simps split: if_splits)
  qed
qed

lemma chain_cut:
  assumes "ll_inv (l' @ pop)" "l' \<noteq> []" "le_index (last (ll_entries l')) \<le> i" "pop \<noteq> [] \<longrightarrow> i < le_index (hd (ll_entries pop))"
    and "i \<le> le_index (last (ll_entries (l' @ pop)))"
  shows "le_index (last (ll_entries l')) = i"
proof (cases "pop = []")
  case False
  then have "unat (le_index (hd (ll_entries pop))) = Suc (unat (le_index (last (ll_entries l'))))"
    using assms(1,2) by (auto simp: ll_inv_def entries_chain_append intro: follows_index)
  then show ?thesis
    using assms(3,4) False by (simp add: word_less_nat_alt word_le_nat_alt word_unat_eq_iff)
qed (use assms in auto)

lemma log_prefix_inv:
  assumes "ll_inv (l' @ pop)" "l' \<noteq> []"
  shows "ll_inv l'" "log_authentic A keys realm grp (l' @ pop) \<Longrightarrow> log_authentic A keys realm grp l'"
    and "committed_inv c (l' @ pop) \<Longrightarrow> committed_inv c l'" "started_before start (l' @ pop) \<Longrightarrow> started_before start l'"
  using assms by (auto simp: ll_inv_def entries_chain_append log_authentic_def committed_inv_def started_before_def ll_index_simps)

lemma stepping_down_start:
  assumes "leader_inv A keys realm grp leader" "pop_after (ld_log leader) i [] = Some (log, abandoned)"
    and "i \<le> le_index (last (ll_entries (ld_log leader)))"
  shows "stepping_down_inv A keys realm grp \<lparr>sdn_log = log, sdn_committed = ld_committed leader, sdn_abandoned = abandoned,
    sdn_stepdown_at = i, sdn_leader_starting_index = ld_starting_index leader\<rparr>"
proof -
  have inv: "ll_inv (ld_log leader)"
    using assms(1) by (simp add: leader_inv_def)
  from pop_after_Some [OF inv assms(2)] obtain pop where pop: "ld_log leader = log @ pop" "log \<noteq> []"
    "le_index (last (ll_entries log)) \<le> i" "pop \<noteq> [] \<longrightarrow> i < le_index (hd (ll_entries pop))"
    by blast
  then have "le_index (last (ll_entries log)) = i"
    using chain_cut [of log pop i] inv assms(3) by simp
  moreover have "ll_inv log"
    using log_prefix_inv(1) [of log pop] inv pop by simp
  moreover from this have "le_index (hd (ll_entries log)) \<le> le_index (last (ll_entries log))"
    using pop(2) by (auto simp: ll_inv_def intro!: entries_chain_le_last(1))
  ultimately show ?thesis
    using assms(1) inv pop(1,2) log_prefix_inv [of log pop] by (auto simp: leader_inv_def stepping_down_inv_def)
qed

lemma stepdown_at_cases:
  assumes "stepdown_at grp stepdown h = Some (h', r)" "fmlookup (volatile_groups h) grp = Some role"
    and "role_inv A keys realm grp (rl_state role)"
    and "\<And>leader i. rl_state role = Leader leader \<Longrightarrow> stepdown = StepDownLogIndex i \<Longrightarrow>
      i \<le> le_index (last (ll_entries (ld_log leader)))"
  shows "(\<forall>leader. rl_state role \<noteq> Leader leader) \<and> h' = h \<or>
    (\<exists>leader role'. rl_state role = Leader leader \<and> h' = set_role grp role' h \<and> rl_at role' = role_clock_next (rl_at role) \<and>
       role_switch (Leader leader) (rl_state role') \<and> role_inv A keys realm grp (rl_state role'))"
proof (cases "rl_state role")
  case (Leader leader)
  then have inv: "leader_inv A keys realm grp leader" and log: "ld_log leader \<noteq> []"
    using assms(3) by (auto simp: role_inv_def leader_inv_def ll_inv_def)
  define i where "i = (case stepdown of StepDownLastLogIndex \<Rightarrow> le_index (last (ll_entries (ld_log leader))) | StepDownLogIndex i \<Rightarrow> i)"
  have i: "i \<le> le_index (last (ll_entries (ld_log leader)))"
    using assms(4) [OF Leader] by (auto simp: i_def split: StepDownPoint.splits)
  show ?thesis
    using assms(1,2) Leader log stepping_down_start [OF inv _ i]
    by (auto simp: stepdown_at_def Let_def ll_index_simps i_def [symmetric] panic_simps make_witness_def
        make_stepping_down_def role_transition_def have_same_role_def role_switch_def role_inv_def split: if_splits)
qed (use assms in \<open>auto simp: stepdown_at_def\<close>)

lemma stepdown_at_ok:
  assumes "hsm_inv P h" "is_group_member (hsm_persistent h) realm grp = Inr g" "stepdown_at grp stepdown h = Some (h', r)"
    and "stepdown = StepDownLastLogIndex"
  shows "step_ok P h (h', r)"
proof -
  obtain role where role: "fmlookup (volatile_groups h) grp = Some role"
    "role_inv (pf_mac P) (hsm_realm_keys h) realm grp (rl_state role)"
    using hsm_inv_role [OF assms(1,2)] by blast
  from stepdown_at_cases [OF assms(3) role] show ?thesis
    using assms step_ok_set_role [OF assms(1,2) role(1), of _ r] by (auto simp: role_evolves_def)
qed

lemma handle_stepdown_as_leader_ok:
  assumes "hsm_inv P h"
  shows "wp (handle_stepdown_as_leader h req) (step_ok P h)"
proof (rule wpI)
  fix hr
  assume run: "handle_stepdown_as_leader h req = Some hr"
  show "step_ok P h hr"
  proof (cases "is_group_member (hsm_persistent h) (sdq_realm req) (sdq_group req)")
    case (Inl e)
    then show ?thesis
      using run assms by (cases e) (auto simp: handle_stepdown_as_leader_def)
  next
    case (Inr g)
    obtain role where role: "fmlookup (volatile_groups h) (sdq_group req) = Some role"
      "role_inv (pf_mac P) (hsm_realm_keys h) (sdq_realm req) (sdq_group req) (rl_state role)"
      using hsm_inv_role [OF assms Inr] by blast
    note set_ok = step_ok_set_role [OF assms Inr role(1)]
    show ?thesis
    proof (cases "sdq_force req")
      case True
      have "fst hr = set_role (sdq_group req) (snd (make_witness role)) h"
        using run Inr role True
        by (auto simp: handle_stepdown_as_leader_def Let_def panic_simps split: prod.splits option.splits RoleVolatileState.splits)
      moreover have "role_evolves role (snd (make_witness role))"
        "role_inv (pf_mac P) (hsm_realm_keys h) (sdq_realm req) (sdq_group req) (rl_state (snd (make_witness role)))"
        using role(2) by (cases "rl_state role";
            simp add: make_witness_def role_transition_def have_same_role_def role_evolves_def role_switch_def role_inv_def)+
      ultimately show ?thesis
        using set_ok by (cases hr) auto
    next
      case False
      then have "stepdown_at (sdq_group req) StepDownLastLogIndex h = Some (fst hr, snd hr)"
        using run Inr by (simp add: handle_stepdown_as_leader_def)
      then show ?thesis
        using stepdown_at_ok [OF assms Inr] by (cases hr) simp
    qed
  qed
qed

end
