(* ===== verification/HsmTransfer.thy ===== *)
theory HsmTransfer
  imports HsmRealm MerkleSplit MerkleMerge
begin

text \<open>
  Moving ownership of a range of records between two groups
  (\<open>src/hsm_core/src/hsm/transfer.rs\<close>): the destination prepares, the source transfers out and,
  once that has committed, gives a statement, the destination transfers in, and the source
  completes.  Every handler takes the leader of one group, mutates it in place and appends at most
  one log entry.
\<close>

definition create_random_transfer_nonce :: "bytes \<Rightarrow> TransferNonce" where
  "create_random_transfer_nonce rnd = TransferNonce rnd"

section \<open>Preparing\<close>

record PrepareTransferRequest =
  ptq_realm :: RealmId
  ptq_source :: GroupId
  ptq_destination :: GroupId
  ptq_range :: OwnedRange

record PreparedTransfer =
  ptr_nonce :: TransferNonce
  ptr_entry :: "LogEntry option"
  ptr_wait_til_committed :: LogIndex
  ptr_clock :: RoleLogicalClock
  ptr_statement :: PreparedTransferStatement

datatype PrepareTransferResponse =
    PrepareOk PreparedTransfer
  | PrepareInvalidRealm
  | PrepareInvalidGroup
  | PrepareNotLeader
  | PrepareUnacceptableRange
  | PrepareOtherTransferPending

text \<open>Appending the entry a leader builds on top of its last one.\<close>

definition append_built ::
  "Platform \<Rightarrow> RealmKeys \<Rightarrow> HsmId \<Rightarrow> RealmId \<Rightarrow> GroupId \<Rightarrow> LogEntry \<Rightarrow> Partition option \<Rightarrow> Transferring option \<Rightarrow>
   'o LeaderVolatileGroupState \<Rightarrow> ('o LeaderVolatileGroupState \<times> LogEntry) option" where
  "append_built P keys hsm realm grp last_entry part transferring leader = do {
     index \<leftarrow> log_index_next (le_index last_entry);
     entry \<leftarrow> entry_build (pf_mac P) keys
       \<lparr>eb_hsm = hsm, eb_realm = realm, eb_group = grp, eb_index = index, eb_partition = part,
        eb_transferring = transferring, eb_prev_mac = le_entry_mac last_entry\<rparr>;
     log' \<leftarrow> ll_append (ld_log leader) entry None;
     Some (leader\<lparr>ld_log := log'\<rparr>, entry)
   }"

definition role_clock :: "'o Hsm \<Rightarrow> GroupId \<Rightarrow> RoleLogicalClock option" where
  "role_clock h grp = map_option rl_at (fmlookup (volatile_groups h) grp)"

definition handle_prepare_transfer ::
  "Platform \<Rightarrow> bytes \<Rightarrow> 'o Hsm \<Rightarrow> PrepareTransferRequest \<Rightarrow> ('o Hsm \<times> PrepareTransferResponse) option" where
  "handle_prepare_transfer P rnd h req =
     (if ptq_destination req = ptq_source req then Some (h, PrepareInvalidGroup)
      else if \<not> range_is_valid (ptq_range req) then Some (h, PrepareUnacceptableRange)
      else case is_group_leader (hsm_persistent h) (volatile_groups h) (ptq_realm req) (ptq_destination req) of
        Inl GlInvalidRealm \<Rightarrow> Some (h, PrepareInvalidRealm)
      | Inl GlInvalidGroup \<Rightarrow> Some (h, PrepareInvalidGroup)
      | Inl (GlNotLeader _) \<Rightarrow> Some (h, PrepareNotLeader)
      | Inr leader \<Rightarrow> do {
          e \<leftarrow> ll_last (ld_log leader);
          let last_entry = lle_entry e;
          prepared \<leftarrow> (case le_transferring last_entry of
              None \<Rightarrow> do {
                acceptable \<leftarrow> (case le_partition last_entry of
                    None \<Rightarrow> Some True
                  | Some part \<Rightarrow> do { j \<leftarrow> range_join (pt_range part) (ptq_range req); Some (j \<noteq> None) });
                if \<not> acceptable then Some (Inl PrepareUnacceptableRange)
                else do {
                  index \<leftarrow> log_index_next (le_index last_entry);
                  (leader', entry) \<leftarrow> append_built P (hsm_realm_keys h) (pst_id (hsm_persistent h)) (ptq_realm req)
                    (ptq_destination req) last_entry (le_partition last_entry)
                    (Some (TransIn \<lparr>tin_source = ptq_source req, tin_range = ptq_range req, tin_at = index\<rparr>)) leader;
                  Some (Inr (leader', Some entry, index))
                }
              }
            | Some (TransOut _) \<Rightarrow> Some (Inl PrepareOtherTransferPending)
            | Some (TransIn t) \<Rightarrow>
                if tin_source t = ptq_source req \<and> tin_range t = ptq_range req
                then Some (Inr (leader, None, tin_at t))
                else Some (Inl PrepareOtherTransferPending));
          case prepared of
            Inl r \<Rightarrow> Some (h, r)
          | Inr (leader', entry, wait_til_committed) \<Rightarrow> do {
              let nonce = create_random_transfer_nonce rnd;
              let h' = set_leader (ptq_destination req) (leader'\<lparr>ld_incoming := Some nonce\<rparr>) h;
              clock \<leftarrow> role_clock h' (ptq_destination req);
              Some (h', PrepareOk \<lparr>ptr_nonce = nonce, ptr_entry = entry, ptr_wait_til_committed = wait_til_committed,
                ptr_clock = clock,
                ptr_statement = prepared_transfer_mac (pf_mac P) (hsm_realm_keys h) (ptq_realm req) (ptq_source req)
                  (ptq_destination req) (ptq_range req) nonce\<rparr>)
            }
        })"

section \<open>Transferring out\<close>

record TransferOutRequest =
  toq_realm :: RealmId
  toq_source :: GroupId
  toq_destination :: GroupId
  toq_range :: OwnedRange
  toq_nonce :: TransferNonce
  toq_statement :: PreparedTransferStatement
  toq_proof :: "DataHash ReadProof option"

datatype TransferOutResponse =
    TransferOutOk (tor_entry: "LogEntry option") (tor_delta: "DataHash StoreDelta") (tor_partition: Partition)
      (tor_wait: LogIndex) (tor_clock: RoleLogicalClock)
  | TransferOutInvalidRealm
  | TransferOutInvalidGroup
  | TransferOutNotLeader
  | TransferOutNotOwner
  | TransferOutStaleProof
  | TransferOutInvalidProof
  | TransferOutMissingProof
  | TransferOutOtherTransferPending
  | TransferOutInvalidStatement

text \<open>
  What the leader keeps and what it gives away.  On an error of the split the tree has already been
  taken out of the leader.
\<close>

definition transfer_out_split ::
  "Platform \<Rightarrow> TransferOutRequest \<Rightarrow> Partition \<Rightarrow> 'o LeaderVolatileGroupState \<Rightarrow>
   ('o LeaderVolatileGroupState \<times>
    (TransferOutResponse + Partition option \<times> Partition \<times> DataHash StoreDelta)) option" where
  "transfer_out_split P req owned_partition leader =
     (if toq_range req = pt_range owned_partition
      then Some (leader, Inr (None, owned_partition, delta_default))
      else case toq_proof req of
        None \<Rightarrow> Some (leader, Inl TransferOutMissingProof)
      | Some request_proof \<Rightarrow> do {
          at \<leftarrow> range_split_at (pt_range owned_partition) (toq_range req);
          case at of
            None \<Rightarrow> Some (leader, Inl TransferOutNotOwner)
          | Some key \<Rightarrow>
              if key \<noteq> rp_key request_proof then Some (leader, Inl TransferOutMissingProof)
              else do {
                tree \<leftarrow> ld_tree leader;
                let leader' = leader\<lparr>ld_tree := None\<rparr>;
                r \<leftarrow> range_split (pf_hasher P) tree request_proof;
                case r of
                  Inl Stale \<Rightarrow> Some (leader', Inl TransferOutStaleProof)
                | Inl Invalid \<Rightarrow> Some (leader', Inl TransferOutInvalidProof)
                | Inr split \<Rightarrow> do {
                    (keeping, transferring) \<leftarrow>
                      (if sr_range (split_left split) = toq_range req then Some (split_right split, split_left split)
                       else if sr_range (split_right split) = toq_range req then Some (split_left split, split_right split)
                       else None);
                    Some (leader', Inr
                      (Some \<lparr>pt_range = sr_range keeping, pt_root_hash = sr_root_hash keeping\<rparr>,
                       \<lparr>pt_range = sr_range transferring, pt_root_hash = sr_root_hash transferring\<rparr>, split_delta split))
                  }
              }
        })"

definition handle_transfer_out ::
  "Platform \<Rightarrow> 'o Hsm \<Rightarrow> TransferOutRequest \<Rightarrow> ('o Hsm \<times> TransferOutResponse) option" where
  "handle_transfer_out P h req =
     (if toq_source req = toq_destination req then Some (h, TransferOutInvalidGroup)
      else if \<not> range_is_valid (toq_range req) then Some (h, TransferOutNotOwner)
      else case is_group_leader (hsm_persistent h) (volatile_groups h) (toq_realm req) (toq_source req) of
        Inl GlInvalidRealm \<Rightarrow> Some (h, TransferOutInvalidRealm)
      | Inl GlInvalidGroup \<Rightarrow> Some (h, TransferOutInvalidGroup)
      | Inl (GlNotLeader _) \<Rightarrow> Some (h, TransferOutNotLeader)
      | Inr leader \<Rightarrow> do {
          e \<leftarrow> ll_last (ld_log leader);
          let last_entry = lle_entry e;
          if prepared_transfer_mac (pf_mac P) (hsm_realm_keys h) (toq_realm req) (toq_source req) (toq_destination req)
               (toq_range req) (toq_nonce req) \<noteq> toq_statement req
          then Some (h, TransferOutInvalidStatement)
          else case le_transferring last_entry of
            Some (TransIn _) \<Rightarrow> Some (h, TransferOutOtherTransferPending)
          | Some (TransOut t) \<Rightarrow>
              if tout_destination t = toq_destination req \<and> pt_range (tout_partition t) = toq_range req
              then do {
                clock \<leftarrow> role_clock h (toq_source req);
                Some (h, TransferOutOk None delta_default (tout_partition t) (tout_at t) clock)
              }
              else Some (h, TransferOutOtherTransferPending)
          | None \<Rightarrow> (case le_partition last_entry of
              None \<Rightarrow> Some (h, TransferOutNotOwner)
            | Some owned_partition \<Rightarrow> do {
                (leader1, outcome) \<leftarrow> transfer_out_split P req owned_partition leader;
                case outcome of
                  Inl r \<Rightarrow> Some (set_leader (toq_source req) leader1 h, r)
                | Inr (keeping_partition, transferring_partition, delta) \<Rightarrow> do {
                    let leader2 = leader1\<lparr>ld_tree := map_option (\<lambda>p.
                      with_existing_root (pt_root_hash p) (unat (tree_overlay_size (hsm_options h)))) keeping_partition\<rparr>;
                    index \<leftarrow> log_index_next (le_index last_entry);
                    (leader3, entry) \<leftarrow> append_built P (hsm_realm_keys h) (pst_id (hsm_persistent h)) (toq_realm req)
                      (toq_source req) last_entry keeping_partition
                      (Some (TransOut \<lparr>tout_destination = toq_destination req, tout_partition = transferring_partition,
                        tout_at = index\<rparr>)) leader2;
                    let h' = set_leader (toq_source req) leader3 h;
                    clock \<leftarrow> role_clock h' (toq_source req);
                    Some (h', TransferOutOk (Some entry) delta transferring_partition (le_index entry) clock)
                  }
              })
        })"

section \<open>The transfer statement\<close>

record TransferStatementRequest =
  tsq_realm :: RealmId
  tsq_source :: GroupId
  tsq_destination :: GroupId
  tsq_nonce :: TransferNonce

datatype TransferStatementResponse =
    TransferStatementOk TransferStatement
  | TransferStatementInvalidRealm
  | TransferStatementInvalidGroup
  | TransferStatementNotLeader
  | TransferStatementNotTransferring
  | TransferStatementBusy

definition handle_transfer_statement ::
  "Platform \<Rightarrow> 'o Hsm \<Rightarrow> TransferStatementRequest \<Rightarrow> ('o Hsm \<times> TransferStatementResponse) option" where
  "handle_transfer_statement P h req =
     (if tsq_source req = tsq_destination req then Some (h, TransferStatementInvalidGroup)
      else case is_group_leader (hsm_persistent h) (volatile_groups h) (tsq_realm req) (tsq_source req) of
        Inl GlInvalidRealm \<Rightarrow> Some (h, TransferStatementInvalidRealm)
      | Inl GlInvalidGroup \<Rightarrow> Some (h, TransferStatementInvalidGroup)
      | Inl (GlNotLeader _) \<Rightarrow> Some (h, TransferStatementNotLeader)
      | Inr leader \<Rightarrow> do {
          e \<leftarrow> ll_last (ld_log leader);
          case le_transferring (lle_entry e) of
            Some (TransOut t) \<Rightarrow>
              if tout_destination t \<noteq> tsq_destination req then Some (h, TransferStatementNotTransferring)
              else if \<not> (case ld_committed leader of Some c \<Rightarrow> c \<ge> tout_at t | None \<Rightarrow> False)
              then Some (h, TransferStatementBusy)
              else Some (h, TransferStatementOk (transfer_mac (pf_mac P) (hsm_realm_keys h) (tsq_realm req)
                (tout_partition t) (tout_destination t) (tsq_nonce req)))
          | _ \<Rightarrow> Some (h, TransferStatementNotTransferring)
        })"

section \<open>Transferring in\<close>

record TransferInProofs =
  tip_owned :: "DataHash ReadProof"
  tip_transferring :: "DataHash ReadProof"

record TransferInRequest =
  tiq_realm :: RealmId
  tiq_source :: GroupId
  tiq_destination :: GroupId
  tiq_transferring :: Partition
  tiq_proofs :: "TransferInProofs option"
  tiq_nonce :: TransferNonce
  tiq_statement :: TransferStatement

datatype TransferInResponse =
    TransferInOk LogEntry "DataHash StoreDelta" RoleLogicalClock
  | TransferInInvalidRealm
  | TransferInInvalidGroup
  | TransferInNotLeader
  | TransferInInvalidNonce
  | TransferInInvalidStatement
  | TransferInStaleProof
  | TransferInInvalidProof
  | TransferInMissingProofs
  | TransferInNotPrepared

definition transfer_in_needs_merge ::
  "TransferInRequest \<Rightarrow> Partition option \<Rightarrow> (TransferInResponse + bool) option" where
  "transfer_in_needs_merge req owned = (case owned of
      None \<Rightarrow> Some (Inr False)
    | Some part \<Rightarrow> do {
        j \<leftarrow> range_join (pt_range part) (pt_range (tiq_transferring req));
        rust_assert (j \<noteq> None);
        case tiq_proofs req of
          Some proofs \<Rightarrow>
            if pt_range (tiq_transferring req) \<noteq> rp_range (tip_transferring proofs) \<or>
               pt_root_hash (tiq_transferring req) \<noteq> rp_root_hash (tip_transferring proofs)
            then Some (Inl TransferInInvalidProof)
            else Some (Inr True)
        | None \<Rightarrow> Some (Inl TransferInMissingProofs)
      })"

definition transfer_in_merge ::
  "Platform \<Rightarrow> TransferInRequest \<Rightarrow> bool \<Rightarrow> 'o LeaderVolatileGroupState \<Rightarrow>
   ('o LeaderVolatileGroupState \<times> (TransferInResponse + Partition \<times> DataHash StoreDelta)) option" where
  "transfer_in_merge P req needs_merge leader =
     (if needs_merge then do {
        tree \<leftarrow> ld_tree leader;
        proofs \<leftarrow> tiq_proofs req;
        let leader' = leader\<lparr>ld_tree := None\<rparr>;
        r \<leftarrow> merge (pf_hasher P) tree (tip_owned proofs) (tip_transferring proofs);
        case r of
          Inl NotAdjacentRanges \<Rightarrow> None
        | Inl (MergeProof Stale) \<Rightarrow> Some (leader', Inl TransferInStaleProof)
        | Inl (MergeProof Invalid) \<Rightarrow> Some (leader', Inl TransferInInvalidProof)
        | Inr m \<Rightarrow> Some (leader', Inr (\<lparr>pt_range = mr_range m, pt_root_hash = mr_root_hash m\<rparr>, mr_delta m))
      }
      else Some (leader, Inr (tiq_transferring req, delta_default)))"

definition handle_transfer_in ::
  "Platform \<Rightarrow> 'o Hsm \<Rightarrow> TransferInRequest \<Rightarrow> ('o Hsm \<times> TransferInResponse) option" where
  "handle_transfer_in P h req =
     (case is_group_leader (hsm_persistent h) (volatile_groups h) (tiq_realm req) (tiq_destination req) of
        Inl GlInvalidRealm \<Rightarrow> Some (h, TransferInInvalidRealm)
      | Inl GlInvalidGroup \<Rightarrow> Some (h, TransferInInvalidGroup)
      | Inl (GlNotLeader _) \<Rightarrow> Some (h, TransferInNotLeader)
      | Inr leader \<Rightarrow> do {
          e \<leftarrow> ll_last (ld_log leader);
          let last_entry = lle_entry e;
          let prepared = (case le_transferring last_entry of
              Some (TransIn t) \<Rightarrow> tin_range t = pt_range (tiq_transferring req) \<and> tin_source t = tiq_source req
            | _ \<Rightarrow> False);
          if \<not> prepared then Some (h, TransferInNotPrepared)
          else if ld_incoming leader \<noteq> Some (tiq_nonce req) then Some (h, TransferInInvalidNonce)
          else do {
            let leader1 = leader\<lparr>ld_incoming := None\<rparr>;
            needs \<leftarrow> transfer_in_needs_merge req (le_partition last_entry);
            case needs of
              Inl r \<Rightarrow> Some (set_leader (tiq_destination req) leader1 h, r)
            | Inr needs_merge \<Rightarrow>
                if transfer_mac (pf_mac P) (hsm_realm_keys h) (tiq_realm req) (tiq_transferring req)
                     (tiq_destination req) (tiq_nonce req) \<noteq> tiq_statement req
                then Some (set_leader (tiq_destination req) leader1 h, TransferInInvalidStatement)
                else do {
                  (leader2, merged) \<leftarrow> transfer_in_merge P req needs_merge leader1;
                  case merged of
                    Inl r \<Rightarrow> Some (set_leader (tiq_destination req) leader2 h, r)
                  | Inr (part, delta) \<Rightarrow> do {
                      (leader3, entry) \<leftarrow> append_built P (hsm_realm_keys h) (pst_id (hsm_persistent h)) (tiq_realm req)
                        (tiq_destination req) last_entry (Some part) None leader2;
                      let leader4 = leader3\<lparr>ld_tree := Some (with_existing_root (pt_root_hash part)
                        (unat (tree_overlay_size (hsm_options h))))\<rparr>;
                      let h' = set_leader (tiq_destination req) leader4 h;
                      clock \<leftarrow> role_clock h' (tiq_destination req);
                      Some (h', TransferInOk entry delta clock)
                    }
                }
          }
        })"

section \<open>Completing and cancelling\<close>

record CompleteTransferRequest =
  ctq_realm :: RealmId
  ctq_source :: GroupId
  ctq_destination :: GroupId
  ctq_range :: OwnedRange

datatype CompleteTransferResponse =
    CompleteOk LogEntry RoleLogicalClock
  | CompleteNotTransferring
  | CompleteInvalidRealm
  | CompleteInvalidGroup
  | CompleteNotLeader

definition handle_complete_transfer ::
  "Platform \<Rightarrow> 'o Hsm \<Rightarrow> CompleteTransferRequest \<Rightarrow> ('o Hsm \<times> CompleteTransferResponse) option" where
  "handle_complete_transfer P h req =
     (if ctq_source req = ctq_destination req then Some (h, CompleteInvalidGroup)
      else case is_group_leader (hsm_persistent h) (volatile_groups h) (ctq_realm req) (ctq_source req) of
        Inl GlInvalidRealm \<Rightarrow> Some (h, CompleteInvalidRealm)
      | Inl GlInvalidGroup \<Rightarrow> Some (h, CompleteInvalidGroup)
      | Inl (GlNotLeader _) \<Rightarrow> Some (h, CompleteNotLeader)
      | Inr leader \<Rightarrow> do {
          e \<leftarrow> ll_last (ld_log leader);
          let last_entry = lle_entry e;
          if \<not> (case le_transferring last_entry of
                  Some (TransOut t) \<Rightarrow> tout_destination t = ctq_destination req \<and> pt_range (tout_partition t) = ctq_range req
                | _ \<Rightarrow> False)
          then Some (h, CompleteNotTransferring)
          else do {
            (leader', entry) \<leftarrow> append_built P (hsm_realm_keys h) (pst_id (hsm_persistent h)) (ctq_realm req)
              (ctq_source req) last_entry (le_partition last_entry) None leader;
            let h' = set_leader (ctq_source req) leader' h;
            clock \<leftarrow> role_clock h' (ctq_source req);
            Some (h', CompleteOk entry clock)
          }
        })"

record CancelPreparedTransferRequest =
  cpq_realm :: RealmId
  cpq_source :: GroupId
  cpq_destination :: GroupId
  cpq_range :: OwnedRange

datatype CancelPreparedTransferResponse =
    CancelOk LogEntry RoleLogicalClock
  | CancelInvalidRealm
  | CancelInvalidGroup
  | CancelNotLeader
  | CancelNotPrepared

definition handle_cancel_prepared_transfer ::
  "Platform \<Rightarrow> 'o Hsm \<Rightarrow> CancelPreparedTransferRequest \<Rightarrow> ('o Hsm \<times> CancelPreparedTransferResponse) option" where
  "handle_cancel_prepared_transfer P h req =
     (case is_group_leader (hsm_persistent h) (volatile_groups h) (cpq_realm req) (cpq_destination req) of
        Inl GlInvalidRealm \<Rightarrow> Some (h, CancelInvalidRealm)
      | Inl GlInvalidGroup \<Rightarrow> Some (h, CancelInvalidGroup)
      | Inl (GlNotLeader _) \<Rightarrow> Some (h, CancelNotLeader)
      | Inr leader \<Rightarrow> do {
          e \<leftarrow> ll_last (ld_log leader);
          let last_entry = lle_entry e;
          if \<not> (case le_transferring last_entry of
                  Some (TransIn t) \<Rightarrow> \<not> (tin_range t \<noteq> cpq_range req \<or> tin_source t \<noteq> cpq_source req)
                | _ \<Rightarrow> False)
          then Some (h, CancelNotPrepared)
          else do {
            (leader', entry) \<leftarrow> append_built P (hsm_realm_keys h) (pst_id (hsm_persistent h)) (cpq_realm req)
              (cpq_destination req) last_entry (le_partition last_entry) None leader;
            let h' = set_leader (cpq_destination req) (leader'\<lparr>ld_incoming := None\<rparr>) h;
            clock \<leftarrow> role_clock h' (cpq_destination req);
            Some (h', CancelOk entry clock)
          }
        })"

section \<open>Transfers keep the invariant\<close>

lemma tree_inv_partition: "le_partition e = le_partition e' \<Longrightarrow> tree_inv t e = tree_inv t e'"
  by (cases t) (simp_all add: tree_inv_def)

lemma tree_inv_existing [simp]:
  "tree_inv (map_option (\<lambda>p. with_existing_root (pt_root_hash p) n) part) e \<longleftrightarrow>
     part = None \<or> (\<exists>p. le_partition e = Some p \<and> pt_root_hash p = pt_root_hash (the part))"
  "tree_inv (Some (with_existing_root r n)) e \<longleftrightarrow> (\<exists>p. le_partition e = Some p \<and> pt_root_hash p = r)"
  "tree_inv None e"
  by (auto simp: tree_inv_def with_existing_root_def overlay_new_def split: option.splits)

lemma append_builtE:
  assumes "append_built P keys hsm realm grp last_entry part transferring leader = Some (leader', entry)"
  obtains b log' where "entry_build (pf_mac P) keys b = Some entry" "eb_realm b = realm" "eb_group b = grp"
    "eb_partition b = part" "ll_append (ld_log leader) entry None = Some log'" "leader' = leader\<lparr>ld_log := log'\<rparr>"
proof -
  obtain index log' where run: "entry_build (pf_mac P) keys \<lparr>eb_hsm = hsm, eb_realm = realm, eb_group = grp, eb_index = index,
      eb_partition = part, eb_transferring = transferring, eb_prev_mac = le_entry_mac last_entry\<rparr> = Some entry"
    "ll_append (ld_log leader) entry None = Some log'" "leader' = leader\<lparr>ld_log := log'\<rparr>"
    using assms by (auto simp: append_built_def panic_simps)
  show thesis
    by (rule that [OF run(1) _ _ _ run(2,3)]) simp_all
qed

lemma append_built_fields:
  assumes "append_built P keys hsm realm grp last_entry part transferring leader = Some (leader', entry)"
  shows "ld_committed leader' = ld_committed leader" "ld_starting_index leader' = ld_starting_index leader"
    and "ld_tree leader' = ld_tree leader" "le_partition entry = part" "ld_incoming leader' = ld_incoming leader"
proof -
  from assms obtain b log' where b: "entry_build (pf_mac P) keys b = Some entry" "eb_partition b = part"
    "leader' = leader\<lparr>ld_log := log'\<rparr>"
    by (rule append_builtE)
  then show "ld_committed leader' = ld_committed leader" "ld_starting_index leader' = ld_starting_index leader"
    "ld_tree leader' = ld_tree leader" "le_partition entry = part" "ld_incoming leader' = ld_incoming leader"
    using entry_build_total [of "pf_mac P" keys b] by auto
qed

lemma append_built_inv:
  assumes "append_built P keys hsm realm grp last_entry part transferring leader = Some (leader', entry)"
    and "leader_inv (pf_mac P) keys realm grp leader0" "ld_log leader = ld_log leader0"
    and "ld_committed leader = ld_committed leader0" "ld_starting_index leader = ld_starting_index leader0"
    and "tree_inv t entry"
  shows "leader_inv (pf_mac P) keys realm grp (leader'\<lparr>ld_tree := t\<rparr>)"
proof -
  from assms(1) obtain b log' where b: "entry_build (pf_mac P) keys b = Some entry" "eb_realm b = realm" "eb_group b = grp"
    "ll_append (ld_log leader) entry None = Some log'" "leader' = leader\<lparr>ld_log := log'\<rparr>"
    by (rule append_builtE)
  have "entry_authentic (pf_mac P) keys realm grp entry"
    using entry_build_total [of "pf_mac P" keys b] b(1-3) by auto
  then show ?thesis
    by (intro leader_append [OF assms(2), of entry None log']) (simp_all add: assms(4-6) b(4,5) assms(3) [symmetric])
qed

text \<open>An entry on top of the last one that keeps the partition keeps the tree in step with it.\<close>

lemma append_same_partition:
  assumes "leader_inv (pf_mac P) keys realm grp leader" "ll_last (ld_log leader) = Some e"
    and "append_built P keys hsm realm grp last_entry (le_partition (lle_entry e)) transferring leader = Some (leader', entry)"
  shows "leader_inv (pf_mac P) keys realm grp leader'"
proof -
  have "ld_log leader \<noteq> []" "e = last (ld_log leader)"
    using assms(2) by (auto simp: ll_last_def split: if_splits list.splits)
  then have "tree_inv (ld_tree leader) (lle_entry e)"
    using assms(1) by (simp add: leader_inv_def ll_entries_hd_last)
  then have "tree_inv (ld_tree leader') entry"
    using append_built_fields(3,4) [OF assms(3)] tree_inv_partition [of entry "lle_entry e"] by simp
  from append_built_inv [OF assms(3,1) _ _ _ this] show ?thesis
    by simp
qed

lemma handle_complete_transfer_ok:
  assumes "hsm_inv P h"
  shows "wp (handle_complete_transfer P h req) (step_ok P h)"
  unfolding handle_complete_transfer_def
  by (auto simp: wp_simps Let_def assms append_same_partition append_built_fields intro!: wpI leader_step [OF assms]
      split: GroupLeaderError.splits sum.splits)

lemma handle_cancel_prepared_transfer_ok:
  assumes "hsm_inv P h"
  shows "wp (handle_cancel_prepared_transfer P h req) (step_ok P h)"
  unfolding handle_cancel_prepared_transfer_def
  by (auto simp: wp_simps Let_def assms append_same_partition append_built_fields intro!: wpI leader_step [OF assms]
      split: GroupLeaderError.splits sum.splits)

lemma handle_transfer_statement_ok:
  assumes "hsm_inv P h"
  shows "wp (handle_transfer_statement P h req) (step_ok P h)"
  unfolding handle_transfer_statement_def
  by (auto simp: wp_simps Let_def assms intro!: wpI
      split: GroupLeaderError.splits sum.splits option.splits Transferring.splits)

lemma handle_prepare_transfer_ok:
  assumes "hsm_inv P h"
  shows "wp (handle_prepare_transfer P rnd h req) (step_ok P h)"
  unfolding handle_prepare_transfer_def
  by (auto simp: wp_simps Let_def assms append_same_partition append_built_fields intro!: wpI leader_step [OF assms]
      split: GroupLeaderError.splits sum.splits option.splits Transferring.splits)

lemma transfer_out_split_ok:
  "wp (transfer_out_split P req owned leader) (\<lambda>(leader', r). leader' = leader \<or> leader' = leader\<lparr>ld_tree := None\<rparr>)"
  unfolding transfer_out_split_def
  by (auto simp: wp_simps Let_def intro!: wpI split: option.splits sum.splits ProofError.splits)

lemma transfer_out_split_leader:
  assumes "transfer_out_split P req owned leader = Some (leader1, r)"
  shows "leader_inv A keys realm grp leader \<Longrightarrow> leader_inv A keys realm grp leader1"
    and "ld_log leader1 = ld_log leader" "ld_committed leader1 = ld_committed leader"
    and "ld_starting_index leader1 = ld_starting_index leader"
  using wpD [OF transfer_out_split_ok assms] by (auto intro: leader_inv_same_log [of _ _ _ _ leader])

lemma append_kept_partition:
  assumes "append_built P keys hsm realm grp last_entry keeping transferring
      (leader1\<lparr>ld_tree := map_option (\<lambda>p. with_existing_root (pt_root_hash p) n) keeping\<rparr>) = Some (leader', entry)"
    and "transfer_out_split P req owned leader = Some (leader1, r)" "leader_inv (pf_mac P) keys realm grp leader"
  shows "leader_inv (pf_mac P) keys realm grp leader'"
proof -
  have "tree_inv (ld_tree leader') entry"
    using append_built_fields(3,4) [OF assms(1)] by auto
  from append_built_inv [OF assms(1,3) _ _ _ this] show ?thesis
    using transfer_out_split_leader [OF assms(2)] by simp
qed

lemma handle_transfer_out_ok:
  assumes "hsm_inv P h"
  shows "wp (handle_transfer_out P h req) (step_ok P h)"
  unfolding handle_transfer_out_def
  by (auto simp: wp_simps Let_def assms append_built_fields transfer_out_split_leader
      intro!: wpI leader_step [OF assms] intro: append_kept_partition
      split: GroupLeaderError.splits sum.splits option.splits Transferring.splits)

lemma transfer_in_merge_ok:
  "wp (transfer_in_merge P req needs leader) (\<lambda>(leader', r). leader' = leader \<or> leader' = leader\<lparr>ld_tree := None\<rparr>)"
  unfolding transfer_in_merge_def
  by (auto simp: wp_simps Let_def intro!: wpI split: option.splits sum.splits MergeError.splits ProofError.splits)

lemma transfer_in_merge_leader:
  assumes "transfer_in_merge P req needs (leader\<lparr>ld_incoming := None\<rparr>) = Some (leader1, r)"
  shows "leader_inv A keys realm grp leader \<Longrightarrow> leader_inv A keys realm grp leader1"
    and "ld_log leader1 = ld_log leader" "ld_committed leader1 = ld_committed leader"
    and "ld_starting_index leader1 = ld_starting_index leader"
  using wpD [OF transfer_in_merge_ok assms] by (auto intro: leader_inv_same_log [of _ _ _ _ leader])

lemma append_received_partition:
  assumes "append_built P keys hsm realm grp last_entry (Some part) transferring leader1 = Some (leader', entry)"
    and "transfer_in_merge P req needs (leader\<lparr>ld_incoming := None\<rparr>) = Some (leader1, r)"
    and "leader_inv (pf_mac P) keys realm grp leader"
  shows "leader_inv (pf_mac P) keys realm grp (leader'\<lparr>ld_tree := Some (with_existing_root (pt_root_hash part) n)\<rparr>)"
  using append_built_fields(4) [OF assms(1)]
  by (intro append_built_inv [OF assms(1,3)]) (simp_all add: transfer_in_merge_leader [OF assms(2)])

lemma handle_transfer_in_ok:
  assumes "hsm_inv P h"
  shows "wp (handle_transfer_in P h req) (step_ok P h)"
  unfolding handle_transfer_in_def
  by (auto simp: wp_simps Let_def assms append_built_fields transfer_in_merge_leader
      intro!: wpI leader_step [OF assms] intro: append_received_partition
      split: GroupLeaderError.splits sum.splits)

end
