(* ===== verification/App.thy ===== *)
theory App
  imports HsmTypes
begin

text \<open>
  The secret-recovery protocol on one user record (\<open>src/hsm_core/src/hsm/app.rs\<close>): registration,
  the three recovery phases with their guess counter, deletion, and the padded encoding of a
  record.  Values the SDK defines (keys, commitments, shares, versions) are never inspected except
  for equality and are the type variable \<open>'o\<close>; the OPRF and the marshalling are the fields of the
  parameter \<open>AppAlg\<close>.
\<close>

section \<open>User records\<close>

record Policy =
  num_guesses :: u16

record 'o RegisteredState =
  reg_version :: 'o
  reg_oprf_private_key :: 'o
  reg_oprf_signed_public_key :: 'o
  reg_unlock_key_commitment :: 'o
  reg_unlock_key_tag :: 'o
  reg_scalar_share :: 'o
  reg_encrypted_user_secret :: 'o
  reg_encrypted_user_secret_commitment :: 'o
  reg_guess_count :: u16
  reg_policy :: Policy

datatype 'o RegistrationState =
    NotRegistered
  | Registered "'o RegisteredState"
  | NoGuesses

record 'o UserRecord =
  registration_state :: "'o RegistrationState"

definition user_record_new :: "'o UserRecord" where
  "user_record_new = \<lparr>registration_state = NotRegistered\<rparr>"

section \<open>Requests and responses\<close>

record 'o Register2Request =
  r2_version :: 'o
  r2_oprf_private_key :: 'o
  r2_oprf_signed_public_key :: 'o
  r2_unlock_key_commitment :: 'o
  r2_unlock_key_tag :: 'o
  r2_encryption_key_scalar_share :: 'o
  r2_encrypted_secret :: 'o
  r2_encrypted_secret_commitment :: 'o
  r2_policy :: Policy

record 'o Recover2Request =
  rc2_version :: 'o
  rc2_oprf_blinded_input :: 'o

record 'o Recover3Request =
  rc3_version :: 'o
  rc3_unlock_key_tag :: 'o

datatype 'o SecretsRequest =
    ReqRegister1
  | ReqRegister2 "'o Register2Request"
  | ReqRecover1
  | ReqRecover2 "'o Recover2Request"
  | ReqRecover3 "'o Recover3Request"
  | ReqDelete

datatype Register1Response = Register1Ok
datatype Register2Response = Register2Ok
datatype 'o Recover1Response = Recover1Ok 'o | Recover1NotRegistered | Recover1NoGuesses
datatype 'o Recover2Response =
    Recover2Ok (rr2_signed_public_key: 'o) (rr2_blinded_result: 'o) (rr2_proof: 'o) (rr2_commitment: 'o)
      (rr2_num_guesses: u16) (rr2_guess_count: u16)
  | Recover2VersionMismatch
  | Recover2NotRegistered
  | Recover2NoGuesses
datatype 'o Recover3Response =
    Recover3Ok (rr3_encrypted_secret: 'o) (rr3_scalar_share: 'o) (rr3_secret_commitment: 'o)
  | Recover3VersionMismatch
  | Recover3NotRegistered
  | Recover3NoGuesses
  | Recover3BadUnlockKeyTag (rr3_guesses_remaining: u16)
datatype DeleteResponse = DeleteOk

datatype 'o SecretsResponse =
    RespRegister1 Register1Response
  | RespRegister2 Register2Response
  | RespRecover1 "'o Recover1Response"
  | RespRecover2 "'o Recover2Response"
  | RespRecover3 "'o Recover3Response"
  | RespDelete DeleteResponse

record 'o AppAlg =
  oprf_public_key :: "'o \<Rightarrow> 'o"
  oprf_blind_verifiable_evaluate :: "'o \<Rightarrow> 'o \<Rightarrow> 'o \<Rightarrow> bytes \<Rightarrow> 'o \<times> 'o"
  record_to_vec :: "'o UserRecord \<Rightarrow> bytes option"
  record_from_slice :: "bytes \<Rightarrow> 'o UserRecord option"
  to_be4 :: "nat \<Rightarrow> bytes"

section \<open>Operations\<close>

definition register1 :: Register1Response where
  "register1 = Register1Ok"

definition register2 :: "'o Register2Request \<Rightarrow> 'o UserRecord \<Rightarrow> Register2Response \<times> 'o UserRecord option" where
  "register2 req u =
     (Register2Ok, Some (u\<lparr>registration_state := Registered
        \<lparr>reg_version = r2_version req, reg_oprf_private_key = r2_oprf_private_key req,
         reg_oprf_signed_public_key = r2_oprf_signed_public_key req,
         reg_unlock_key_commitment = r2_unlock_key_commitment req, reg_unlock_key_tag = r2_unlock_key_tag req,
         reg_scalar_share = r2_encryption_key_scalar_share req,
         reg_encrypted_user_secret = r2_encrypted_secret req,
         reg_encrypted_user_secret_commitment = r2_encrypted_secret_commitment req,
         reg_guess_count = 0, reg_policy = r2_policy req\<rparr>\<rparr>))"

definition recover1 :: "'o UserRecord \<Rightarrow> 'o Recover1Response \<times> 'o UserRecord option" where
  "recover1 u = (case registration_state u of
      Registered s \<Rightarrow>
        if reg_guess_count s \<ge> num_guesses (reg_policy s)
        then (Recover1NoGuesses, Some (u\<lparr>registration_state := NoGuesses\<rparr>))
        else (Recover1Ok (reg_version s), Some u)
    | NoGuesses \<Rightarrow> (Recover1NoGuesses, Some u)
    | NotRegistered \<Rightarrow> (Recover1NotRegistered, None))"

definition recover2 ::
  "'o AppAlg \<Rightarrow> bytes \<Rightarrow> 'o Recover2Request \<Rightarrow> 'o UserRecord \<Rightarrow>
   'o Recover2Response \<times> GuessState option \<times> 'o UserRecord option" where
  "recover2 A rnd req u = (case registration_state u of
      Registered s \<Rightarrow>
        if reg_version s \<noteq> rc2_version req then (Recover2VersionMismatch, None, Some u)
        else if reg_guess_count s \<ge> num_guesses (reg_policy s)
        then (Recover2NoGuesses, None, Some (u\<lparr>registration_state := NoGuesses\<rparr>))
        else
          let s' = s\<lparr>reg_guess_count := reg_guess_count s + 1\<rparr>;
              (oprf_blinded_result, oprf_proof) = oprf_blind_verifiable_evaluate A (reg_oprf_private_key s')
                (oprf_public_key A (reg_oprf_signed_public_key s')) (rc2_oprf_blinded_input req) rnd
          in (Recover2Ok (reg_oprf_signed_public_key s') oprf_blinded_result oprf_proof
                (reg_unlock_key_commitment s') (num_guesses (reg_policy s')) (reg_guess_count s'),
              Some \<lparr>gs_num_guesses = num_guesses (reg_policy s'), gs_guess_count = reg_guess_count s'\<rparr>,
              Some (u\<lparr>registration_state := Registered s'\<rparr>))
    | NoGuesses \<Rightarrow> (Recover2NoGuesses, None, Some u)
    | NotRegistered \<Rightarrow> (Recover2NotRegistered, None, None))"

text \<open>
  The guesses left are computed as in a release build, where \<open>u16\<close> subtraction wraps; from a record
  that starts out unregistered the counter never exceeds the limit, so that it does not.
\<close>

definition recover3 ::
  "'o Recover3Request \<Rightarrow> 'o UserRecord \<Rightarrow> 'o Recover3Response \<times> bool \<times> 'o UserRecord option" where
  "recover3 req u = (case registration_state u of
      Registered s \<Rightarrow>
        if reg_version s \<noteq> rc3_version req then (Recover3VersionMismatch, False, Some u)
        else if rc3_unlock_key_tag req \<noteq> reg_unlock_key_tag s
        then let guesses_remaining = num_guesses (reg_policy s) - reg_guess_count s;
                 u' = (if guesses_remaining = 0 then u\<lparr>registration_state := NoGuesses\<rparr> else u)
             in (Recover3BadUnlockKeyTag guesses_remaining, False, Some u')
        else (Recover3Ok (reg_encrypted_user_secret s) (reg_scalar_share s) (reg_encrypted_user_secret_commitment s),
              True, Some (u\<lparr>registration_state := Registered (s\<lparr>reg_guess_count := 0\<rparr>)\<rparr>))
    | NoGuesses \<Rightarrow> (Recover3NoGuesses, False, Some u)
    | NotRegistered \<Rightarrow> (Recover3NotRegistered, False, None))"

definition delete_record :: "'o UserRecord \<Rightarrow> DeleteResponse \<times> 'o UserRecord option" where
  "delete_record u = (case registration_state u of
      NotRegistered \<Rightarrow> (DeleteOk, None)
    | _ \<Rightarrow> (DeleteOk, Some (u\<lparr>registration_state := NotRegistered\<rparr>)))"

section \<open>Encoding of records\<close>

definition serialized_record_size :: nat where
  "serialized_record_size = 750"

definition trailer_len :: nat where
  "trailer_len = 4"

datatype SerializationError = SerializationError

datatype DeserializationError =
    RecordTooSmall nat
  | RecordTooLarge nat
  | RecordBadLength nat nat
  | RecordMarshalling

definition marshal_user_record :: "'o AppAlg \<Rightarrow> 'o UserRecord \<Rightarrow> (SerializationError + bytes) option" where
  "marshal_user_record A u = (case record_to_vec A u of
      None \<Rightarrow> Some (Inl SerializationError)
    | Some s \<Rightarrow> do {
        let should_pad = (case registration_state u of
            NotRegistered \<Rightarrow> False
          | Registered _ \<Rightarrow> True
          | NoGuesses \<Rightarrow> True);
        rust_assert (length s < serialized_record_size - trailer_len);
        let padded = (if should_pad then s @ replicate (serialized_record_size - trailer_len - length s) 0 else s);
        Some (Inr (padded @ to_be4 A (length s)))
      })"

definition unmarshal_user_record :: "'o AppAlg \<Rightarrow> bytes \<Rightarrow> DeserializationError + 'o UserRecord" where
  "unmarshal_user_record A padded =
     (let padded_len = length padded
      in if padded_len < trailer_len then Inl (RecordTooSmall padded_len)
         else if padded_len > serialized_record_size then Inl (RecordTooLarge padded_len)
         else let trailer = drop (padded_len - trailer_len) padded;
                  data_len = be_val trailer;
                  limit = padded_len - trailer_len
              in if data_len > limit then Inl (RecordBadLength data_len limit)
                 else case record_from_slice A (take data_len padded) of
                     None \<Rightarrow> Inl RecordMarshalling
                   | Some u \<Rightarrow> Inr u)"

section \<open>Processing a request\<close>

datatype RecordChange = RecordUpdate bytes

definition app_dispatch ::
  "'o AppAlg \<Rightarrow> bytes \<Rightarrow> 'o SecretsRequest \<Rightarrow> 'o UserRecord \<Rightarrow>
   'o SecretsResponse \<times> AppResultType \<times> 'o UserRecord option" where
  "app_dispatch A rnd request u = (case request of
      ReqRegister1 \<Rightarrow> (RespRegister1 register1, ResRegister1, None)
    | ReqRegister2 req \<Rightarrow> (let (res, u') = register2 req u in (RespRegister2 res, ResRegister2, u'))
    | ReqRecover1 \<Rightarrow> (let (res, u') = recover1 u in (RespRecover1 res, ResRecover1, u'))
    | ReqRecover2 req \<Rightarrow> (let (res, updated, u') = recover2 A rnd req u in (RespRecover2 res, ResRecover2 updated, u'))
    | ReqRecover3 req \<Rightarrow> (let (res, recovered, u') = recover3 req u in (RespRecover3 res, ResRecover3 recovered, u'))
    | ReqDelete \<Rightarrow> (let (res, u') = delete_record u in (RespDelete res, ResDelete, u')))"

definition app_process ::
  "'o AppAlg \<Rightarrow> bytes \<Rightarrow> 'o SecretsRequest \<Rightarrow> bytes option \<Rightarrow>
   ('o SecretsResponse \<times> AppResultType \<times> RecordChange option) option" where
  "app_process A rnd request record_val = do {
     user_record_in \<leftarrow> (case record_val of
         None \<Rightarrow> Some user_record_new
       | Some data \<Rightarrow> (case unmarshal_user_record A data of Inl _ \<Rightarrow> None | Inr u \<Rightarrow> Some u));
     let (result, event, user_record_out) = app_dispatch A rnd request user_record_in;
     rc \<leftarrow> (case user_record_out of
         None \<Rightarrow> Some None
       | Some u \<Rightarrow> do {
           r \<leftarrow> marshal_user_record A u;
           case r of Inl _ \<Rightarrow> None | Inr bs \<Rightarrow> Some (Some (RecordUpdate bs))
         });
     Some (result, event, rc)
   }"

section \<open>Round trip of the encoding\<close>

text \<open>
  What is relied on of the marshalling library: the trailer is the big-endian length, and a record
  encodes to fewer bytes than the padded size leaves, from which it decodes again.
\<close>

definition app_alg_ok :: "'o AppAlg \<Rightarrow> bool" where
  "app_alg_ok A \<longleftrightarrow> be_ok 4 (to_be4 A) \<and>
     (\<forall>u. \<exists>s. record_to_vec A u = Some s \<and> length s < serialized_record_size - trailer_len \<and>
       record_from_slice A s = Some u)"

lemma marshal_roundtrip:
  assumes "app_alg_ok A"
  shows "\<exists>bs. marshal_user_record A u = Some (Inr bs) \<and> unmarshal_user_record A bs = Inr u \<and>
    (registration_state u \<noteq> NotRegistered \<longrightarrow> length bs = serialized_record_size)"
proof -
  obtain s where s: "record_to_vec A u = Some s" "length s < 746" "record_from_slice A s = Some u"
    using assms by (auto simp: app_alg_ok_def serialized_record_size_def trailer_len_def)
  have be: "length (to_be4 A (length s)) = 4" "be_val (to_be4 A (length s)) = length s"
    using assms s(2) by (auto simp: app_alg_ok_def be_ok_def)
  define pad where "pad = (if registration_state u = NotRegistered then [] else replicate (746 - length s) (0::u8))"
  let ?bs = "(s @ pad) @ to_be4 A (length s)"
  have m: "marshal_user_record A u = Some (Inr ?bs)"
    using s by (auto simp: marshal_user_record_def pad_def serialized_record_size_def trailer_len_def panic_simps
        split: RegistrationState.splits)
  have "length ?bs \<le> 750"
    using s(2) be by (simp add: pad_def)
  moreover have "drop (length (s @ pad)) ?bs = to_be4 A (length s)"
    by simp
  ultimately have "unmarshal_user_record A ?bs = Inr u"
    using s be by (simp add: unmarshal_user_record_def Let_def trailer_len_def serialized_record_size_def)
  then show ?thesis
    using m s(2) be by (auto simp: pad_def serialized_record_size_def)
qed

text \<open>
  C11: a user record is recovered from its stored bytes, and the stored size of a registered record
  and of one that has run out of guesses is the same, so that the size of an encrypted leaf does not
  reveal which of the two it is.
\<close>

theorem user_record_roundtrip:
  assumes "app_alg_ok A"
  shows "\<exists>bs. marshal_user_record A u = Some (Inr bs) \<and> unmarshal_user_record A bs = Inr u \<and>
    (registration_state u \<noteq> NotRegistered \<longrightarrow> length bs = serialized_record_size)"
  using marshal_roundtrip [OF assms] .

section \<open>The guess counter\<close>

definition record_ok :: "'o UserRecord \<Rightarrow> bool" where
  "record_ok u \<longleftrightarrow> (case registration_state u of
      Registered s \<Rightarrow> reg_guess_count s \<le> num_guesses (reg_policy s)
    | _ \<Rightarrow> True)"

definition guesses_left :: "'o UserRecord \<Rightarrow> nat" where
  "guesses_left u = (case registration_state u of
      Registered s \<Rightarrow> unat (num_guesses (reg_policy s)) - unat (reg_guess_count s)
    | _ \<Rightarrow> 0)"

definition guess_budget :: "'o UserRecord \<Rightarrow> nat" where
  "guess_budget u = (case registration_state u of Registered s \<Rightarrow> unat (num_guesses (reg_policy s)) | _ \<Rightarrow> 0)"

fun guess_spent :: "'o SecretsResponse \<Rightarrow> bool" where
  "guess_spent (RespRecover2 (Recover2Ok _ _ _ _ _ _)) \<longleftrightarrow> True"
| "guess_spent _ \<longleftrightarrow> False"

fun secret_released :: "'o SecretsResponse \<Rightarrow> bool" where
  "secret_released (RespRecover3 (Recover3Ok _ _ _)) \<longleftrightarrow> True"
| "secret_released _ \<longleftrightarrow> False"

fun is_register2 :: "'o SecretsRequest \<Rightarrow> bool" where
  "is_register2 (ReqRegister2 _) \<longleftrightarrow> True"
| "is_register2 _ \<longleftrightarrow> False"

definition next_record :: "'o UserRecord \<Rightarrow> 'o UserRecord option \<Rightarrow> 'o UserRecord" where
  "next_record u out = (case out of None \<Rightarrow> u | Some u' \<Rightarrow> u')"

lemmas app_ops = register1_def register2_def recover1_def recover2_def recover3_def delete_record_def

lemma u16_succ: "(a::u16) < b \<Longrightarrow> unat (a + 1) = Suc (unat a)"
proof -
  assume "a < b"
  moreover have "unat b < 2 ^ LENGTH(16)"
    by (rule unsigned_less)
  ultimately show ?thesis
    by (simp add: unat_word_ariths word_less_nat_alt)
qed

lemma app_dispatch_record_ok:
  "record_ok u \<Longrightarrow> app_dispatch A rnd req u = (res, ev, out) \<Longrightarrow> record_ok (next_record u out)"
  by (cases req; cases "registration_state u")
    (auto simp: app_dispatch_def app_ops record_ok_def next_record_def Let_def inc_le split: if_splits prod.splits)

lemma app_dispatch_budget:
  "app_dispatch A rnd req u = (res, ev, out) \<Longrightarrow> \<not> is_register2 req \<Longrightarrow>
   guess_budget (next_record u out) \<le> guess_budget u"
  by (cases req; cases "registration_state u")
    (auto simp: app_dispatch_def app_ops guess_budget_def next_record_def Let_def split: if_splits prod.splits)

lemma app_dispatch_guesses:
  "app_dispatch A rnd req u = (res, ev, out) \<Longrightarrow> \<not> is_register2 req \<Longrightarrow>
   guesses_left (next_record u out) + of_bool (guess_spent res) \<le>
     guesses_left u + guess_budget u * of_bool (secret_released res)"
  by (cases req; cases "registration_state u")
    (auto simp: app_dispatch_def app_ops guesses_left_def guess_budget_def next_record_def Let_def u16_succ
      word_less_nat_alt not_le split: if_splits prod.splits)

section \<open>Runs of requests on a stored record\<close>

fun app_run ::
  "'o AppAlg \<Rightarrow> (bytes \<times> 'o SecretsRequest) list \<Rightarrow> bytes option \<Rightarrow>
   ('o SecretsResponse list \<times> bytes option) option" where
  "app_run A [] stored = Some ([], stored)"
| "app_run A ((rnd, req) # reqs) stored = do {
     (res, event, rc) \<leftarrow> app_process A rnd req stored;
     (ress, stored') \<leftarrow> app_run A reqs (case rc of None \<Rightarrow> stored | Some (RecordUpdate bs) \<Rightarrow> Some bs);
     Some (res # ress, stored')
   }"

definition stored_as :: "'o AppAlg \<Rightarrow> bytes option \<Rightarrow> 'o UserRecord \<Rightarrow> bool" where
  "stored_as A stored u = (case stored of
      None \<Rightarrow> u = user_record_new
    | Some bs \<Rightarrow> unmarshal_user_record A bs = Inr u)"

lemma app_process_dispatch:
  assumes "app_alg_ok A" "stored_as A stored u" "app_dispatch A rnd req u = (res, ev, out)"
  shows "\<exists>rc. app_process A rnd req stored = Some (res, ev, rc) \<and>
    stored_as A (case rc of None \<Rightarrow> stored | Some (RecordUpdate bs) \<Rightarrow> Some bs) (next_record u out)"
proof -
  have load: "(case stored of None \<Rightarrow> Some user_record_new
      | Some data \<Rightarrow> (case unmarshal_user_record A data of Inl _ \<Rightarrow> None | Inr u \<Rightarrow> Some u)) = Some u"
    using assms(2) by (auto simp: stored_as_def split: option.splits)
  show ?thesis
  proof (cases out)
    case None
    then show ?thesis
      using assms(2,3) load by (simp add: app_process_def next_record_def)
  next
    case (Some u')
    obtain bs where "marshal_user_record A u' = Some (Inr bs)" "unmarshal_user_record A bs = Inr u'"
      using marshal_roundtrip [OF assms(1)] by blast
    then show ?thesis
      using assms(3) load Some by (simp add: app_process_def next_record_def stored_as_def)
  qed
qed

lemma app_run_guesses:
  assumes "app_alg_ok A"
  shows "stored_as A stored u \<Longrightarrow> list_all (\<lambda>(_, req). \<not> is_register2 req) reqs \<Longrightarrow>
    \<exists>ress stored'. app_run A reqs stored = Some (ress, stored') \<and>
      length (filter guess_spent ress) \<le>
        guesses_left u + guess_budget u * length (filter secret_released ress)"
proof (induction reqs arbitrary: stored u)
  case (Cons p reqs)
  obtain rnd req where p: "p = (rnd, req)"
    by (cases p)
  obtain res ev out where d: "app_dispatch A rnd req u = (res, ev, out)"
    by (cases "app_dispatch A rnd req u")
  obtain rc where rc: "app_process A rnd req stored = Some (res, ev, rc)"
    "stored_as A (case rc of None \<Rightarrow> stored | Some (RecordUpdate bs) \<Rightarrow> Some bs) (next_record u out)"
    using app_process_dispatch [OF assms Cons.prems(1) d] by blast
  have nr: "\<not> is_register2 req"
    using Cons.prems(2) p by simp
  obtain ress stored' where run: "app_run A reqs (case rc of None \<Rightarrow> stored | Some (RecordUpdate bs) \<Rightarrow> Some bs) = Some (ress, stored')"
    and le: "length (filter guess_spent ress) \<le>
      guesses_left (next_record u out) + guess_budget (next_record u out) * length (filter secret_released ress)"
    using Cons.IH [OF rc(2)] Cons.prems(2) by auto
  have "length (filter guess_spent ress) \<le>
      guesses_left (next_record u out) + guess_budget u * length (filter secret_released ress)"
    using le mult_le_mono1 [OF app_dispatch_budget [OF d nr], of "length (filter secret_released ress)"] by linarith
  then have "length (filter guess_spent (res # ress)) \<le>
      guesses_left u + guess_budget u * length (filter secret_released (res # ress))"
    using app_dispatch_guesses [OF d nr] by (auto split: if_splits)
  then show ?case
    using rc(1) run p by simp
qed simp

text \<open>
  C4: the guess limit.  Take any sequence of requests on a stored record that does not register
  it again.  Processing it never panics, and the number of OPRF evaluations it gives away (answers
  \<open>Ok\<close> to the second recovery phase) is at most the guesses that were left plus one full budget for
  every time the secret was released against the right unlock tag.
\<close>

theorem guess_limit:
  assumes "app_alg_ok A" "stored_as A stored u" "list_all (\<lambda>(_, req). \<not> is_register2 req) reqs"
  shows "\<exists>ress stored'. app_run A reqs stored = Some (ress, stored') \<and>
    length (filter guess_spent ress) \<le> guesses_left u + guess_budget u * length (filter secret_released ress)"
  by (rule app_run_guesses [OF assms])

lemma app_run_record_ok:
  assumes "app_alg_ok A"
  shows "stored_as A stored u \<Longrightarrow> record_ok u \<Longrightarrow>
    \<exists>ress stored' u'. app_run A reqs stored = Some (ress, stored') \<and> stored_as A stored' u' \<and> record_ok u'"
proof (induction reqs arbitrary: stored u)
  case (Cons p reqs)
  obtain rnd req where p: "p = (rnd, req)"
    by (cases p)
  obtain res ev out where d: "app_dispatch A rnd req u = (res, ev, out)"
    by (cases "app_dispatch A rnd req u")
  obtain rc where rc: "app_process A rnd req stored = Some (res, ev, rc)"
    "stored_as A (case rc of None \<Rightarrow> stored | Some (RecordUpdate bs) \<Rightarrow> Some bs) (next_record u out)"
    using app_process_dispatch [OF assms Cons.prems(1) d] by blast
  obtain ress stored' u' where
    "app_run A reqs (case rc of None \<Rightarrow> stored | Some (RecordUpdate bs) \<Rightarrow> Some bs) = Some (ress, stored')"
    "stored_as A stored' u'" "record_ok u'"
    using Cons.IH [OF rc(2) app_dispatch_record_ok [OF Cons.prems(2) d]] by blast
  then show ?case
    using rc(1) p by auto
qed auto

text \<open>
  C12: the guess counter never passes its limit and the subtraction in the third recovery phase
  never wraps.  After any requests on a new record, the stored record decodes, its counter is at
  most the policy's number of guesses, and a wrong unlock tag is answered with exactly the guesses
  that are left.
\<close>

theorem guess_counter_bounds:
  assumes "app_alg_ok A"
  shows "\<exists>ress stored u. app_run A reqs None = Some (ress, stored) \<and> stored_as A stored u \<and> record_ok u \<and>
    (\<forall>req n. fst (recover3 req u) = Recover3BadUnlockKeyTag n \<longrightarrow> unat n = guesses_left u)"
proof -
  have "stored_as A None user_record_new" "record_ok user_record_new"
    by (simp_all add: stored_as_def record_ok_def user_record_new_def)
  then obtain ress stored u where u: "app_run A reqs None = Some (ress, stored)" "stored_as A stored u" "record_ok u"
    using app_run_record_ok [OF assms] by blast
  have "unat n = guesses_left u" if "fst (recover3 req u) = Recover3BadUnlockKeyTag n" for req n
    using that u(3)
    by (auto simp: recover3_def record_ok_def guesses_left_def Let_def unat_sub
        split: RegistrationState.splits if_splits)
  then show ?thesis
    using u by blast
qed

section \<open>An instance\<close>

definition example_app_alg :: "unit AppAlg" where
  "example_app_alg = \<lparr>oprf_public_key = (\<lambda>k. k), oprf_blind_verifiable_evaluate = (\<lambda>_ _ _ _. ((), ())),
     record_to_vec = (\<lambda>u. Some (case registration_state u of
         NotRegistered \<Rightarrow> [0]
       | NoGuesses \<Rightarrow> [1]
       | Registered s \<Rightarrow> 2 # be_bytes 2 (unat (reg_guess_count s)) @ be_bytes 2 (unat (num_guesses (reg_policy s))))),
     record_from_slice = (\<lambda>bs. Some \<lparr>registration_state =
        (if bs = [0] then NotRegistered else if bs = [1] then NoGuesses
         else Registered \<lparr>reg_version = (), reg_oprf_private_key = (), reg_oprf_signed_public_key = (),
           reg_unlock_key_commitment = (), reg_unlock_key_tag = (), reg_scalar_share = (),
           reg_encrypted_user_secret = (), reg_encrypted_user_secret_commitment = (),
           reg_guess_count = of_nat (be_val (take 2 (drop 1 bs))),
           reg_policy = \<lparr>num_guesses = of_nat (be_val (drop 3 bs))\<rparr>\<rparr>)\<rparr>),
     to_be4 = be_bytes 4\<rparr>"

lemma of_nat_be_bytes_u16: "of_nat (be_val (be_bytes 2 (unat (x::u16)))) = x"
proof -
  have "unat x < 2 ^ LENGTH(16)"
    by (rule unsigned_less)
  then show ?thesis
    by (simp add: be_val_be_bytes)
qed

lemma example_app_alg_ok: "app_alg_ok example_app_alg"
proof -
  have "\<exists>s. record_to_vec example_app_alg u = Some s \<and> length s < serialized_record_size - trailer_len \<and>
    record_from_slice example_app_alg s = Some u" for u
    by (cases "registration_state u")
      (auto simp: example_app_alg_def serialized_record_size_def trailer_len_def of_nat_be_bytes_u16)
  then show ?thesis
    by (simp add: app_alg_ok_def example_app_alg_def be_ok_be_bytes)
qed

theorem user_record_roundtrip_witness:
  "\<exists>bs. marshal_user_record example_app_alg \<lparr>registration_state = NoGuesses\<rparr> = Some (Inr bs) \<and>
    unmarshal_user_record example_app_alg bs = Inr \<lparr>registration_state = NoGuesses\<rparr> \<and> length bs = 750"
  using user_record_roundtrip [OF example_app_alg_ok, of "\<lparr>registration_state = NoGuesses\<rparr>"]
  by (simp add: serialized_record_size_def)

text \<open>A registered record with one guess left of two.\<close>

definition example_record :: "unit UserRecord" where
  "example_record = \<lparr>registration_state = Registered \<lparr>reg_version = (), reg_oprf_private_key = (), reg_oprf_signed_public_key = (),
     reg_unlock_key_commitment = (), reg_unlock_key_tag = (), reg_scalar_share = (), reg_encrypted_user_secret = (),
     reg_encrypted_user_secret_commitment = (), reg_guess_count = 1, reg_policy = \<lparr>num_guesses = 2\<rparr>\<rparr>\<rparr>"

theorem guess_limit_witness:
  "\<exists>bs ress stored'. unmarshal_user_record example_app_alg bs = Inr example_record \<and>
     app_run example_app_alg (replicate 3 ([], ReqRecover2 \<lparr>rc2_version = (), rc2_oprf_blinded_input = ()\<rparr>)) (Some bs) = Some (ress, stored') \<and>
     length (filter guess_spent ress) \<le> 1 + 2 * length (filter secret_released ress)"
proof -
  let ?reqs = "replicate 3 ([], ReqRecover2 \<lparr>rc2_version = (), rc2_oprf_blinded_input = ()\<rparr>)"
  obtain bs where bs: "unmarshal_user_record example_app_alg bs = Inr example_record"
    using marshal_roundtrip [OF example_app_alg_ok] by blast
  then have "stored_as example_app_alg (Some bs) example_record"
    by (simp add: stored_as_def)
  moreover have "guesses_left example_record = 1" "guess_budget example_record = 2"
    by (simp_all add: example_record_def guesses_left_def guess_budget_def)
  moreover have "list_all (\<lambda>(_, req). \<not> is_register2 req) ?reqs"
    by (simp add: list_all_iff)
  ultimately show ?thesis
    using guess_limit [OF example_app_alg_ok, of "Some bs" example_record ?reqs] bs by auto
qed

theorem guess_counter_bounds_witness:
  "\<exists>ress stored u. app_run example_app_alg [([], ReqRecover1)] None = Some (ress, stored) \<and>
    stored_as example_app_alg stored u \<and> record_ok u"
  using guess_counter_bounds [OF example_app_alg_ok, of "[([], ReqRecover1)]"] by blast

end
