(* ===== verification/HsmApp.thy ===== *)
theory HsmApp
  imports HsmRealm App
begin

text \<open>
  Client requests (\<open>handle_handshake\<close>, \<open>handle_app\<close> and their helpers in
  \<open>src/hsm_core/src/hsm.rs\<close>): opening a Noise session, reading a record with a Merkle proof,
  decrypting and processing the request, and appending the log entry that carries the new root hash
  together with the response that must wait for its commitment.  Noise, the record cipher and the
  SDK's marshalling are the fields of the parameter \<open>NoiseAlg\<close>.
\<close>

datatype 'o NoiseRequest =
    NoiseReqHandshake 'o
  | NoiseReqTransport bytes

record 'o NoiseAlg =
  noise_start :: "bytes \<Rightarrow> bytes \<Rightarrow> 'o \<Rightarrow> bytes \<Rightarrow> ('o \<times> bytes) option"
  noise_finish :: "'o \<Rightarrow> bytes \<Rightarrow> ('o \<times> 'o) option"
  noise_decrypt :: "'o \<Rightarrow> bytes \<Rightarrow> (bytes \<times> 'o) option"
  noise_encrypt :: "'o \<Rightarrow> bytes \<Rightarrow> (bytes \<times> 'o) option"
  client_ephemeral_public_len :: "'o \<Rightarrow> nat"
  payload_ciphertext_len :: "'o \<Rightarrow> nat"
  body_size_limit :: nat
  secrets_request_from_slice :: "bytes \<Rightarrow> 'o SecretsRequest option"
  needs_forward_secrecy :: "'o SecretsRequest \<Rightarrow> bool"
  padded_response_to_vec :: "'o SecretsResponse \<Rightarrow> bytes option"
  aead_encrypt :: "bytes \<Rightarrow> bytes \<Rightarrow> bytes \<Rightarrow> bytes option"
  aead_decrypt :: "bytes \<Rightarrow> bytes \<Rightarrow> bytes \<Rightarrow> bytes option"
  aead_nonce_size :: nat

definition session_lifetime_secs :: nat where
  "session_lifetime_secs = 5"

section \<open>Handshakes\<close>

record 'o HandshakeRequest =
  hq_realm :: RealmId
  hq_group :: GroupId
  hq_record_id :: RecordId
  hq_session_id :: SessionId
  hq_handshake :: 'o

datatype 'o HandshakeResponse =
    HandshakeOk 'o nat
  | HandshakeInvalidRealm
  | HandshakeInvalidGroup
  | HandshakeNotOwner
  | HandshakeNotLeader
  | HandshakeSessionError

definition handle_handshake ::
  "'o NoiseAlg \<Rightarrow> bytes \<Rightarrow> 'o Hsm \<Rightarrow> 'o HandshakeRequest \<Rightarrow> ('o Hsm \<times> 'o HandshakeResponse) option" where
  "handle_handshake N rnd h req = do {
     owner \<leftarrow> is_leader_record_owner (hsm_persistent h) (volatile_groups h) (hq_realm req) (hq_group req) (hq_record_id req);
     case owner of
       Inl RlInvalidRealm \<Rightarrow> Some (h, HandshakeInvalidRealm)
     | Inl RlInvalidGroup \<Rightarrow> Some (h, HandshakeInvalidGroup)
     | Inl (RlNotLeader _) \<Rightarrow> Some (h, HandshakeNotLeader)
     | Inl RlNotOwner \<Rightarrow> Some (h, HandshakeNotOwner)
     | Inr leader \<Rightarrow>
         (case noise_start N (rk_comm_secret (hsm_realm_keys h)) (rk_comm_public (hsm_realm_keys h)) (hq_handshake req) rnd of
            Some (handshake, payload) \<Rightarrow>
              if payload = [] then
                (case noise_finish N handshake [] of
                   Some (transport, response) \<Rightarrow>
                     Some (set_leader (hq_group req) (leader\<lparr>ld_sessions :=
                         cache_insert (ld_sessions leader) (hq_record_id req, hq_session_id req) transport\<rparr>) h,
                       HandshakeOk response session_lifetime_secs)
                 | None \<Rightarrow> Some (h, HandshakeSessionError))
              else Some (h, HandshakeSessionError)
          | None \<Rightarrow> Some (h, HandshakeSessionError))
   }"

section \<open>Records in the Merkle tree\<close>

datatype AppError =
    AppStaleProof
  | AppInvalidProof
  | AppInvalidRecordData
  | AppMissingSession
  | AppSessionError
  | AppDecodingError

definition get_record ::
  "Platform \<Rightarrow> 'o NoiseAlg \<Rightarrow> RecordId \<Rightarrow> DataHash ReadProof \<Rightarrow> bytes \<Rightarrow> DataHash Tree \<Rightarrow>
   (AppError + DataHash VerifiedProof \<times> bytes option) option" where
  "get_record P N record_id request_proof leaf_key tree =
     (if record_id \<noteq> rp_key request_proof then Some (Inl AppInvalidProof)
      else do {
        r \<leftarrow> latest_proof (pf_hasher P) tree request_proof;
        case r of
          Inl Stale \<Rightarrow> Some (Inl AppStaleProof)
        | Inl Invalid \<Rightarrow> Some (Inl AppInvalidProof)
        | Inr vp \<Rightarrow> (case vp_leaf vp of
            None \<Rightarrow> Some (Inr (vp, None))
          | Some l \<Rightarrow>
              let v = lf_value l
              in if length v \<le> aead_nonce_size N then Some (Inl AppInvalidRecordData)
                 else let cipher_text = take (length v - aead_nonce_size N) v;
                          nonce = drop (length v - aead_nonce_size N) v
                      in (case aead_decrypt N leaf_key nonce cipher_text of
                            Some plain_text \<Rightarrow> Some (Inr (vp, Some plain_text))
                          | None \<Rightarrow> Some (Inl AppInvalidRecordData)))
      })"

definition update_overlay ::
  "Platform \<Rightarrow> 'o NoiseAlg \<Rightarrow> bytes \<Rightarrow> bytes \<Rightarrow> DataHash Tree \<Rightarrow> DataHash VerifiedProof \<Rightarrow> RecordChange option \<Rightarrow>
   (DataHash Tree \<times> DataHash \<times> DataHash StoreDelta) option" where
  "update_overlay P N rnd_nonce leaf_key tree vp change = (case change of
      Some (RecordUpdate rec) \<Rightarrow> do {
        cipher_text \<leftarrow> aead_encrypt N leaf_key rnd_nonce rec;
        (tree', r) \<leftarrow> tree_insert (pf_hasher P) tree vp (cipher_text @ rnd_nonce);
        case r of
          Inl _ \<Rightarrow> None
        | Inr (root_hash, delta) \<Rightarrow> Some (tree', root_hash, delta)
      }
    | None \<Rightarrow> do {
        root_hash \<leftarrow> vp_root_hash vp;
        Some (tree, root_hash, delta_default)
      })"

section \<open>Sessions\<close>

datatype 'o NoiseHelperState = HelperHandshake 'o | HelperTransport 'o

definition noise_decode ::
  "'o NoiseAlg \<Rightarrow> RealmKeys \<Rightarrow> bytes \<Rightarrow> RecordId \<Rightarrow> SessionId \<Rightarrow> 'o NoiseRequest \<Rightarrow> 'o SessionCache \<Rightarrow>
   'o SessionCache \<times> (AppError + 'o NoiseHelperState \<times> 'o SecretsRequest)" where
  "noise_decode N keys rnd record_id session_id encrypted sessions = (case encrypted of
      NoiseReqHandshake handshake \<Rightarrow>
        (case noise_start N (rk_comm_secret keys) (rk_comm_public keys) handshake rnd of
           None \<Rightarrow> (sessions, Inl AppSessionError)
         | Some (hs, payload) \<Rightarrow>
             (case secrets_request_from_slice N payload of
                None \<Rightarrow> (sessions, Inl AppDecodingError)
              | Some secrets_request \<Rightarrow>
                  if needs_forward_secrecy N secrets_request then (sessions, Inl AppSessionError)
                  else (sessions, Inr (HelperHandshake hs, secrets_request))))
    | NoiseReqTransport ciphertext \<Rightarrow>
        (case cache_remove sessions (record_id, session_id) of
           (None, sessions1) \<Rightarrow> (sessions1, Inl AppMissingSession)
         | (Some transport, sessions1) \<Rightarrow>
             (case noise_decrypt N transport ciphertext of
                None \<Rightarrow> (sessions1, Inl AppSessionError)
              | Some (plaintext, transport') \<Rightarrow>
                  (case secrets_request_from_slice N plaintext of
                     None \<Rightarrow> (sessions1, Inl AppDecodingError)
                   | Some secrets_request \<Rightarrow> (sessions1, Inr (HelperTransport transport', secrets_request))))))"

definition noise_encode ::
  "'o NoiseAlg \<Rightarrow> RecordId \<Rightarrow> SessionId \<Rightarrow> 'o NoiseHelperState \<Rightarrow> 'o SecretsResponse \<Rightarrow> 'o SessionCache \<Rightarrow>
   ('o SessionCache \<times> 'o NoiseResponse) option" where
  "noise_encode N record_id session_id state response sessions = do {
     padded \<leftarrow> padded_response_to_vec N response;
     (resp, transport) \<leftarrow> (case state of
         HelperHandshake handshake \<Rightarrow> do {
           (transport, handshake_response) \<leftarrow> noise_finish N handshake padded;
           Some (NoiseRespHandshake handshake_response session_lifetime_secs, transport)
         }
       | HelperTransport transport \<Rightarrow> do {
           (ciphertext, transport') \<leftarrow> noise_encrypt N transport padded;
           Some (NoiseRespTransport ciphertext, transport')
         });
     Some (cache_insert sessions (record_id, session_id) transport, resp)
   }"

section \<open>Application requests\<close>

record 'o AppRequest =
  aq_realm :: RealmId
  aq_group :: GroupId
  aq_record_id :: RecordId
  aq_session_id :: SessionId
  aq_encrypted :: "'o NoiseRequest"
  aq_proof :: "DataHash ReadProof"
  aq_index :: LogIndex

datatype AppResponse =
    AppOk LogEntry "DataHash StoreDelta"
  | AppInvalidRealm
  | AppInvalidGroup
  | AppNotOwner
  | AppNotLeader RoleStatus
  | AppErr AppError

record AppDraws =
  draw_noise :: bytes
  draw_oprf :: bytes
  draw_nonce :: bytes

definition request_size_ok :: "'o NoiseAlg \<Rightarrow> 'o NoiseRequest \<Rightarrow> bool" where
  "request_size_ok N encrypted \<longleftrightarrow> (case encrypted of
      NoiseReqTransport ciphertext \<Rightarrow> length ciphertext \<le> body_size_limit N
    | NoiseReqHandshake handshake \<Rightarrow>
        client_ephemeral_public_len N handshake = 32 \<and> payload_ciphertext_len N handshake \<le> body_size_limit N)"

definition handle_app_request ::
  "Platform \<Rightarrow> 'o NoiseAlg \<Rightarrow> 'o AppAlg \<Rightarrow> AppDraws \<Rightarrow> 'o AppRequest \<Rightarrow> HsmId \<Rightarrow> RealmKeys \<Rightarrow>
   'o LeaderVolatileGroupState \<Rightarrow> ('o LeaderVolatileGroupState \<times> AppResponse) option" where
  "handle_app_request P N A draws req hsm keys leader = do {
     tree \<leftarrow> ld_tree leader;
     r \<leftarrow> get_record P N (aq_record_id req) (aq_proof req) (rk_record keys) tree;
     case r of
       Inl e \<Rightarrow> Some (leader, AppErr e)
     | Inr (vp, rec) \<Rightarrow> do {
         rust_assert (request_size_ok N (aq_encrypted req));
         let (sessions1, decoded) = noise_decode N keys (draw_noise draws) (aq_record_id req) (aq_session_id req)
           (aq_encrypted req) (ld_sessions leader);
         case decoded of
           Inl e \<Rightarrow> Some (leader\<lparr>ld_sessions := sessions1\<rparr>, AppErr e)
         | Inr (noise, secrets_request) \<Rightarrow> do {
             (secrets_response, event, change) \<leftarrow> app_process A (draw_oprf draws) secrets_request rec;
             (sessions2, response) \<leftarrow> noise_encode N (aq_record_id req) (aq_session_id req) noise secrets_response sessions1;
             (tree', root_hash, store_delta) \<leftarrow> update_overlay P N (draw_nonce draws) (rk_record keys) tree vp change;
             last_entry \<leftarrow> ll_last (ld_log leader);
             next_idx \<leftarrow> log_index_next (le_index (lle_entry last_entry));
             part \<leftarrow> le_partition (lle_entry last_entry);
             new_entry \<leftarrow> entry_build (pf_mac P) keys
               \<lparr>eb_hsm = hsm, eb_realm = aq_realm req, eb_group = aq_group req, eb_index = next_idx,
                eb_partition = Some \<lparr>pt_range = pt_range part, pt_root_hash = root_hash\<rparr>,
                eb_transferring = le_transferring (lle_entry last_entry),
                eb_prev_mac = le_entry_mac (lle_entry last_entry)\<rparr>;
             log' \<leftarrow> ll_append (ld_log leader) new_entry (Some (response, event));
             Some (leader\<lparr>ld_tree := Some tree', ld_sessions := sessions2, ld_log := log'\<rparr>, AppOk new_entry store_delta)
           }
       }
   }"

definition handle_app ::
  "Platform \<Rightarrow> 'o NoiseAlg \<Rightarrow> 'o AppAlg \<Rightarrow> AppDraws \<Rightarrow> 'o Hsm \<Rightarrow> 'o AppRequest \<Rightarrow> ('o Hsm \<times> AppResponse) option" where
  "handle_app P N A draws h req = do {
     owner \<leftarrow> is_leader_record_owner (hsm_persistent h) (volatile_groups h) (aq_realm req) (aq_group req) (aq_record_id req);
     case owner of
       Inl RlInvalidRealm \<Rightarrow> Some (h, AppInvalidRealm)
     | Inl RlInvalidGroup \<Rightarrow> Some (h, AppInvalidGroup)
     | Inl (RlNotLeader s) \<Rightarrow> Some (h, AppNotLeader s)
     | Inl RlNotOwner \<Rightarrow> Some (h, AppNotOwner)
     | Inr leader \<Rightarrow> do {
         last_idx \<leftarrow> ll_last_index (ld_log leader);
         if aq_index req > last_idx then do {
           (h', _) \<leftarrow> stepdown_at (aq_group req) StepDownLastLogIndex h;
           role \<leftarrow> fmlookup (volatile_groups h') (aq_group req);
           Some (h', AppNotLeader (role_status role))
         }
         else do {
           (leader', response) \<leftarrow> handle_app_request P N A draws req (pst_id (hsm_persistent h)) (hsm_realm_keys h) leader;
           Some (set_leader (aq_group req) leader' h, response)
         }
       }
   }"

section \<open>The verified proof starts at the latest root\<close>

lemma already_latest_root:
  "already_latest_loop key pos h ns = Some (s # rest) \<Longrightarrow> ps_hash s = h"
  by (cases ns) (auto simp: panic_simps Let_def split: option.splits if_splits)

lemma make_latest_root:
  "make_latest_loop get key pos h = Some (Some (path, leaf)) \<Longrightarrow> path = [] \<or> ps_hash (hd path) = h"
  by (subst (asm) make_latest_loop.simps)
    (auto simp: Let_def panic_simps split: Node.splits option.splits if_splits prod.splits)

lemma latest_proof_root:
  assumes "latest_proof H t p = Some (Inr vp)" "vp_root_hash vp = Some r"
  shows "r = ov_latest_root (tr_overlay t)"
proof -
  have path: "vp_path vp \<noteq> []" "r = ps_hash (hd (vp_path vp))"
    using assms(2) by (cases "vp_path vp"; auto simp: vp_root_hash_def index_get_def)+
  obtain lh where new: "new_make_latest p (tr_overlay t) lh = Some vp"
    using assms(1) by (cases "verify_proof H p"; cases "the (verify_proof H p)")
      (auto simp: latest_proof_def verify_def panic_simps split: if_splits)
  show ?thesis
  proof (cases "rp_root_hash p = ov_latest_root (tr_overlay t)")
    case True
    then have "already_latest_loop (rid_bits (rp_key p)) 0 (rp_root_hash p) (rp_path p) = Some (vp_path vp)"
      using new by (auto simp: new_make_latest_def new_already_latest_def panic_simps)
    then show ?thesis
      using path True already_latest_root by (cases "vp_path vp") auto
  next
    case False
    then obtain get leaf where "make_latest_loop get (rid_bits (rp_key p)) 0 (ov_latest_root (tr_overlay t)) = Some (Some (vp_path vp, leaf))"
      using new by (auto simp: new_make_latest_def panic_simps Let_def split: option.splits)
    then show ?thesis
      using path make_latest_root by fastforce
  qed
qed

lemma get_record_proof:
  "wp (get_record P N rid p key tree) (\<lambda>r. \<forall>vp rec. r = Inr (vp, rec) \<longrightarrow>
     rid = rp_key p \<and> latest_proof (pf_hasher P) tree p = Some (Inr vp))"
  unfolding get_record_def
  by (auto simp: wp_simps Let_def intro!: wpI split: sum.splits ProofError.splits option.splits)

lemma tree_insert_root:
  "wp (tree_insert H tree vp v) (\<lambda>(tree', r). \<forall>root_hash delta. r = Inr (root_hash, delta) \<longrightarrow>
     ov_latest_root (tr_overlay tree') = root_hash)"
  unfolding tree_insert_def by (auto simp: wp_simps add_delta_latest intro!: wpI)

lemma update_overlay_root:
  assumes "latest_proof (pf_hasher P) tree p = Some (Inr vp)"
  shows "wp (update_overlay P N rnd key tree vp change) (\<lambda>(tree', root_hash, delta). ov_latest_root (tr_overlay tree') = root_hash)"
proof (cases change)
  case None
  then show ?thesis
    using latest_proof_root [OF assms] by (auto simp: update_overlay_def wp_simps intro!: wpI)
next
  case (Some c)
  then obtain rec where "change = Some (RecordUpdate rec)"
    by (cases c) auto
  moreover have "wp (tree_insert H tree vp v) (\<lambda>x. wp (case x of (tree', r) \<Rightarrow> case r of
      Inl _ \<Rightarrow> None | Inr (root_hash, delta) \<Rightarrow> Some (tree', root_hash, delta))
    (\<lambda>(tree', root_hash, delta). ov_latest_root (tr_overlay tree') = root_hash))" for H v
    by (rule wp_mono [OF tree_insert_root]) (auto split: sum.splits)
  ultimately show ?thesis
    by (simp add: update_overlay_def wp_bind) (simp add: wp_def [of "aead_encrypt N key rnd rec"])
qed

section \<open>Client requests keep the invariant\<close>

lemma owner_step:
  assumes "hsm_inv P h" "is_leader_record_owner (hsm_persistent h) (volatile_groups h) realm grp rid = Some (Inr leader)"
    and "leader_inv (pf_mac P) (hsm_realm_keys h) realm grp leader \<Longrightarrow> leader_inv (pf_mac P) (hsm_realm_keys h) realm grp leader'"
    and "ld_starting_index leader' = ld_starting_index leader" "ld_committed leader' = ld_committed leader"
  shows "step_ok P h (set_leader grp leader' h, r)"
proof -
  have leader: "is_group_leader (hsm_persistent h) (volatile_groups h) realm grp = Inr leader"
    using is_leader_record_owner_Inr [OF assms(2)] by simp
  show ?thesis
    by (rule leader_step [OF assms(1) leader assms(3-5)])
qed

lemma handle_handshake_ok:
  assumes "hsm_inv P h"
  shows "wp (handle_handshake N rnd h req) (step_ok P h)"
  unfolding handle_handshake_def
  by (auto simp: wp_simps assms intro!: wpI owner_step [OF assms]
      split: RecordLeaderError.splits sum.splits option.splits)

lemma handle_app_request_ok:
  assumes inv: "leader_inv (pf_mac P) keys (aq_realm req) (aq_group req) leader"
  shows "wp (handle_app_request P N A draws req hsm keys leader) (\<lambda>(leader', r).
    leader_inv (pf_mac P) keys (aq_realm req) (aq_group req) leader' \<and>
    ld_starting_index leader' = ld_starting_index leader \<and> ld_committed leader' = ld_committed leader)"
proof -
  have appended: "leader_inv (pf_mac P) keys (aq_realm req) (aq_group req)
      (leader\<lparr>ld_tree := Some tree', ld_sessions := s, ld_log := log'\<rparr>)"
    if "update_overlay P N rnd (rk_record keys) tree vp change = Some (tree', root_hash, delta)"
      "get_record P N (aq_record_id req) (aq_proof req) (rk_record keys) tree = Some (Inr (vp, rec))"
      "entry_build (pf_mac P) keys b = Some e" "eb_realm b = aq_realm req" "eb_group b = aq_group req"
      "eb_partition b = Some \<lparr>pt_range = rg, pt_root_hash = root_hash\<rparr>"
      "ll_append (ld_log leader) e resp = Some log'"
    for rnd tree vp change tree' root_hash delta rec b e rg resp log' s
  proof -
    have "latest_proof (pf_hasher P) tree (aq_proof req) = Some (Inr vp)"
      using wpD [OF get_record_proof that(2)] by simp
    then have "ov_latest_root (tr_overlay tree') = root_hash"
      using wpD [OF update_overlay_root that(1)] by simp
    moreover have "entry_authentic (pf_mac P) keys (aq_realm req) (aq_group req) e" "le_partition e = eb_partition b"
      using entry_build_total [of "pf_mac P" keys b] that(3-5) by auto
    ultimately show ?thesis
      using that(6) by (intro leader_append [OF inv that(7)]) (auto simp: tree_inv_def)
  qed
  show ?thesis
    unfolding handle_app_request_def
    by (auto simp: wp_simps Let_def inv intro!: wpI appended split: sum.splits prod.splits)
qed

lemma handle_app_ok:
  assumes "hsm_inv P h"
  shows "wp (handle_app P N A draws h req) (step_ok P h)"
proof -
  have down: "step_ok P h (h', r)"
    if owner: "is_leader_record_owner (hsm_persistent h) (volatile_groups h) (aq_realm req) (aq_group req) (aq_record_id req) = Some (Inr leader)"
      and sd: "stepdown_at (aq_group req) StepDownLastLogIndex h = Some (h', x)" for leader h' x and r :: AppResponse
  proof -
    obtain g where "is_group_member (hsm_persistent h) (aq_realm req) (aq_group req) = Inr g"
      using is_leader_record_owner_Inr [OF owner] by (auto simp: is_group_leader_Inr)
    from stepdown_at_ok [OF assms this sd] show ?thesis
      by (simp add: step_ok_def)
  qed
  have served: "step_ok P h (set_leader (aq_group req) leader' h, r)"
    if owner: "is_leader_record_owner (hsm_persistent h) (volatile_groups h) (aq_realm req) (aq_group req) (aq_record_id req) = Some (Inr leader)"
      and run: "handle_app_request P N A draws req (pst_id (hsm_persistent h)) (hsm_realm_keys h) leader = Some (leader', r)" for leader leader' r
  proof -
    have leader: "is_group_leader (hsm_persistent h) (volatile_groups h) (aq_realm req) (aq_group req) = Inr leader"
      using is_leader_record_owner_Inr [OF owner] by simp
    show ?thesis
      using wpD [OF handle_app_request_ok [OF hsm_inv_leader [OF assms leader]] run] by (intro owner_step [OF assms owner]) auto
  qed
  show ?thesis
    unfolding handle_app_def
    by (auto simp: wp_simps assms intro!: wpI split: RecordLeaderError.splits sum.splits intro: down served)
qed

end
