(* ===== verification/HsmExample.thy ===== *)
theory HsmExample
  imports HsmRealm
begin

text \<open>
  A concrete platform and a concrete HSM for the examples that accompany the properties: the HSM
  is one of three members of a group and leads it, with two entries in its log, none of them
  committed.
\<close>

definition example_keys :: RealmKeys where
  "example_keys = \<lparr>rk_comm_secret = [], rk_comm_public = [], rk_record = [5], rk_mac = [6]\<rparr>"

definition example_realm :: RealmId where
  "example_realm = RealmId [2]"

definition example_group :: GroupId where
  "example_group = GroupId [3]"

definition hsm_a :: HsmId where
  "hsm_a = HsmId [1]"

definition hsm_b :: HsmId where
  "hsm_b = HsmId [4]"

definition hsm_c :: HsmId where
  "hsm_c = HsmId [5]"

text \<open>The states of this example are the only ones its serialiser can encode.\<close>

definition example_persistent :: "(LogIndex \<times> EntryMac) option \<Rightarrow> PersistentState" where
  "example_persistent captured = \<lparr>pst_id = hsm_a, pst_realm = Some \<lparr>pr_id = example_realm,
     pr_statement = hsm_realm_mac example_mac_alg example_keys example_realm hsm_a,
     pr_groups = fmupd example_group
       \<lparr>pg_configuration = GroupConfiguration [hsm_a, hsm_b, hsm_c], pg_captured = captured\<rparr> fmempty\<rparr>\<rparr>"

definition fresh_persistent :: PersistentState where
  "fresh_persistent = \<lparr>pst_id = hsm_a, pst_realm = None\<rparr>"

definition joined_persistent :: PersistentState where
  "joined_persistent = \<lparr>pst_id = hsm_a, pst_realm = Some \<lparr>pr_id = example_realm,
     pr_statement = hsm_realm_mac example_mac_alg example_keys example_realm hsm_a, pr_groups = fmempty\<rparr>\<rparr>"

definition example_builder :: "LogIndex \<Rightarrow> EntryMac \<Rightarrow> LogEntryBuilder" where
  "example_builder i prev = \<lparr>eb_hsm = hsm_a, eb_realm = example_realm, eb_group = example_group, eb_index = i,
     eb_partition = None, eb_transferring = None, eb_prev_mac = prev\<rparr>"

definition log_entry_1 :: LogEntry where
  "log_entry_1 = the (entry_build example_mac_alg example_keys (example_builder 1 entry_mac_zero))"

definition log_entry_2 :: LogEntry where
  "log_entry_2 = the (entry_build example_mac_alg example_keys (example_builder 2 (le_entry_mac log_entry_1)))"

definition captured_1 :: "LogIndex \<times> EntryMac" where
  "captured_1 = (1, le_entry_mac log_entry_1)"

definition captured_2 :: "LogIndex \<times> EntryMac" where
  "captured_2 = (2, le_entry_mac log_entry_2)"

definition platform_hasher :: "DataHash NodeHasher" where
  "platform_hasher = \<lparr>finalize = DataHash, as_slice = (\<lambda>h. case h of DataHash bs \<Rightarrow> bs), zero_hash = DataHash [],
     to_be2 = (\<lambda>n. [of_nat (n div 256), of_nat n]), to_be8 = (\<lambda>n. [of_nat n])\<rparr>"

definition example_platform :: Platform where
  "example_platform = \<lparr>pf_mac = example_mac_alg, pf_hasher = platform_hasher,
     pf_blake2s = (\<lambda>bs. take 32 (bs @ replicate 32 0)),
     pf_state_to_vec = (\<lambda>s.
       if s = example_persistent None then Some [1]
       else if s = example_persistent (Some captured_1) then Some [2]
       else if s = example_persistent (Some captured_2) then Some [3]
       else if s = fresh_persistent then Some [4]
       else if s = joined_persistent then Some [5] else None),
     pf_state_from_slice = (\<lambda>bs.
       if bs = [1] then Some (example_persistent None)
       else if bs = [2] then Some (example_persistent (Some captured_1))
       else if bs = [3] then Some (example_persistent (Some captured_2))
       else if bs = [4] then Some fresh_persistent
       else if bs = [5] then Some joined_persistent else None),
     pf_nvram_write_ok = (\<lambda>_. True)\<rparr>"

definition example_leader :: "unit LeaderVolatileGroupState" where
  "example_leader = \<lparr>ld_log = [\<lparr>lle_entry = log_entry_1, lle_response = None\<rparr>,
       \<lparr>lle_entry = log_entry_2, lle_response = Some (NoiseRespTransport [9], ResRegister1)\<rparr>],
     ld_committed = None, ld_incoming = None, ld_tree = None, ld_sessions = the (cache_new 10), ld_starting_index = 2\<rparr>"

definition example_hsm_with ::
  "(LogIndex \<times> EntryMac) option \<Rightarrow> bytes \<Rightarrow> unit RoleVolatileState \<Rightarrow> unit Hsm" where
  "example_hsm_with captured nvram s = \<lparr>hsm_options = \<lparr>tree_overlay_size = 20, max_sessions = 10\<rparr>,
     hsm_persistent = example_persistent captured,
     hsm_writer = \<lparr>nw_nvram = nvram @ pf_blake2s example_platform nvram, nw_hash_of_last_write = None\<rparr>,
     volatile_captured = (case captured of None \<Rightarrow> fmempty | Some c \<Rightarrow> fmupd example_group c fmempty),
     volatile_groups = fmupd example_group \<lparr>rl_state = s, rl_at = 2\<rparr> fmempty, hsm_realm_keys = example_keys\<rparr>"

definition example_hsm :: "unit Hsm" where
  "example_hsm = example_hsm_with None [1] (Leader example_leader)"

section \<open>The invariants of the example\<close>

lemma log_entry_1: "entry_authentic example_mac_alg example_keys example_realm example_group log_entry_1"
  "le_index log_entry_1 = 1" "le_prev_mac log_entry_1 = entry_mac_zero" "le_partition log_entry_1 = None"
  using entry_build_total [of example_mac_alg example_keys "example_builder 1 entry_mac_zero"]
  by (auto simp: log_entry_1_def example_builder_def)

lemma log_entry_2: "entry_authentic example_mac_alg example_keys example_realm example_group log_entry_2"
  "le_index log_entry_2 = 2" "le_prev_mac log_entry_2 = le_entry_mac log_entry_1" "le_partition log_entry_2 = None"
  using entry_build_total [of example_mac_alg example_keys "example_builder 2 (le_entry_mac log_entry_1)"]
  by (auto simp: log_entry_2_def example_builder_def)

lemma hsm_ids_less: "hsm_a < hsm_b" "hsm_b < hsm_c" "hsm_a < hsm_c"
  by code_simp+

lemma example_persistent_inv:
  "persistent_inv (pf_mac example_platform) example_keys (example_persistent captured)"
  using hsm_ids_less
  by (simp add: persistent_inv_def example_persistent_def example_platform_def map_len_def groups_limit_def config_inv_def
      configuration_limit_def fcard_finsert_if fcard_fempty fmpred_iff)

lemma example_persistent_inject:
  "example_persistent c = example_persistent d \<longleftrightarrow> c = d"
proof
  assume "example_persistent c = example_persistent d"
  then have "fmlookup (persistent_groups (example_persistent c)) example_group =
    fmlookup (persistent_groups (example_persistent d)) example_group"
    by simp
  then show "c = d"
    by (simp add: example_persistent_def persistent_groups_def)
qed simp

lemma example_platform_ok: "platform_ok example_platform"
  by (simp add: platform_ok_def example_platform_def blake2s_output_size_def min_def)

lemma example_digest_ok: "no_digest_collision example_platform s s'"
  by (auto simp: no_digest_collision_def example_platform_def split: if_splits)

lemma example_leader_inv: "leader_inv (pf_mac example_platform) example_keys example_realm example_group example_leader"
  by (simp add: leader_inv_def example_leader_def ll_inv_def follows_def log_entry_1 log_entry_2 log_authentic_def
      log_index_next_def checked_add1_def committed_inv_def started_before_def tree_inv_def example_platform_def)

lemma example_hsm_inv:
  assumes "role_inv (pf_mac example_platform) example_keys example_realm example_group s"
  shows "hsm_inv example_platform (example_hsm_with captured nvram s)"
  using assms example_persistent_inv [of captured]
  by (auto simp: hsm_inv_def example_hsm_with_def persistent_groups_def example_persistent_def split: option.splits if_splits)

lemma example_hsm_ok: "hsm_inv example_platform example_hsm"
  unfolding example_hsm_def using example_leader_inv by (intro example_hsm_inv) (simp add: role_inv_def)

end
