(* ===== verification/TransferLimits.thy ===== *)
theory TransferLimits
  imports HsmTransfer HsmApp HsmExample
begin

text \<open>
  Where a transfer leaves a leader that cannot go on: \<open>handle_transfer_out\<close> of
  \<open>src/hsm_core/src/hsm/transfer.rs\<close> takes the tree out of the leader before it checks the proof it splits
  the tree with.
\<close>

section \<open>A refused proof\<close>

lemma transfer_out_split_refused:
  "wp (transfer_out_split P req part leader) (\<lambda>(leader', o').
     \<forall>r. o' = Inl r \<longrightarrow> r = TransferOutStaleProof \<or> r = TransferOutInvalidProof \<longrightarrow> leader' = leader\<lparr>ld_tree := None\<rparr> \<and>
       toq_range req \<noteq> pt_range part \<and>
       (\<exists>old. toq_proof req = Some old \<and> range_split_at (pt_range part) (toq_range req) = Some (Some (rp_key old))))"
  unfolding transfer_out_split_def
  by (auto simp: wp_simps Let_def intro!: wpI split: option.splits sum.splits ProofError.splits)

definition refused_out :: "Platform \<Rightarrow> 'o Hsm \<Rightarrow> TransferOutRequest \<Rightarrow> 'o Hsm \<Rightarrow> bool" where
  "refused_out P h req h' \<longleftrightarrow> (\<exists>leader e part old.
     is_group_leader (hsm_persistent h) (volatile_groups h) (toq_realm req) (toq_source req) = Inr leader \<and>
     h' = set_leader (toq_source req) (leader\<lparr>ld_tree := None\<rparr>) h \<and> ll_last (ld_log leader) = Some e \<and>
     le_partition (lle_entry e) = Some part \<and> le_transferring (lle_entry e) = None \<and> toq_proof req = Some old \<and>
     toq_range req \<noteq> pt_range part \<and> range_split_at (pt_range part) (toq_range req) = Some (Some (rp_key old)) \<and>
     toq_source req \<noteq> toq_destination req \<and> range_is_valid (toq_range req) \<and>
     prepared_transfer_mac (pf_mac P) (hsm_realm_keys h) (toq_realm req) (toq_source req) (toq_destination req)
       (toq_range req) (toq_nonce req) = toq_statement req)"

lemma transfer_out_refused:
  "wp (handle_transfer_out P h req) (\<lambda>(h', r). r = TransferOutStaleProof \<or> r = TransferOutInvalidProof \<longrightarrow> refused_out P h req h')"
  unfolding handle_transfer_out_def refused_out_def
  by (auto simp: wp_simps Let_def intro!: wpI dest!: wpD [OF transfer_out_split_refused]
      split: GroupLeaderError.splits sum.splits option.splits Transferring.splits)

lemma is_group_leader_set:
  assumes "is_group_leader (hsm_persistent h) (volatile_groups h) realm grp = Inr leader"
  shows "is_group_leader (hsm_persistent (set_leader grp leader' h)) (volatile_groups (set_leader grp leader' h)) realm grp = Inr leader'"
    and "hsm_realm_keys (set_leader grp leader' h) = hsm_realm_keys h"
  using assms by (auto simp: is_group_leader_def set_leader_def split: sum.splits option.splits GroupMemberError.splits)

text \<open>
  C33: a transfer with a stale proof disables the leader.  Whenever the source of a transfer refuses the
  proof it is given to split its tree, as stale or as invalid, its leader is left without a tree
  although its last log entry still owns the partition.  From then on the same transfer with
  any other proof for the split key, which is what the agent retries with, panics, and so does
  every request of a client for a record of the partition that is based on the leader's log.
\<close>

theorem refused_transfer_out_panics:
  assumes "handle_transfer_out P h req = Some (h', r)" "r = TransferOutStaleProof \<or> r = TransferOutInvalidProof"
  shows "\<exists>leader e part old. is_group_leader (hsm_persistent h') (volatile_groups h') (toq_realm req) (toq_source req) = Inr leader \<and>
    ll_last (ld_log leader) = Some e \<and> le_partition (lle_entry e) = Some part \<and> ld_tree leader = None \<and>
    toq_proof req = Some old \<and>
    (\<forall>new. rp_key new = rp_key old \<longrightarrow> handle_transfer_out P h' (req\<lparr>toq_proof := Some new\<rparr>) = None) \<and>
    (\<forall>N A draws app. aq_realm app = toq_realm req \<and> aq_group app = toq_source req \<and>
       range_contains (pt_range part) (aq_record_id app) = Some True \<and> aq_index app \<le> le_index (lle_entry e) \<longrightarrow>
       handle_app P N A draws h' app = None)"
proof -
  have "refused_out P h req h'"
    using wpD [OF transfer_out_refused assms(1)] assms(2) by auto
  then obtain leader e part old where
    leader: "is_group_leader (hsm_persistent h) (volatile_groups h) (toq_realm req) (toq_source req) = Inr leader"
    and h': "h' = set_leader (toq_source req) (leader\<lparr>ld_tree := None\<rparr>) h" and e: "ll_last (ld_log leader) = Some e"
    and part: "le_partition (lle_entry e) = Some part" "le_transferring (lle_entry e) = None"
    and old: "toq_proof req = Some old" "toq_range req \<noteq> pt_range part"
      "range_split_at (pt_range part) (toq_range req) = Some (Some (rp_key old))"
    and ok: "toq_source req \<noteq> toq_destination req" "range_is_valid (toq_range req)"
      "prepared_transfer_mac (pf_mac P) (hsm_realm_keys h) (toq_realm req) (toq_source req) (toq_destination req)
         (toq_range req) (toq_nonce req) = toq_statement req"
    unfolding refused_out_def by blast
  note now = is_group_leader_set [OF leader, of "leader\<lparr>ld_tree := None\<rparr>", folded h']
  have "handle_transfer_out P h' (req\<lparr>toq_proof := Some new\<rparr>) = None" if "rp_key new = rp_key old" for new
    using that now e part old ok by (simp add: handle_transfer_out_def transfer_out_split_def)
  moreover have "handle_app P N A draws h' app = None" if "aq_realm app = toq_realm req" "aq_group app = toq_source req"
    "range_contains (pt_range part) (aq_record_id app) = Some True" "aq_index app \<le> le_index (lle_entry e)" for N A draws app
    using that(1-3) not_less [THEN iffD2, OF that(4)] now(1) e part(1)
    by (simp add: handle_app_def is_leader_record_owner_def handle_app_request_def ll_last_index_def)
  ultimately show ?thesis
    using now(1) e part(1) old(1) by auto
qed

section \<open>An example\<close>

text \<open>The example's leader as the owner of all records, and a transfer of the first half of them with a proof for an unknown root.\<close>

definition owner_entry :: LogEntry where
  "owner_entry = the (entry_build example_mac_alg example_keys
     ((example_builder 1 entry_mac_zero)\<lparr>eb_partition := Some \<lparr>pt_range = range_full, pt_root_hash = DataHash [1]\<rparr>\<rparr>))"

definition owner_hsm :: "unit Hsm" where
  "owner_hsm = example_hsm_with None [1] (Leader \<lparr>ld_log = [\<lparr>lle_entry = owner_entry, lle_response = None\<rparr>],
     ld_committed = None, ld_incoming = None, ld_tree = Some (with_existing_root (DataHash [1]) 20),
     ld_sessions = the (cache_new 10), ld_starting_index = 1\<rparr>)"

definition half_key :: RecordId where
  "half_key = RecordId (0x80 # replicate 31 0)"

definition stale_proof :: "DataHash ReadProof" where
  "stale_proof = \<lparr>rp_key = half_key, rp_range = range_full, rp_leaf = None, rp_path = [], rp_root_hash = DataHash [2]\<rparr>"

definition half_request :: TransferOutRequest where
  "half_request = (let rg = \<lparr>rg_start = half_key, rg_end = record_id_max\<rparr> in
     \<lparr>toq_realm = example_realm, toq_source = example_group, toq_destination = GroupId [9], toq_range = rg,
      toq_nonce = TransferNonce [7],
      toq_statement = prepared_transfer_mac example_mac_alg example_keys example_realm example_group (GroupId [9]) rg (TransferNonce [7]),
      toq_proof = Some stale_proof\<rparr>)"

theorem refused_transfer_out_panics_witness:
  "\<exists>h'. handle_transfer_out example_platform owner_hsm half_request = Some (h', TransferOutStaleProof) \<and>
     handle_transfer_out example_platform h' half_request = None"
proof -
  have "map_option snd (handle_transfer_out example_platform owner_hsm half_request) = Some TransferOutStaleProof"
    by code_simp
  then obtain h' where h': "handle_transfer_out example_platform owner_hsm half_request = Some (h', TransferOutStaleProof)"
    by auto
  have "half_request\<lparr>toq_proof := Some stale_proof\<rparr> = half_request" "toq_proof half_request = Some stale_proof"
    by (simp_all add: half_request_def Let_def)
  then show ?thesis
    using refused_transfer_out_panics [OF h'] h' by (metis option.inject)
qed

end
