(* ===== verification/HsmCommit.thy ===== *)
theory HsmCommit
  imports HsmExample Election
begin

text \<open>
  Replication and commitment (\<open>src/hsm_core/src/hsm/commit.rs\<close>): capturing log entries, following
  a newer leader while stepping down, and committing the prefix of the log that a majority of the
  group has captured.
\<close>

section \<open>Capturing\<close>

datatype CaptureJumpResponse =
    CaptureJumpOk
  | CaptureJumpInvalidRealm
  | CaptureJumpInvalidGroup
  | CaptureJumpNotWitness RoleStatus
  | CaptureJumpInvalidStatement
  | CaptureJumpStaleIndex

definition handle_capture_jump ::
  "Platform \<Rightarrow> 'o Hsm \<Rightarrow> Captured \<Rightarrow> ('o Hsm \<times> CaptureJumpResponse) option" where
  "handle_capture_jump P h jump =
     (case is_group_member (hsm_persistent h) (cap_realm jump) (cap_group jump) of
        Inl GmInvalidRealm \<Rightarrow> Some (h, CaptureJumpInvalidRealm)
      | Inl GmInvalidGroup \<Rightarrow> Some (h, CaptureJumpInvalidGroup)
      | Inr _ \<Rightarrow> do {
          role \<leftarrow> fmlookup (volatile_groups h) (cap_group jump);
          if (case rl_state role of Witness \<Rightarrow> False | _ \<Rightarrow> True) then Some (h, CaptureJumpNotWitness (role_status role))
          else if captured_mac (pf_mac P) (hsm_realm_keys h) (cap_hsm jump) (cap_realm jump) (cap_group jump)
                    (cap_index jump) (cap_mac jump) \<noteq> cap_statement jump
          then Some (h, CaptureJumpInvalidStatement)
          else if (case fmlookup (volatile_captured h) (cap_group jump) of
                     Some (i, _) \<Rightarrow> i \<ge> cap_index jump
                   | None \<Rightarrow> False)
          then Some (h, CaptureJumpStaleIndex)
          else Some (h\<lparr>volatile_captured :=
            fmupd (cap_group jump) (cap_index jump, cap_mac jump) (volatile_captured h)\<rparr>, CaptureJumpOk)
        })"

datatype LogEntryStatus = LogOk | PriorIndex | FutureIndex | EntryMacMismatch

definition has_log_diverged :: "'o LeaderLog \<Rightarrow> LogEntry \<Rightarrow> LogEntryStatus option" where
  "has_log_diverged our_log captured = do {
     first_idx \<leftarrow> ll_first_index our_log;
     if le_index captured < first_idx then Some PriorIndex
     else do {
       last_idx \<leftarrow> ll_last_index our_log;
       if le_index captured > last_idx then Some FutureIndex
       else do {
         r \<leftarrow> ll_get_index our_log (le_index captured);
         our_entry \<leftarrow> r;
         if le_entry_mac (lle_entry our_entry) \<noteq> le_entry_mac captured then Some EntryMacMismatch
         else Some LogOk
       }
     }
   }"

datatype CaptureNextResponse =
    CaptureNextOk RoleStatus
  | CaptureNextInvalidRealm
  | CaptureNextInvalidGroup
  | CaptureNextInvalidMac
  | CaptureNextInvalidChain
  | CaptureNextMissingPrev
  | CaptureNextMissingEntries

text \<open>A leader that sees an entry of another leader steps down.\<close>

definition capture_as_leader :: "GroupId \<Rightarrow> LogEntry \<Rightarrow> 'o Hsm \<Rightarrow> 'o Hsm option" where
  "capture_as_leader grp entry h =
     (case map_option rl_state (fmlookup (volatile_groups h) grp) of
        Some (Leader ls) \<Rightarrow> do {
          status \<leftarrow> has_log_diverged (ld_log ls) entry;
          case status of
            LogOk \<Rightarrow> Some h
          | PriorIndex \<Rightarrow> Some h
          | FutureIndex \<Rightarrow> do {
              (h', _) \<leftarrow> stepdown_at grp StepDownLastLogIndex h;
              Some h'
            }
          | EntryMacMismatch \<Rightarrow> do {
              prev \<leftarrow> log_index_prev (le_index entry);
              (h', _) \<leftarrow> stepdown_at grp (StepDownLogIndex prev) h;
              Some h'
            }
        }
      | _ \<Rightarrow> Some h)"

function pop_from :: "'o LeaderLog \<Rightarrow> LogIndex \<Rightarrow> EntryMac list \<Rightarrow> ('o LeaderLog \<times> EntryMac list) option" where
  "pop_from l index abandoned =
     (case ll_last_index l of
        None \<Rightarrow> None
      | Some last_idx \<Rightarrow>
          if last_idx \<ge> index then
            (case ll_pop_last l of
               None \<Rightarrow> None
             | Some (e, l') \<Rightarrow> pop_from l' index (abandoned @ [le_entry_mac (lle_entry e)]))
          else Some (l, abandoned))"
  by pat_completeness auto
termination
  by (relation "measure (\<lambda>(l, _). length l)") (auto simp: ll_pop_last_Some)

declare pop_from.simps [simp del]

text \<open>While stepping down, the persisted entries replace the ones that diverged.\<close>

definition capture_stepping_down :: "GroupId \<Rightarrow> LogEntry \<Rightarrow> 'o Hsm \<Rightarrow> 'o Hsm option" where
  "capture_stepping_down grp entry h =
     (case fmlookup (volatile_groups h) grp of
        Some role \<Rightarrow> (case rl_state role of
          SteppingDown sd \<Rightarrow> do {
            status \<leftarrow> has_log_diverged (sdn_log sd) entry;
            case status of
              LogOk \<Rightarrow> Some h
            | PriorIndex \<Rightarrow> Some h
            | EntryMacMismatch \<Rightarrow> do {
                let stepdown_at' = (case log_index_prev (le_index entry) of
                    Some prev \<Rightarrow> if prev < sdn_stepdown_at sd then prev else sdn_stepdown_at sd
                  | None \<Rightarrow> sdn_stepdown_at sd);
                (log, abandoned) \<leftarrow> pop_from (sdn_log sd) (le_index entry) (sdn_abandoned sd);
                log' \<leftarrow> ll_append log entry None;
                Some (set_role grp (role\<lparr>rl_state := SteppingDown (sd\<lparr>sdn_log := log', sdn_abandoned := abandoned,
                  sdn_stepdown_at := stepdown_at'\<rparr>)\<rparr>) h)
              }
            | FutureIndex \<Rightarrow> do {
                log' \<leftarrow> ll_append (sdn_log sd) entry None;
                Some (set_role grp (role\<lparr>rl_state := SteppingDown (sd\<lparr>sdn_log := log'\<rparr>)\<rparr>) h)
              }
          }
        | _ \<Rightarrow> Some h)
      | None \<Rightarrow> Some h)"

definition capture_check ::
  "(GroupId, LogIndex \<times> EntryMac) fmap \<Rightarrow> GroupId \<Rightarrow> LogEntry \<Rightarrow> (CaptureNextResponse option) option" where
  "capture_check captured grp entry =
     (case fmlookup captured grp of
        None \<Rightarrow>
          Some (if le_index entry \<noteq> log_index_first then Some CaptureNextMissingPrev
                else if le_prev_mac entry \<noteq> entry_mac_zero then Some CaptureNextInvalidChain
                else None)
      | Some (captured_index, captured_mac') \<Rightarrow> do {
          next_idx \<leftarrow> log_index_next captured_index;
          Some (if le_index entry \<noteq> next_idx then Some CaptureNextMissingPrev
                else if le_prev_mac entry \<noteq> captured_mac' then Some CaptureNextInvalidChain
                else None)
        })"

fun capture_entries ::
  "Platform \<Rightarrow> RealmId \<Rightarrow> GroupId \<Rightarrow> LogEntry list \<Rightarrow> 'o Hsm \<Rightarrow> ('o Hsm \<times> CaptureNextResponse option) option" where
  "capture_entries P realm grp [] h = Some (h, None)"
| "capture_entries P realm grp (entry # entries) h = do {
     m \<leftarrow> log_entry_mac (pf_mac P) (hsm_realm_keys h) (entry_mac_message realm grp entry);
     if m \<noteq> le_entry_mac entry then Some (h, Some CaptureNextInvalidMac)
     else do {
       check \<leftarrow> capture_check (volatile_captured h) grp entry;
       case check of
         Some e \<Rightarrow> Some (h, Some e)
       | None \<Rightarrow> do {
           let h1 = h\<lparr>volatile_captured := fmupd grp (le_index entry, le_entry_mac entry) (volatile_captured h)\<rparr>;
           h2 \<leftarrow> capture_as_leader grp entry h1;
           h3 \<leftarrow> capture_stepping_down grp entry h2;
           capture_entries P realm grp entries h3
         }
     }
   }"

record CaptureNextRequest =
  cn_realm :: RealmId
  cn_group :: GroupId
  cn_entries :: "LogEntry list"

definition handle_capture_next ::
  "Platform \<Rightarrow> 'o Hsm \<Rightarrow> CaptureNextRequest \<Rightarrow> ('o Hsm \<times> CaptureNextResponse) option" where
  "handle_capture_next P h req =
     (if cn_entries req = [] then Some (h, CaptureNextMissingEntries)
      else case is_group_member (hsm_persistent h) (cn_realm req) (cn_group req) of
        Inl GmInvalidRealm \<Rightarrow> Some (h, CaptureNextInvalidRealm)
      | Inl GmInvalidGroup \<Rightarrow> Some (h, CaptureNextInvalidGroup)
      | Inr _ \<Rightarrow> do {
          (h', early) \<leftarrow> capture_entries P (cn_realm req) (cn_group req) (cn_entries req) h;
          case early of
            Some r \<Rightarrow> Some (h', r)
          | None \<Rightarrow> do {
              role \<leftarrow> fmlookup (volatile_groups h') (cn_group req);
              Some (h', CaptureNextOk (role_status role))
            }
        })"

section \<open>Committing\<close>

record CommitRequest =
  cq_realm :: RealmId
  cq_group :: GroupId
  cq_captures :: "Captured list"

record 'o CommitState =
  cs_committed :: LogIndex
  cs_responses :: "(EntryMac \<times> 'o NoiseResponse \<times> AppResultType) list"
  cs_abandoned :: "EntryMac list"
  cs_role :: RoleStatus

datatype 'o CommitResponse =
    CommitOk "'o CommitState"
  | CommitNoQuorum
  | CommitInvalidRealm
  | CommitInvalidGroup
  | CommitNotLeader RoleStatus

text \<open>The vote a capture casts, if it is for this group, authentic and of an entry of this log.\<close>

definition cast_vote ::
  "Platform \<Rightarrow> RealmKeys \<Rightarrow> CommitRequest \<Rightarrow> 'o LeaderLog \<Rightarrow> Captured \<Rightarrow> HsmElection \<Rightarrow> HsmElection option" where
  "cast_vote P keys req log captured e =
     (if cap_group captured = cq_group req \<and> cap_realm captured = cq_realm req \<and>
         captured_mac (pf_mac P) keys (cap_hsm captured) (cap_realm captured) (cap_group captured)
           (cap_index captured) (cap_mac captured) = cap_statement captured
      then do {
        r \<leftarrow> ll_get_index log (cap_index captured);
        case r of
          None \<Rightarrow> Some e
        | Some log_entry \<Rightarrow>
            if le_entry_mac (lle_entry log_entry) = cap_mac captured
            then Some (election_vote e (cap_hsm captured) (cap_index captured))
            else Some e
      }
      else Some e)"

fun cast_votes ::
  "Platform \<Rightarrow> RealmKeys \<Rightarrow> CommitRequest \<Rightarrow> 'o LeaderLog \<Rightarrow> Captured list \<Rightarrow> HsmElection \<Rightarrow> HsmElection option" where
  "cast_votes P keys req log [] e = Some e"
| "cast_votes P keys req log (c # cs) e = do {
     e' \<leftarrow> cast_vote P keys req log c e;
     cast_votes P keys req log cs e'
   }"

function commit_pop ::
  "LogIndex \<Rightarrow> 'o LeaderLog \<Rightarrow> (EntryMac \<times> 'o NoiseResponse \<times> AppResultType) list \<Rightarrow>
   ('o LeaderLog \<times> (EntryMac \<times> 'o NoiseResponse \<times> AppResultType) list) option" where
  "commit_pop commit_index log responses =
     (case ll_first_index log of
        None \<Rightarrow> None
      | Some first_idx \<Rightarrow>
          if first_idx < commit_index then
            (case ll_pop_first log of
               None \<Rightarrow> None
             | Some (e, log') \<Rightarrow> commit_pop commit_index log'
                 (case lle_response e of
                    None \<Rightarrow> responses
                  | Some (r, g) \<Rightarrow> responses @ [(le_entry_mac (lle_entry e), r, g)]))
          else Some (log, responses))"
  by pat_completeness auto
termination
  by (relation "measure (\<lambda>(_, l, _). length l)") (auto simp: ll_pop_first_Some)

declare commit_pop.simps [simp del]

definition commit_log ::
  "LogIndex \<Rightarrow> 'o LeaderLog \<Rightarrow> ('o LeaderLog \<times> (EntryMac \<times> 'o NoiseResponse \<times> AppResultType) list) option" where
  "commit_log commit_index log = do {
     (log1, responses) \<leftarrow> commit_pop commit_index log [];
     first_idx \<leftarrow> ll_first_index log1;
     rust_assert (commit_index = first_idx);
     (res, log2) \<leftarrow> ll_take_first_response log1;
     Some (log2, case res of None \<Rightarrow> responses | Some r \<Rightarrow> responses @ [r])
   }"

text \<open>The log to commit, the index committed so far and the point to step down at.\<close>

definition commit_view :: "'o RoleVolatileState \<Rightarrow> ('o LeaderLog \<times> LogIndex option \<times> LogIndex option) option" where
  "commit_view s = (case s of
      Leader leader \<Rightarrow> Some (ld_log leader, ld_committed leader, None)
    | SteppingDown sd \<Rightarrow> Some (sdn_log sd, sdn_committed sd, Some (sdn_stepdown_at sd))
    | Witness \<Rightarrow> None)"

definition commit_bound :: "LogIndex \<Rightarrow> LogIndex option \<Rightarrow> LogIndex option \<Rightarrow> LogIndex" where
  "commit_bound outcome stepdown committed =
     (let commit1 = (case stepdown of None \<Rightarrow> outcome | Some s \<Rightarrow> min outcome s)
      in case committed of None \<Rightarrow> commit1 | Some c \<Rightarrow> max commit1 c)"

text \<open>The role after the commit, and the abandoned entries to report.\<close>

definition commit_role :: "'o RoleState \<Rightarrow> 'o LeaderLog \<Rightarrow> LogIndex \<Rightarrow> 'o RoleState \<times> EntryMac list" where
  "commit_role role log commit_index = (case rl_state role of
      Leader leader \<Rightarrow>
        (role\<lparr>rl_state := Leader (leader\<lparr>ld_log := log, ld_committed := Some commit_index\<rparr>)\<rparr>, [])
    | SteppingDown sd \<Rightarrow>
        (let r1 = role\<lparr>rl_state := SteppingDown (sd\<lparr>sdn_log := log, sdn_committed := Some commit_index,
               sdn_abandoned := []\<rparr>)\<rparr>
         in (if commit_index \<ge> sdn_stepdown_at sd then snd (make_witness r1) else r1, sdn_abandoned sd))
    | Witness \<Rightarrow> (role, []))"

definition handle_commit ::
  "Platform \<Rightarrow> 'o Hsm \<Rightarrow> CommitRequest \<Rightarrow> ('o Hsm \<times> 'o CommitResponse) option" where
  "handle_commit P h req =
     (case is_group_member (hsm_persistent h) (cq_realm req) (cq_group req) of
        Inl GmInvalidRealm \<Rightarrow> Some (h, CommitInvalidRealm)
      | Inl GmInvalidGroup \<Rightarrow> Some (h, CommitInvalidGroup)
      | Inr g \<Rightarrow> do {
          role \<leftarrow> fmlookup (volatile_groups h) (cq_group req);
          case commit_view (rl_state role) of
            None \<Rightarrow> Some (h, CommitNotLeader (role_status role))
          | Some (log, committed, stepdown) \<Rightarrow> do {
              e0 \<leftarrow> election_new (config_hsms (pg_configuration g));
              e \<leftarrow> cast_votes P (hsm_realm_keys h) req log (cq_captures req) e0;
              case election_outcome e of
                Inl _ \<Rightarrow> Some (h, CommitNoQuorum)
              | Inr outcome \<Rightarrow> do {
                  let commit_index = commit_bound outcome stepdown committed;
                  (log', responses) \<leftarrow> commit_log commit_index log;
                  let (role', abandoned) = commit_role role log' commit_index;
                  Some (set_role (cq_group req) role' h,
                    CommitOk \<lparr>cs_committed = commit_index, cs_responses = responses, cs_abandoned = abandoned,
                      cs_role = role_status role'\<rparr>)
                }
            }
        })"

section \<open>Capturing keeps the invariant\<close>

definition capture_keeps :: "'o RoleVolatileState \<Rightarrow> 'o RoleVolatileState \<Rightarrow> bool" where
  "capture_keeps s s' = (case (s, s') of
      (Leader l, Leader l') \<Rightarrow> l' = l
    | (SteppingDown a, SteppingDown b) \<Rightarrow>
        sdn_leader_starting_index b = sdn_leader_starting_index a \<and> sdn_committed b = sdn_committed a \<and>
        sdn_stepdown_at b \<le> sdn_stepdown_at a
    | (Witness, Witness) \<Rightarrow> True
    | _ \<Rightarrow> False)"

text \<open>Capturing leaves a role or ends a leadership, so that the captures of one request compose.\<close>

definition capture_evolves :: "'o RoleState \<Rightarrow> 'o RoleState \<Rightarrow> bool" where
  "capture_evolves r r' \<longleftrightarrow>
     rl_at r' = rl_at r \<and> capture_keeps (rl_state r) (rl_state r') \<or>
     rl_at r' = role_clock_next (rl_at r) \<and> (\<exists>l. rl_state r = Leader l) \<and> role_switch (rl_state r) (rl_state r')"

definition hsm_captures :: "'o Hsm \<Rightarrow> 'o Hsm \<Rightarrow> bool" where
  "hsm_captures h h' \<longleftrightarrow>
     hsm_realm_keys h' = hsm_realm_keys h \<and> hsm_options h' = hsm_options h \<and>
     hsm_persistent h' = hsm_persistent h \<and> hsm_writer h' = hsm_writer h \<and>
     (\<forall>grp. capture_le (fmlookup (volatile_captured h) grp) (fmlookup (volatile_captured h') grp)) \<and>
     (\<forall>grp role. fmlookup (volatile_groups h) grp = Some role \<longrightarrow>
        (\<exists>role'. fmlookup (volatile_groups h') grp = Some role' \<and> capture_evolves role role'))"

lemma capture_evolves_refl [simp]: "capture_evolves r r"
  by (auto simp: capture_evolves_def capture_keeps_def split: RoleVolatileState.splits)

lemma capture_evolves_trans: "capture_evolves a b \<Longrightarrow> capture_evolves b c \<Longrightarrow> capture_evolves a c"
  by (auto simp: capture_evolves_def capture_keeps_def role_switch_def split: RoleVolatileState.splits)

lemma capture_evolves_role: "capture_evolves a b \<Longrightarrow> role_evolves a b"
  by (auto simp: capture_evolves_def capture_keeps_def role_evolves_def role_progress_def split: RoleVolatileState.splits)

lemma hsm_captures_refl [simp]: "hsm_captures h h"
  by (auto simp: hsm_captures_def)

lemma hsm_captures_trans:
  assumes "hsm_captures a b" "hsm_captures b c"
  shows "hsm_captures a c"
proof -
  have "\<exists>role'. fmlookup (volatile_groups c) grp = Some role' \<and> capture_evolves role role'"
    if "fmlookup (volatile_groups a) grp = Some role" for grp role
    using assms that unfolding hsm_captures_def by (meson capture_evolves_trans)
  moreover have "capture_le (fmlookup (volatile_captured a) grp) (fmlookup (volatile_captured c) grp)" for grp
    using assms unfolding hsm_captures_def by (meson capture_le_trans)
  ultimately show ?thesis
    using assms unfolding hsm_captures_def by simp
qed

lemma hsm_captures_evolves: "hsm_captures h h' \<Longrightarrow> hsm_evolves h h'"
  unfolding hsm_captures_def hsm_evolves_def by (auto intro: capture_evolves_role) (meson capture_evolves_role)

lemma captures_set_role:
  assumes "hsm_inv P h" "is_group_member (hsm_persistent h) realm grp = Inr g"
    and "fmlookup (volatile_groups h) grp = Some role" "capture_evolves role role'"
    and "role_inv (pf_mac P) (hsm_realm_keys h) realm grp (rl_state role')"
  shows "hsm_inv P (set_role grp role' h)" "hsm_captures h (set_role grp role' h)"
  using step_ok_set_role [OF assms(1-3) capture_evolves_role [OF assms(4)] assms(5)] assms(3,4)
  by (auto simp: step_ok_def hsm_captures_def set_role_def)

lemma has_log_diverged_Some:
  assumes "ll_inv l" "has_log_diverged l entry = Some status"
  shows "status = FutureIndex \<Longrightarrow> le_index (last (ll_entries l)) < le_index entry"
    and "status = EntryMacMismatch \<Longrightarrow>
      le_index (hd (ll_entries l)) \<le> le_index entry \<and> le_index entry \<le> le_index (last (ll_entries l))"
  using assms ll_inv_not_Nil [OF assms(1)]
  by (auto simp: has_log_diverged_def ll_index_simps panic_simps split: if_splits)

lemma log_index_prev_Some:
  assumes "log_index_prev i = Some p"
  shows "p < i" "p = i - 1" "unat i = Suc (unat p)"
proof -
  have p: "p = i - 1" "\<not> i \<le> 1"
    using assms by (auto simp: log_index_prev_def split: if_splits)
  then have "i \<noteq> 0"
    by auto
  then have "unat p = unat i - 1" "unat i \<noteq> 0"
    using p(1) by (auto simp: unat_minus_one unat_eq_zero)
  then show "p < i" "p = i - 1" "unat i = Suc (unat p)"
    using p(1) by (auto simp: word_less_nat_alt)
qed

lemma capture_as_leader_ok:
  assumes inv: "hsm_inv P h" and g: "is_group_member (hsm_persistent h) realm grp = Inr g"
    and run: "capture_as_leader grp entry h = Some h'"
  shows "hsm_inv P h' \<and> hsm_captures h h'"
proof -
  obtain role where role: "fmlookup (volatile_groups h) grp = Some role"
    "role_inv (pf_mac P) (hsm_realm_keys h) realm grp (rl_state role)"
    using hsm_inv_role [OF inv g] by blast
  have down: ?thesis if "stepdown_at grp stepdown h = Some (h', r)"
    "\<And>leader i. rl_state role = Leader leader \<Longrightarrow> stepdown = StepDownLogIndex i \<Longrightarrow>
      i \<le> le_index (last (ll_entries (ld_log leader)))" for stepdown r
    using stepdown_at_cases [OF that(1) role that(2)] inv captures_set_role [OF inv g role(1)]
    by (auto simp: capture_evolves_def)
  show ?thesis
  proof (cases "rl_state role")
    case (Leader ls)
    then have ls: "ll_inv (ld_log ls)"
      using role by (simp add: role_inv_def leader_inv_def)
    obtain status where status: "has_log_diverged (ld_log ls) entry = Some status"
      using run role Leader by (auto simp: capture_as_leader_def panic_simps)
    note d = has_log_diverged_Some [OF ls status]
    show ?thesis
    proof (cases status)
      case FutureIndex
      then show ?thesis
        using run role Leader status by (auto simp: capture_as_leader_def panic_simps intro!: down)
    next
      case EntryMacMismatch
      then obtain prev r where prev: "log_index_prev (le_index entry) = Some prev"
        and sd: "stepdown_at grp (StepDownLogIndex prev) h = Some (h', r)"
        using run role Leader status by (auto simp: capture_as_leader_def panic_simps)
      have "prev \<le> le_index (last (ll_entries (ld_log ls)))"
        using d(2) [OF EntryMacMismatch] log_index_prev_Some(1) [OF prev] by (meson less_imp_le order_trans)
      then show ?thesis
        using Leader by (auto intro!: down [OF sd])
    qed (use run role Leader status inv in \<open>auto simp: capture_as_leader_def\<close>)
  qed (use run role inv in \<open>auto simp: capture_as_leader_def\<close>)
qed

lemma pop_from_Some:
  "ll_inv l \<Longrightarrow> pop_from l i ab = Some (l', ab') \<Longrightarrow>
   \<exists>pop. l = l' @ pop \<and> l' \<noteq> [] \<and> le_index (last (ll_entries l')) < i \<and>
     (pop \<noteq> [] \<longrightarrow> i \<le> le_index (hd (ll_entries pop))) \<and> ab' = ab @ rev (map le_entry_mac (ll_entries pop))"
proof (induction l i ab rule: pop_from.induct)
  case (1 l i ab)
  note l = ll_inv_not_Nil [OF 1(2)]
  show ?case
  proof (cases "le_index (last (ll_entries l)) \<ge> i")
    case True
    then obtain e l1 where pop: "ll_pop_last l = Some (e, l1)"
      and run: "pop_from l1 i (ab @ [le_entry_mac (lle_entry e)]) = Some (l', ab')"
      using 1(3) l by (subst (asm) pop_from.simps) (auto simp: ll_index_simps split: option.splits)
    obtain pop where "l1 = l' @ pop" "l' \<noteq> []" "le_index (last (ll_entries l')) < i"
      "pop \<noteq> [] \<longrightarrow> i \<le> le_index (hd (ll_entries pop))"
      "ab' = (ab @ [le_entry_mac (lle_entry e)]) @ rev (map le_entry_mac (ll_entries pop))"
      using 1(1) [OF _ _ pop refl ll_pop_last_inv [OF 1(2) pop] run] True l by (auto simp: ll_index_simps)
    then show ?thesis
      using pop True by (intro exI [of _ "pop @ [e]"]) (auto simp: ll_pop_last_Some hd_append)
  next
    case False
    then show ?thesis
      using 1(3) l by (subst (asm) pop_from.simps) (auto simp: ll_index_simps split: if_splits)
  qed
qed

lemma stepping_down_append:
  assumes "stepping_down_inv A keys realm grp sd" "entry_authentic A keys realm grp entry"
    and "sdn_log sd = log @ pop" "log \<noteq> []" "ll_append log entry None = Some log'"
    and "le_index (hd (ll_entries (sdn_log sd))) \<le> at"
    and "1 < sdn_leader_starting_index sd \<Longrightarrow> at \<le> le_index entry"
  shows "stepping_down_inv A keys realm grp (sd\<lparr>sdn_log := log', sdn_abandoned := ab, sdn_stepdown_at := at\<rparr>)"
proof -
  have log: "ll_inv log" "log_authentic A keys realm grp log" "committed_inv (sdn_committed sd) log"
    "started_before (sdn_leader_starting_index sd) log"
    using log_prefix_inv [of log pop] assms(1,3,4) by (auto simp: stepping_down_inv_def)
  have log': "log' = log @ [\<lparr>lle_entry = entry, lle_response = None\<rparr>]" "ll_inv log'"
    using assms(5) log(1) ll_append_Some ll_append_inv by blast+
  then show ?thesis
    using log assms by (auto simp: stepping_down_inv_def log_authentic_def committed_inv_def started_before_def ll_index_simps)
qed

lemma entries_hd_le_last: "ll_inv l \<Longrightarrow> le_index (hd (ll_entries l)) \<le> le_index (last (ll_entries l))"
  by (auto simp: ll_inv_def intro!: entries_chain_le_last(1))

lemma capture_stepping_down_ok:
  assumes inv: "hsm_inv P h" and g: "is_group_member (hsm_persistent h) realm grp = Inr g"
    and auth: "entry_authentic (pf_mac P) (hsm_realm_keys h) realm grp entry"
    and run: "capture_stepping_down grp entry h = Some h'"
  shows "hsm_inv P h' \<and> hsm_captures h h'"
proof -
  obtain role where role: "fmlookup (volatile_groups h) grp = Some role"
    "role_inv (pf_mac P) (hsm_realm_keys h) realm grp (rl_state role)"
    using hsm_inv_role [OF inv g] by blast
  show ?thesis
  proof (cases "rl_state role")
    case (SteppingDown sd)
    then have sd: "stepping_down_inv (pf_mac P) (hsm_realm_keys h) realm grp sd" "ll_inv (sdn_log sd)"
      "le_index (hd (ll_entries (sdn_log sd))) \<le> sdn_stepdown_at sd"
      using role by (auto simp: role_inv_def stepping_down_inv_def)
    have set_ok: ?thesis
      if "h' = set_role grp (role\<lparr>rl_state := SteppingDown (sd\<lparr>sdn_log := log', sdn_abandoned := ab, sdn_stepdown_at := at\<rparr>)\<rparr>) h"
        "at \<le> sdn_stepdown_at sd"
        "stepping_down_inv (pf_mac P) (hsm_realm_keys h) realm grp (sd\<lparr>sdn_log := log', sdn_abandoned := ab, sdn_stepdown_at := at\<rparr>)"
      for log' ab at
      using captures_set_role [OF inv g role(1)] that SteppingDown
      by (auto simp: role_inv_def capture_evolves_def capture_keeps_def)
    obtain status where status: "has_log_diverged (sdn_log sd) entry = Some status"
      using run role SteppingDown by (auto simp: capture_stepping_down_def panic_simps)
    note d = has_log_diverged_Some [OF sd(2) status]
    show ?thesis
    proof (cases status)
      case FutureIndex
      obtain log' where log': "ll_append (sdn_log sd) entry None = Some log'"
        "h' = set_role grp (role\<lparr>rl_state := SteppingDown (sd\<lparr>sdn_log := log'\<rparr>)\<rparr>) h"
        using run role SteppingDown status FutureIndex by (auto simp: capture_stepping_down_def panic_simps)
      have "stepping_down_inv (pf_mac P) (hsm_realm_keys h) realm grp
        (sd\<lparr>sdn_log := log', sdn_abandoned := sdn_abandoned sd, sdn_stepdown_at := sdn_stepdown_at sd\<rparr>)"
        using sd(1,3) d(1) [OF FutureIndex] ll_inv_not_Nil [OF sd(2)]
        by (intro stepping_down_append [OF sd(1) auth _ _ log'(1), of "[]"]) (auto simp: stepping_down_inv_def)
      then show ?thesis
        using log'(2) by (intro set_ok [where log' = log' and ab = "sdn_abandoned sd" and at = "sdn_stepdown_at sd"]) auto
    next
      case EntryMacMismatch
      define at where "at = (case log_index_prev (le_index entry) of
          Some prev \<Rightarrow> if prev < sdn_stepdown_at sd then prev else sdn_stepdown_at sd
        | None \<Rightarrow> sdn_stepdown_at sd)"
      obtain log ab log' where pop: "pop_from (sdn_log sd) (le_index entry) (sdn_abandoned sd) = Some (log, ab)"
        and app: "ll_append log entry None = Some log'"
        and h': "h' = set_role grp (role\<lparr>rl_state := SteppingDown (sd\<lparr>sdn_log := log', sdn_abandoned := ab, sdn_stepdown_at := at\<rparr>)\<rparr>) h"
        using run role SteppingDown status EntryMacMismatch
        by (auto simp: capture_stepping_down_def at_def panic_simps Let_def)
      obtain popped where l: "sdn_log sd = log @ popped" "log \<noteq> []" "le_index (last (ll_entries log)) < le_index entry"
        using pop_from_Some [OF sd(2) pop] by blast
      have "le_index (hd (ll_entries log)) \<le> le_index (last (ll_entries log))"
        using l sd(2) log_prefix_inv(1) [of log popped] by (auto intro: entries_hd_le_last)
      then have hd: "unat (le_index (hd (ll_entries (sdn_log sd)))) < unat (le_index entry)"
        using l by (simp add: word_less_nat_alt word_le_nat_alt)
      have at: "at \<le> sdn_stepdown_at sd" "le_index (hd (ll_entries (sdn_log sd))) \<le> at"
        using sd(3) hd by (auto simp: at_def word_le_nat_alt word_less_nat_alt dest!: log_index_prev_Some(3) split: option.splits)
      have "at \<le> le_index entry" if "1 < sdn_leader_starting_index sd"
      proof -
        have "\<not> le_index entry \<le> 1"
          using that hd sd(1) by (simp add: stepping_down_inv_def started_before_def word_less_nat_alt word_le_nat_alt)
        then obtain prev where "log_index_prev (le_index entry) = Some prev"
          by (simp add: log_index_prev_def)
        moreover from this have "prev < le_index entry"
          by (rule log_index_prev_Some)
        ultimately show ?thesis
          by (auto simp: at_def)
      qed
      then show ?thesis
        by (intro set_ok [OF h' at(1)] stepping_down_append [OF sd(1) auth l(1,2) app at(2)])
    qed (use run role SteppingDown status inv in \<open>auto simp: capture_stepping_down_def\<close>)
  qed (use run role inv in \<open>auto simp: capture_stepping_down_def\<close>)
qed

lemma capture_check_None:
  assumes "capture_check c grp entry = Some None"
  shows "fmlookup c grp = None \<Longrightarrow> le_index entry = log_index_first \<and> le_prev_mac entry = entry_mac_zero"
    and "fmlookup c grp = Some (i, m) \<Longrightarrow> log_index_next i = Some (le_index entry) \<and> le_prev_mac entry = m"
  using assms by (auto simp: capture_check_def panic_simps split: if_splits)

lemma capture_advance:
  assumes inv: "hsm_inv P h" and g: "is_group_member (hsm_persistent h) realm grp = Inr g"
    and le: "\<And>j m'. fmlookup (volatile_captured h) grp = Some (j, m') \<Longrightarrow> j < i"
  shows "hsm_inv P (h\<lparr>volatile_captured := fmupd grp (i, m) (volatile_captured h)\<rparr>) \<and>
    hsm_captures h (h\<lparr>volatile_captured := fmupd grp (i, m) (volatile_captured h)\<rparr>)"
proof -
  have new: "capture_le (fmlookup (volatile_captured h) grp) (Some (i, m))"
    using le by (auto simp: capture_le_def split: option.splits)
  have mem: "grp |\<in>| fmdom (persistent_groups (hsm_persistent h))"
    using g by (auto simp: is_group_member_Inr persistent_groups_def fmlookup_dom_iff)
  have le: "capture_le (pg_captured g') (Some (i, m))"
    if "fmlookup (persistent_groups (hsm_persistent h)) grp = Some g'" for g'
    using inv that new capture_le_trans unfolding hsm_inv_def by blast
  show ?thesis
    using inv new mem le by (auto simp: hsm_inv_def hsm_captures_def)
qed

lemma capture_entries_ok:
  assumes "hsm_inv P h" "is_group_member (hsm_persistent h) realm grp = Inr g"
    and "capture_entries P realm grp entries h = Some (h', early)"
  shows "hsm_inv P h' \<and> hsm_captures h h'"
  using assms
proof (induction entries arbitrary: h)
  case (Cons entry entries)
  show ?case
  proof (cases "h' = h")
    case False
    let ?h1 = "h\<lparr>volatile_captured := fmupd grp (le_index entry, le_entry_mac entry) (volatile_captured h)\<rparr>"
    obtain h2 h3 where auth: "entry_authentic (pf_mac P) (hsm_realm_keys h) realm grp entry"
      and check: "capture_check (volatile_captured h) grp entry = Some None"
      and h2: "capture_as_leader grp entry ?h1 = Some h2" and h3: "capture_stepping_down grp entry h2 = Some h3"
      and rest: "capture_entries P realm grp entries h3 = Some (h', early)"
      using Cons.prems(3) False
      by (auto simp: panic_simps Let_def entry_authentic_def split: if_splits option.splits)
    have 1: "hsm_inv P ?h1 \<and> hsm_captures h ?h1"
      using Cons.prems(1,2) capture_check_None(2) [OF check]
      by (intro capture_advance) (auto simp: log_index_next_def intro: checked_add1_less)
    then have 2: "hsm_inv P h2 \<and> hsm_captures ?h1 h2"
      using Cons.prems(2) h2 by (intro capture_as_leader_ok [of P ?h1 realm]) auto
    then have g: "is_group_member (hsm_persistent h2) realm grp = Inr g" "hsm_realm_keys h2 = hsm_realm_keys h"
      using Cons.prems(2) by (auto simp: hsm_captures_def)
    then have 3: "hsm_inv P h3 \<and> hsm_captures h2 h3"
      using 2 auth h3 by (intro capture_stepping_down_ok [of P h2 realm]) auto
    then have "hsm_inv P h' \<and> hsm_captures h3 h'"
      using g(1) rest by (intro Cons.IH) (auto simp: hsm_captures_def)
    then show ?thesis
      using 1 2 3 hsm_captures_trans by blast
  qed (use Cons.prems in simp)
qed simp

lemma handle_capture_next_ok:
  assumes "hsm_inv P h"
  shows "wp (handle_capture_next P h req) (step_ok P h)"
proof (rule wpI)
  fix hr
  assume run: "handle_capture_next P h req = Some hr"
  show "step_ok P h hr"
  proof (cases "fst hr = h")
    case False
    then obtain g early where "is_group_member (hsm_persistent h) (cn_realm req) (cn_group req) = Inr g"
      "capture_entries P (cn_realm req) (cn_group req) (cn_entries req) h = Some (fst hr, early)"
      using run by (auto simp: handle_capture_next_def panic_simps split: if_splits sum.splits GroupMemberError.splits option.splits)
    then show ?thesis
      using capture_entries_ok [OF assms] hsm_captures_evolves unfolding step_ok_def by blast
  qed (use assms in \<open>simp add: step_ok_def\<close>)
qed

lemma handle_capture_jump_ok:
  assumes "hsm_inv P h"
  shows "wp (handle_capture_jump P h jump) (step_ok P h)"
proof (rule wpI)
  fix hr
  assume run: "handle_capture_jump P h jump = Some hr"
  show "step_ok P h hr"
  proof (cases "fst hr = h")
    case False
    then obtain g where g: "is_group_member (hsm_persistent h) (cap_realm jump) (cap_group jump) = Inr g"
      and lt: "\<And>j m. fmlookup (volatile_captured h) (cap_group jump) = Some (j, m) \<Longrightarrow> j < cap_index jump"
      and h': "fst hr = h\<lparr>volatile_captured := fmupd (cap_group jump) (cap_index jump, cap_mac jump) (volatile_captured h)\<rparr>"
      using run by (auto simp: handle_capture_jump_def panic_simps not_le split: if_splits sum.splits GroupMemberError.splits option.splits)
    show ?thesis
      using capture_advance [OF assms g, of "cap_index jump" "cap_mac jump"] lt hsm_captures_evolves
      unfolding step_ok_def h' by blast
  qed (use assms in \<open>simp add: step_ok_def\<close>)
qed

section \<open>The votes of a commit\<close>

definition valid_capture :: "Platform \<Rightarrow> RealmKeys \<Rightarrow> CommitRequest \<Rightarrow> 'o LeaderLog \<Rightarrow> Captured \<Rightarrow> bool" where
  "valid_capture P keys req log c \<longleftrightarrow>
     cap_group c = cq_group req \<and> cap_realm c = cq_realm req \<and> captured_authentic (pf_mac P) keys c \<and>
     (\<exists>e\<in>set (ll_entries log). le_index e = cap_index c \<and> le_entry_mac e = cap_mac c)"

text \<open>Every vote of the tally comes from a valid capture of the list.\<close>

definition votes_from ::
  "Platform \<Rightarrow> RealmKeys \<Rightarrow> CommitRequest \<Rightarrow> 'o LeaderLog \<Rightarrow> Captured set \<Rightarrow> HsmElection \<Rightarrow> bool" where
  "votes_from P keys req log cs e \<longleftrightarrow> (\<forall>hsm i. bt_get (votes e) hsm = Some (Some i) \<longrightarrow>
     (\<exists>c\<in>cs. valid_capture P keys req log c \<and> cap_hsm c = hsm \<and> cap_index c = i))"

definition has_voted :: "HsmElection \<Rightarrow> HsmId \<Rightarrow> bool" where
  "has_voted e hsm \<longleftrightarrow> (\<exists>i. bt_get (votes e) hsm = Some (Some i))"

definition votes_kept :: "HsmElection \<Rightarrow> HsmElection \<Rightarrow> bool" where
  "votes_kept e e' \<longleftrightarrow> (\<forall>hsm. has_voted e hsm \<longrightarrow> has_voted e' hsm)"

lemma bt_get_fold:
  "bt_inv m \<Longrightarrow> bt_get (fold (\<lambda>(k, v). bt_insert k v) (map (\<lambda>i. (i, w)) ks) m) k =
     (if k \<in> set ks then Some w else bt_get m k)"
  by (induction ks arbitrary: m) (auto simp: bt.invar_insert bt.get_insert)

lemma election_new_votes:
  assumes "election_new hs = Some e"
  shows "votes_from P keys req log {} e" "voters_of e = set hs" "election_inv e"
proof -
  have "bt_get (votes e) = (\<lambda>k. if k \<in> set hs then Some None else None)"
    using assms by (auto simp: election_new_def panic_simps Let_def bt_get_fold [OF bt.invar_empty] bt.get_empty)
  then show "votes_from P keys req log {} e" "voters_of e = set hs"
    by (auto simp: votes_from_def voters_of_def dom_def split: if_splits)
  show "election_inv e"
    using assms by (rule election_new_inv)
qed

lemma election_new_total: "hs \<noteq> [] \<Longrightarrow> \<exists>e. election_new hs = Some e"
  by (cases hs rule: rev_cases) (auto simp: election_new_def rust_assert_def bt_insert_not_Nil)

lemma cast_vote_ok:
  assumes "ll_inv log" "election_inv e" "votes_from P keys req log cs e"
  shows "\<exists>e'. cast_vote P keys req log c e = Some e' \<and> election_inv e' \<and> voters_of e' = voters_of e \<and>
    votes_from P keys req log (insert c cs) e' \<and>
    votes_kept e e' \<and> (valid_capture P keys req log c \<longrightarrow> cap_hsm c \<in> voters_of e \<longrightarrow> has_voted e' (cap_hsm c))"
proof -
  obtain r where r: "ll_get_index log (cap_index c) = Some r"
    "\<forall>x. r = Some x \<longleftrightarrow> x \<in> set log \<and> le_index (lle_entry x) = cap_index c"
    using ll_get_index_lookup [OF assms(1), of "cap_index c"] by blast
  have valid: "valid_capture P keys req log c \<longleftrightarrow> cap_group c = cq_group req \<and> cap_realm c = cq_realm req \<and>
    captured_authentic (pf_mac P) keys c \<and> (\<exists>x. r = Some x \<and> le_entry_mac (lle_entry x) = cap_mac c)"
    using r(2) by (auto simp: valid_capture_def ll_entries_def)
  have cast: "cast_vote P keys req log c e =
    Some (if valid_capture P keys req log c then election_vote e (cap_hsm c) (cap_index c) else e)"
    using r(1) by (auto simp: cast_vote_def valid captured_authentic_def split: option.splits)
  have inv: "bt_inv (votes e)"
    using assms(2) by (simp add: election_inv_def)
  show ?thesis
    unfolding cast using assms(2,3) inv
    by (auto simp: election_vote_inv election_vote_voters votes_from_def votes_kept_def has_voted_def)
      (auto simp: election_vote_def bt.get_insert voters_of_def split: option.splits if_splits)
qed

lemma cast_votes_ok:
  assumes "ll_inv log" "election_inv e" "votes_from P keys req log cs0 e"
  shows "\<exists>e'. cast_votes P keys req log cs e = Some e' \<and> election_inv e' \<and> voters_of e' = voters_of e \<and>
    votes_from P keys req log (cs0 \<union> set cs) e' \<and> votes_kept e e' \<and>
    (\<forall>c\<in>set cs. valid_capture P keys req log c \<longrightarrow> cap_hsm c \<in> voters_of e \<longrightarrow> has_voted e' (cap_hsm c))"
  using assms
proof (induction cs arbitrary: e cs0)
  case (Cons c cs)
  obtain e1 where e1: "cast_vote P keys req log c e = Some e1" "election_inv e1" "voters_of e1 = voters_of e"
    "votes_from P keys req log (insert c cs0) e1" "votes_kept e e1"
    "valid_capture P keys req log c \<longrightarrow> cap_hsm c \<in> voters_of e \<longrightarrow> has_voted e1 (cap_hsm c)"
    using cast_vote_ok [OF Cons.prems] by blast
  then show ?case
    using Cons.IH [OF Cons.prems(1) e1(2,4)] by (auto simp: votes_kept_def)
qed (simp add: votes_kept_def)

lemma supporters_nonempty_outcome:
  assumes "election_inv e" "election_outcome e = Inr i"
  shows "\<exists>hsm. bt_get (votes e) hsm = Some (Some i)"
proof -
  let ?xs = "List.map_filter snd (votes e)"
  have "i \<in> set ?xs"
    using assms(2) nth_mem [of "length (votes e) div 2" "rev (sort ?xs)"]
    by (auto simp: election_outcome_def Let_def split: if_splits)
  then obtain hsm where "(hsm, Some i) \<in> set (votes e)"
    by (force simp: List.map_filter_def)
  then show ?thesis
    using assms(1) by (auto simp: election_inv_def bt.in_entries)
qed

section \<open>Committing a prefix of the log\<close>

definition responses_of :: "'o LeaderLog \<Rightarrow> (EntryMac \<times> 'o NoiseResponse \<times> AppResultType) list" where
  "responses_of = List.map_filter (\<lambda>e. map_option (\<lambda>(r, g). (le_entry_mac (lle_entry e), r, g)) (lle_response e))"

lemma responses_of_simps [simp]:
  "responses_of [] = []"
  "responses_of (e # l) = (case lle_response e of
      None \<Rightarrow> responses_of l
    | Some (r, g) \<Rightarrow> (le_entry_mac (lle_entry e), r, g) # responses_of l)"
  "responses_of (l @ l') = responses_of l @ responses_of l'"
  by (auto simp: responses_of_def List.map_filter_def split: option.splits)

lemma log_split:
  assumes "ll_inv l" "le_index (hd (ll_entries l)) \<le> c" "c \<le> le_index (last (ll_entries l))"
  shows "\<exists>pre e post. l = pre @ e # post \<and> le_index (lle_entry e) = c"
proof -
  let ?es = "ll_entries l"
  define k where "k = unat c - unat (le_index (hd ?es))"
  have l: "l \<noteq> []" and chain: "entries_chain ?es"
    using assms(1) by (auto simp: ll_inv_def)
  have "unat (le_index (last ?es)) = unat (le_index (hd ?es)) + (length l - 1)"
    using entries_chain_nth [OF chain, of "length l - 1"] l by (simp add: last_conv_nth hd_conv_nth)
  then have "k \<le> length l - 1"
    using assms(3) unfolding k_def word_le_nat_alt by linarith
  then have k: "k < length l"
    using l by (cases l) auto
  then have "unat (le_index (lle_entry (l ! k))) = unat c"
    using entries_chain_nth [OF chain, of k] assms(2) l
    by (simp add: k_def ll_entries_hd_last hd_conv_nth word_le_nat_alt)
  then show ?thesis
    using id_take_nth_drop [OF k] by (metis word_unat_eq_iff)
qed

lemma commit_pop_exact:
  "ll_inv (pre @ e # post) \<Longrightarrow>
   commit_pop (le_index (lle_entry e)) (pre @ e # post) rs = Some (e # post, rs @ responses_of pre)"
proof (induction pre arbitrary: rs)
  case Nil
  then show ?case
    by (subst commit_pop.simps) (simp add: ll_index_simps)
next
  case (Cons x pre)
  have "le_index (lle_entry x) < le_index (lle_entry e)"
    using entries_chain_sorted [of "ll_entries ((x # pre) @ e # post)"] Cons.prems by (simp add: ll_inv_def)
  moreover have pop: "ll_pop_first ((x # pre) @ e # post) = Some (x, pre @ e # post)"
    by (simp add: ll_pop_first_Some)
  ultimately show ?case
    using Cons.IH [OF ll_pop_first_inv [OF Cons.prems pop]]
    by (subst commit_pop.simps) (auto simp: ll_index_simps split: option.splits)
qed

lemma commit_log_splits:
  assumes "ll_inv l" "le_index (hd (ll_entries l)) \<le> c" "c \<le> le_index (last (ll_entries l))"
  obtains pre e post where "l = pre @ e # post" "le_index (lle_entry e) = c"
    "commit_log c l = Some (e\<lparr>lle_response := None\<rparr> # post, responses_of (pre @ [e]))"
proof -
  obtain pre e post where l: "l = pre @ e # post" "le_index (lle_entry e) = c"
    using log_split [OF assms] by blast
  have "commit_log c l = Some (e\<lparr>lle_response := None\<rparr> # post, responses_of (pre @ [e]))"
    using commit_pop_exact [of pre e post "[]"] assms(1) l
    by (auto simp: commit_log_def ll_index_simps rust_assert_def ll_take_first_response_def split: option.splits)
  then show thesis
    using l that by blast
qed

lemma commit_view_inv:
  assumes "role_inv A keys realm grp s" "commit_view s = Some (l, committed, stepdown)"
  shows "ll_inv l" "log_authentic A keys realm grp l" "committed_inv committed l"
    and "\<And>i. stepdown = Some i \<Longrightarrow> le_index (hd (ll_entries l)) \<le> i"
  using assms by (auto simp: commit_view_def role_inv_def leader_inv_def stepping_down_inv_def split: RoleVolatileState.splits)

lemma commit_bound_range:
  assumes "ll_inv l" "committed_inv committed l" "\<And>i. stepdown = Some i \<Longrightarrow> le_index (hd (ll_entries l)) \<le> i"
    and "e \<in> set (ll_entries l)" "le_index e = outcome"
  shows "le_index (hd (ll_entries l)) \<le> commit_bound outcome stepdown committed"
    and "commit_bound outcome stepdown committed \<le> le_index (last (ll_entries l))"
    and "committed_le committed (Some (commit_bound outcome stepdown committed))"
    and "commit_bound outcome stepdown committed \<le> outcome \<or> committed = Some (commit_bound outcome stepdown committed)"
proof -
  have e: "le_index (hd (ll_entries l)) \<le> outcome" "outcome \<le> le_index (last (ll_entries l))"
    using entries_chain_le_last [of "ll_entries l" e] assms by (auto simp: ll_inv_def)
  have c: "committed = Some c \<Longrightarrow> c = le_index (hd (ll_entries l))" for c
    using assms(1,2) by (auto simp: committed_inv_def ll_index_simps ll_inv_def)
  show "le_index (hd (ll_entries l)) \<le> commit_bound outcome stepdown committed"
    "commit_bound outcome stepdown committed \<le> le_index (last (ll_entries l))"
    "committed_le committed (Some (commit_bound outcome stepdown committed))"
    "commit_bound outcome stepdown committed \<le> outcome \<or> committed = Some (commit_bound outcome stepdown committed)"
    using e c assms(3) entries_hd_le_last [OF assms(1)]
    by (auto simp: commit_bound_def committed_le_def Let_def min_def max_def split: option.splits)
qed

lemma log_suffix_inv:
  assumes "ll_inv (pre @ e # post)"
  shows "ll_inv (e\<lparr>lle_response := None\<rparr> # post)"
    and "log_authentic A keys realm grp (pre @ e # post) \<Longrightarrow> log_authentic A keys realm grp (e\<lparr>lle_response := None\<rparr> # post)"
    and "started_before start (pre @ e # post) \<Longrightarrow> started_before start (e\<lparr>lle_response := None\<rparr> # post)"
    and "last (ll_entries (pre @ e # post)) = last (ll_entries (e\<lparr>lle_response := None\<rparr> # post))"
proof -
  show "ll_inv (e\<lparr>lle_response := None\<rparr> # post)"
    using assms by (auto simp: ll_inv_def entries_chain_append entries_chain_Cons)
  show "log_authentic A keys realm grp (e\<lparr>lle_response := None\<rparr> # post)" if "log_authentic A keys realm grp (pre @ e # post)"
    using that by (simp add: log_authentic_def)
  show "last (ll_entries (pre @ e # post)) = last (ll_entries (e\<lparr>lle_response := None\<rparr> # post))"
    by simp
  have "le_index (hd (ll_entries (pre @ e # post))) \<le> le_index (lle_entry e)"
    using assms by (intro entries_chain_le_last(1)) (auto simp: ll_inv_def)
  then show "started_before start (e\<lparr>lle_response := None\<rparr> # post)" if "started_before start (pre @ e # post)"
    using that by (simp add: started_before_def word_le_nat_alt)
qed

lemma commit_role_ok:
  assumes "role_inv A keys realm grp (rl_state role)" "commit_view (rl_state role) = Some (pre @ e # post, committed, stepdown)"
    and "committed_le committed (Some (le_index (lle_entry e)))"
  shows "role_evolves role (fst (commit_role role (e\<lparr>lle_response := None\<rparr> # post) (le_index (lle_entry e))))"
    and "role_inv A keys realm grp (rl_state (fst (commit_role role (e\<lparr>lle_response := None\<rparr> # post) (le_index (lle_entry e)))))"
proof -
  note l = log_suffix_inv [OF commit_view_inv(1) [OF assms(1,2)]]
  show "role_evolves role (fst (commit_role role (e\<lparr>lle_response := None\<rparr> # post) (le_index (lle_entry e))))"
    using assms by (auto simp: commit_role_def commit_view_def Let_def role_evolves_def role_progress_def role_switch_def
        make_witness_def role_transition_def have_same_role_def split: RoleVolatileState.splits)
  show "role_inv A keys realm grp (rl_state (fst (commit_role role (e\<lparr>lle_response := None\<rparr> # post) (le_index (lle_entry e)))))"
    using assms(1,2) l by (auto simp: commit_role_def commit_view_def Let_def role_inv_def leader_inv_def stepping_down_inv_def
        make_witness_def role_transition_def have_same_role_def committed_inv_def ll_index_simps
        split: RoleVolatileState.splits if_splits)
qed

section \<open>The outcome of a commit\<close>

text \<open>The members that captured the entry at an index or a later one, according to the request.\<close>

definition capturers :: "Platform \<Rightarrow> RealmKeys \<Rightarrow> CommitRequest \<Rightarrow> 'o LeaderLog \<Rightarrow> LogIndex \<Rightarrow> HsmId set" where
  "capturers P keys req log i =
     {hsm. \<exists>c\<in>set (cq_captures req). valid_capture P keys req log c \<and> cap_hsm c = hsm \<and> i \<le> cap_index c}"

definition tally_ok ::
  "Platform \<Rightarrow> RealmKeys \<Rightarrow> CommitRequest \<Rightarrow> 'o LeaderLog \<Rightarrow> HsmId set \<Rightarrow> HsmElection \<Rightarrow> bool" where
  "tally_ok P keys req l V e \<longleftrightarrow> election_inv e \<and> voters_of e = V \<and> votes_from P keys req l (set (cq_captures req)) e \<and>
     (\<forall>c\<in>set (cq_captures req). valid_capture P keys req l c \<longrightarrow> cap_hsm c \<in> V \<longrightarrow> has_voted e (cap_hsm c))"

text \<open>What a commit with the outcome \<open>i\<close> of the election does.\<close>

definition commit_result ::
  "Platform \<Rightarrow> 'o Hsm \<Rightarrow> CommitRequest \<Rightarrow> 'o RoleState \<Rightarrow> 'o LeaderLog \<Rightarrow> LogIndex option \<Rightarrow> LogIndex option \<Rightarrow> LogIndex \<Rightarrow> bool" where
  "commit_result P h req role l committed stepdown i \<longleftrightarrow> (let c = commit_bound i stepdown committed in
     \<exists>pre x post role' abandoned. l = pre @ x # post \<and> le_index (lle_entry x) = c \<and>
       committed_le committed (Some c) \<and> (c \<le> i \<or> committed = Some c) \<and>
       commit_role role (x\<lparr>lle_response := None\<rparr> # post) c = (role', abandoned) \<and>
       handle_commit P h req = Some (set_role (cq_group req) role' h, CommitOk \<lparr>cs_committed = c,
         cs_responses = responses_of (pre @ [x]), cs_abandoned = abandoned, cs_role = role_status role'\<rparr>))"

lemma handle_commit_runs:
  assumes "hsm_inv P h" "is_group_member (hsm_persistent h) (cq_realm req) (cq_group req) = Inr g"
    and role: "fmlookup (volatile_groups h) (cq_group req) = Some role"
    and view: "commit_view (rl_state role) = Some (l, committed, stepdown)"
  shows "\<exists>e. tally_ok P (hsm_realm_keys h) req l (set (config_hsms (pg_configuration g))) e \<and>
    (\<forall>x. election_outcome e = Inl x \<longrightarrow> handle_commit P h req = Some (h, CommitNoQuorum)) \<and>
    (\<forall>i. election_outcome e = Inr i \<longrightarrow> commit_result P h req role l committed stepdown i)"
proof -
  let ?keys = "hsm_realm_keys h" and ?hs = "config_hsms (pg_configuration g)"
  obtain realm_state where r: "pst_realm (hsm_persistent h) = Some realm_state" "fmlookup (pr_groups realm_state) (cq_group req) = Some g"
    using assms(2) by (auto simp: is_group_member_Inr)
  then have "config_inv (pst_id (hsm_persistent h)) (pg_configuration g)"
    using assms(1) by (auto simp: hsm_inv_def persistent_inv_def fmpred_iff)
  then have "?hs \<noteq> []"
    by (auto simp: config_inv_def)
  then obtain e0 where e0: "election_new ?hs = Some e0"
    using election_new_total by blast
  have rinv: "role_inv (pf_mac P) ?keys (cq_realm req) (cq_group req) (rl_state role)"
    using hsm_inv_role [OF assms(1,2)] role by auto
  note v = commit_view_inv [OF rinv view]
  obtain e where cast: "cast_votes P ?keys req l (cq_captures req) e0 = Some e" and e: "election_inv e" "voters_of e = voters_of e0"
    "votes_from P ?keys req l (set (cq_captures req)) e"
    "\<forall>c\<in>set (cq_captures req). valid_capture P ?keys req l c \<longrightarrow> cap_hsm c \<in> voters_of e0 \<longrightarrow> has_voted e (cap_hsm c)"
    using cast_votes_ok [OF v(1) election_new_votes(3) [OF e0] election_new_votes(1) [OF e0], of P ?keys req "cq_captures req"]
    by auto
  have "commit_result P h req role l committed stepdown i" if i: "election_outcome e = Inr i" for i
  proof -
    obtain hsm c where "valid_capture P ?keys req l c" "cap_index c = i"
      using supporters_nonempty_outcome [OF e(1) i] e(3) by (auto simp: votes_from_def)
    then obtain x0 where "x0 \<in> set (ll_entries l)" "le_index x0 = i"
      by (auto simp: valid_capture_def)
    note b = commit_bound_range [OF v(1,3,4) this]
    obtain pre x post where "l = pre @ x # post" "le_index (lle_entry x) = commit_bound i stepdown committed"
      "commit_log (commit_bound i stepdown committed) l = Some (x\<lparr>lle_response := None\<rparr> # post, responses_of (pre @ [x]))"
      using commit_log_splits [OF v(1) b(1,2)] by blast
    then show ?thesis
      using assms(2) role view e0 cast i b(3,4)
      by (cases "commit_role role (x\<lparr>lle_response := None\<rparr> # post) (commit_bound i stepdown committed)")
        (auto simp: handle_commit_def commit_result_def Let_def)
  qed
  moreover have "tally_ok P ?keys req l (set ?hs) e"
    using e election_new_votes(2) [OF e0] by (auto simp: tally_ok_def)
  moreover have "handle_commit P h req = Some (h, CommitNoQuorum)" if "election_outcome e = Inl x" for x
    using assms(2) role view e0 cast that by (simp add: handle_commit_def)
  ultimately show ?thesis
    by blast
qed

lemma handle_commit_not_view:
  assumes "hsm_inv P h"
  shows "(\<exists>r. handle_commit P h req = Some (h, r) \<and> (\<forall>s. r \<noteq> CommitOk s)) \<or>
    (\<exists>g role l committed stepdown. is_group_member (hsm_persistent h) (cq_realm req) (cq_group req) = Inr g \<and>
       fmlookup (volatile_groups h) (cq_group req) = Some role \<and> commit_view (rl_state role) = Some (l, committed, stepdown))"
proof (cases "is_group_member (hsm_persistent h) (cq_realm req) (cq_group req)")
  case (Inl x)
  then show ?thesis
    by (cases x) (auto simp: handle_commit_def)
next
  case (Inr g)
  then obtain role where "fmlookup (volatile_groups h) (cq_group req) = Some role"
    using hsm_inv_role [OF assms Inr] by blast
  then show ?thesis
    using Inr by (cases "commit_view (rl_state role)") (auto simp: handle_commit_def)
qed

lemma handle_commit_ok:
  assumes "hsm_inv P h"
  shows "\<exists>hr. handle_commit P h req = Some hr \<and> step_ok P h hr"
  using handle_commit_not_view [OF assms, of req]
proof (elim disjE exE conjE)
  fix g role l committed stepdown
  assume g: "is_group_member (hsm_persistent h) (cq_realm req) (cq_group req) = Inr g"
    and role: "fmlookup (volatile_groups h) (cq_group req) = Some role"
    and view: "commit_view (rl_state role) = Some (l, committed, stepdown)"
  obtain e where e: "\<forall>x. election_outcome e = Inl x \<longrightarrow> handle_commit P h req = Some (h, CommitNoQuorum)"
    "\<forall>i. election_outcome e = Inr i \<longrightarrow> commit_result P h req role l committed stepdown i"
    using handle_commit_runs [OF assms g role view] by blast
  have rinv: "role_inv (pf_mac P) (hsm_realm_keys h) (cq_realm req) (cq_group req) (rl_state role)"
    using hsm_inv_role [OF assms g] role by auto
  show ?thesis
  proof (cases "election_outcome e")
    case (Inr i)
    from e(2) [rule_format, OF Inr] obtain pre x post role' abandoned where x: "l = pre @ x # post"
      "commit_bound i stepdown committed = le_index (lle_entry x)" "committed_le committed (Some (le_index (lle_entry x)))"
      "commit_role role (x\<lparr>lle_response := None\<rparr> # post) (le_index (lle_entry x)) = (role', abandoned)"
      and run: "handle_commit P h req = Some (set_role (cq_group req) role' h, CommitOk \<lparr>cs_committed = commit_bound i stepdown committed,
         cs_responses = responses_of (pre @ [x]), cs_abandoned = abandoned, cs_role = role_status role'\<rparr>)"
      unfolding commit_result_def Let_def by metis
    then show ?thesis
      using commit_role_ok [OF rinv, of pre x post committed stepdown] view step_ok_set_role [OF assms g role, of role'] by auto
  qed (use e(1) assms in auto)
qed (use assms in auto)

lemma votes_from_supporters:
  "votes_from P keys req l (set (cq_captures req)) e \<Longrightarrow> supporters e i \<subseteq> capturers P keys req l i"
  by (fastforce simp: votes_from_def supporters_def capturers_def)

lemma commit_bound_ge:
  assumes "i \<le> outcome"
  shows "i \<le> commit_bound outcome None committed" "min i s \<le> commit_bound outcome (Some s) committed"
  using assms by (auto simp: commit_bound_def min_def max_def split: option.splits)

lemma commit_role_done:
  "commit_view (rl_state role) = Some (l, committed, Some s) \<Longrightarrow> s \<le> c \<Longrightarrow>
   fst (commit_role role l' c) = \<lparr>rl_state = Witness, rl_at = role_clock_next (rl_at role)\<rparr>"
  by (auto simp: commit_view_def commit_role_def make_witness_def role_transition_def have_same_role_def
      split: RoleVolatileState.splits)

section \<open>Properties\<close>

text \<open>
  C6: committing never panics, whatever captures the request carries, and it keeps the invariant
  of the HSM.
\<close>

theorem commit_never_panics:
  "hsm_inv P h \<Longrightarrow> \<exists>h' r. handle_commit P h req = Some (h', r) \<and> hsm_inv P h'"
  using handle_commit_ok [of P h req] by (auto simp: step_ok_def)

text \<open>
  C2: when a commit succeeds, the index it reports is that of an entry of this HSM's log and not
  before the index committed earlier.  It is either the index committed earlier, or a strict majority of
  the members of the group have captured that entry or a later one of this very log, as authenticated
  statements for this realm and group show.  The responses released are exactly those of the entries
  up to the commit index, in log order.
\<close>

theorem commit_safe:
  assumes "hsm_inv P h" "handle_commit P h req = Some (h', CommitOk st)"
  shows "\<exists>g role l committed stepdown pre x post.
    is_group_member (hsm_persistent h) (cq_realm req) (cq_group req) = Inr g \<and>
    fmlookup (volatile_groups h) (cq_group req) = Some role \<and>
    commit_view (rl_state role) = Some (l, committed, stepdown) \<and>
    l = pre @ x # post \<and> le_index (lle_entry x) = cs_committed st \<and> cs_responses st = responses_of (pre @ [x]) \<and>
    committed_le committed (Some (cs_committed st)) \<and>
    (committed = Some (cs_committed st) \<or>
     majority (set (config_hsms (pg_configuration g)))
       (capturers P (hsm_realm_keys h) req l (cs_committed st) \<inter> set (config_hsms (pg_configuration g))))"
  using handle_commit_not_view [OF assms(1), of req]
proof (elim disjE exE conjE)
  fix g role l committed stepdown
  assume g: "is_group_member (hsm_persistent h) (cq_realm req) (cq_group req) = Inr g"
    and role: "fmlookup (volatile_groups h) (cq_group req) = Some role"
    and view: "commit_view (rl_state role) = Some (l, committed, stepdown)"
  let ?V = "set (config_hsms (pg_configuration g))"
  obtain e where e: "election_inv e" "voters_of e = ?V" "votes_from P (hsm_realm_keys h) req l (set (cq_captures req)) e"
    "\<forall>x. election_outcome e = Inl x \<longrightarrow> handle_commit P h req = Some (h, CommitNoQuorum)"
    "\<forall>i. election_outcome e = Inr i \<longrightarrow> commit_result P h req role l committed stepdown i"
    using handle_commit_runs [OF assms(1) g role view] unfolding tally_ok_def by blast
  then obtain i where i: "election_outcome e = Inr i"
    using assms(2) by (cases "election_outcome e") auto
  have st: "cs_committed st = commit_bound i stepdown committed"
    using e(5) [rule_format, OF i] assms(2) by (auto simp: commit_result_def Let_def)
  have "majority ?V (capturers P (hsm_realm_keys h) req l (cs_committed st) \<inter> ?V)" if "cs_committed st \<le> i"
    using maj.quorum_mono [OF election_outcome_supporters(1) [OF e(1) i],
        of "capturers P (hsm_realm_keys h) req l (cs_committed st) \<inter> ?V"]
      supporters_mono [OF that, of e] votes_from_supporters [OF e(3), of "cs_committed st"] supporters_voters [of e] e(2) by auto
  then show ?thesis
    using e(5) [rule_format, OF i] g role view assms(2) unfolding commit_result_def Let_def st by force
qed (use assms(2) in auto)

definition example_captured :: "HsmId \<Rightarrow> LogIndex \<Rightarrow> EntryMac \<Rightarrow> Captured" where
  "example_captured hsm i m = \<lparr>cap_hsm = hsm, cap_realm = example_realm, cap_group = example_group, cap_index = i,
     cap_mac = m, cap_statement = captured_mac example_mac_alg example_keys hsm example_realm example_group i m\<rparr>"

definition example_commit :: CommitRequest where
  "example_commit = \<lparr>cq_realm = example_realm, cq_group = example_group,
     cq_captures = [example_captured hsm_a 2 (le_entry_mac log_entry_2), example_captured hsm_c 2 (le_entry_mac log_entry_2)]\<rparr>"

theorem commit_never_panics_witness:
  "\<exists>h' r. handle_commit example_platform example_hsm example_commit = Some (h', r) \<and> hsm_inv example_platform h'"
  by (rule commit_never_panics [OF example_hsm_ok])

lemma example_commit_runs:
  "map_option (\<lambda>(h', r). case r of CommitOk st \<Rightarrow> Some (cs_committed st, length (cs_responses st)) | _ \<Rightarrow> None)
     (handle_commit example_platform example_hsm example_commit) = Some (Some (2, 1))"
  by code_simp

theorem commit_safe_witness:
  "majority {hsm_a, hsm_b, hsm_c}
     (capturers example_platform example_keys example_commit (ld_log example_leader) 2 \<inter> {hsm_a, hsm_b, hsm_c})"
proof -
  obtain h' r where r: "handle_commit example_platform example_hsm example_commit = Some (h', r)"
    "(case r of CommitOk st \<Rightarrow> Some (cs_committed st, length (cs_responses st)) | _ \<Rightarrow> None) = Some (2, 1)"
    using example_commit_runs by auto
  then obtain st where run: "handle_commit example_platform example_hsm example_commit = Some (h', CommitOk st)"
    and st: "cs_committed st = 2"
    by (cases r) auto
  have g: "is_group_member (hsm_persistent example_hsm) (cq_realm example_commit) (cq_group example_commit) =
      Inr \<lparr>pg_configuration = GroupConfiguration [hsm_a, hsm_b, hsm_c], pg_captured = None\<rparr>"
    by (simp add: is_group_member_Inr example_hsm_def example_hsm_with_def example_persistent_def example_commit_def)
  show ?thesis
    using commit_safe [OF example_hsm_ok run] g st
    by (auto simp: example_hsm_def example_hsm_with_def example_commit_def commit_view_def example_leader_def)
qed

text \<open>
  C5: a commit makes progress.  If a strict majority of the group sent captures of this log that
  reach the index \<open>i\<close>, then the commit succeeds and commits at least up to \<open>i\<close>, or up to the point
  where this HSM steps down; an HSM that reaches that point has become a witness, at the next role
  clock.
\<close>

theorem commit_progress:
  assumes "hsm_inv P h" "is_group_member (hsm_persistent h) (cq_realm req) (cq_group req) = Inr g"
    and "fmlookup (volatile_groups h) (cq_group req) = Some role" "commit_view (rl_state role) = Some (l, committed, stepdown)"
    and "majority (set (config_hsms (pg_configuration g))) S"
    and "\<And>hsm. hsm \<in> S \<Longrightarrow> \<exists>c\<in>set (cq_captures req). valid_capture P (hsm_realm_keys h) req l c \<and> cap_hsm c = hsm"
    and "\<And>c. c \<in> set (cq_captures req) \<Longrightarrow> valid_capture P (hsm_realm_keys h) req l c \<Longrightarrow> cap_hsm c \<in> S \<Longrightarrow> i \<le> cap_index c"
  shows "\<exists>h' st. handle_commit P h req = Some (h', CommitOk st) \<and>
    (case stepdown of
       None \<Rightarrow> i \<le> cs_committed st
     | Some s \<Rightarrow> min i s \<le> cs_committed st \<and>
         (s \<le> i \<longrightarrow> fmlookup (volatile_groups h') (cq_group req) =
            Some \<lparr>rl_state = Witness, rl_at = role_clock_next (rl_at role)\<rparr>))"
proof -
  let ?V = "set (config_hsms (pg_configuration g))"
  obtain e where e: "tally_ok P (hsm_realm_keys h) req l ?V e"
    "\<forall>i. election_outcome e = Inr i \<longrightarrow> commit_result P h req role l committed stepdown i"
    using handle_commit_runs [OF assms(1-4)] by blast
  have S: "S \<subseteq> supporters e i"
  proof
    fix hsm
    assume hsm: "hsm \<in> S"
    then have "has_voted e hsm"
      using assms(5,6) e(1) unfolding tally_ok_def majority_def by blast
    then obtain j where j: "bt_get (votes e) hsm = Some (Some j)"
      unfolding has_voted_def by blast
    then have "i \<le> j"
      using assms(7) e(1) hsm unfolding tally_ok_def votes_from_def by blast
    then show "hsm \<in> supporters e i"
      using j by (auto simp: supporters_def)
  qed
  have maj: "majority (voters_of e) (supporters e i)"
    using maj.quorum_mono [OF assms(5) S] supporters_voters [of e i] e(1) by (simp add: tally_ok_def)
  have "election_inv e"
    using e(1) by (simp add: tally_ok_def)
  then obtain k where k: "election_outcome e = Inr k" "i \<le> k"
    using election_no_quorum [of e _ i] election_outcome_supporters(2) [of e _ i] maj
    by (cases "election_outcome e") (auto simp: not_le [symmetric])
  then have "commit_result P h req role l committed stepdown k"
    using e(2) by blast
  then obtain l' role' abandoned st where r: "commit_role role l' (commit_bound k stepdown committed) = (role', abandoned)"
    "handle_commit P h req = Some (set_role (cq_group req) role' h, CommitOk st)" "cs_committed st = commit_bound k stepdown committed"
    unfolding commit_result_def Let_def by force
  show ?thesis
  proof (cases stepdown)
    case None
    then show ?thesis
      using r commit_bound_ge(1) [OF k(2)] by auto
  next
    case (Some s)
    then have "s \<le> i \<longrightarrow> role' = \<lparr>rl_state = Witness, rl_at = role_clock_next (rl_at role)\<rparr>"
      using commit_role_done [of role l committed s "commit_bound k stepdown committed" l'] assms(4) r(1)
        commit_bound_ge(2) [OF k(2), of s committed] by (auto simp: min_absorb2)
    then show ?thesis
      using r commit_bound_ge(2) [OF k(2)] Some by (auto simp: set_role_def)
  qed
qed

lemma example_captures_valid:
  "c \<in> set (cq_captures example_commit) \<Longrightarrow>
   valid_capture example_platform example_keys example_commit (ld_log example_leader) c \<and> cap_index c = 2"
  by (auto simp: example_commit_def valid_capture_def example_captured_def captured_authentic_def example_platform_def
      example_leader_def log_entry_2)

theorem commit_progress_witness:
  "\<exists>h' st. handle_commit example_platform example_hsm example_commit = Some (h', CommitOk st) \<and> 2 \<le> cs_committed st"
proof -
  let ?g = "\<lparr>pg_configuration = GroupConfiguration [hsm_a, hsm_b, hsm_c], pg_captured = None\<rparr>"
  have g: "is_group_member (hsm_persistent example_hsm) (cq_realm example_commit) (cq_group example_commit) = Inr ?g"
    by (simp add: is_group_member_Inr example_hsm_def example_hsm_with_def example_persistent_def example_commit_def)
  have role: "fmlookup (volatile_groups example_hsm) (cq_group example_commit) = Some \<lparr>rl_state = Leader example_leader, rl_at = 2\<rparr>"
    by (simp add: example_hsm_def example_hsm_with_def example_commit_def)
  have "majority (set (config_hsms (pg_configuration ?g))) {hsm_a, hsm_c}"
    using hsm_ids_less by (auto simp: majority_def card_insert_if)
  from commit_progress [OF example_hsm_ok g role _ this, of "ld_log example_leader" None None 2] show ?thesis
    using example_captures_valid
    by (auto simp: commit_view_def example_hsm_def example_hsm_with_def example_leader_def example_commit_def example_captured_def)
qed

end
