(* ===== verification/HsmStep.thy ===== *)
theory HsmStep
  imports HsmCommit HsmApp HsmTransfer
begin

text \<open>
  The HSM as a state machine: the dispatch of a decoded request to its handler
  (\<open>handle_request\<close> in \<open>src/hsm_core/src/hsm.rs\<close>), requests and reboots as the steps of a relation,
  and what holds along every run.  The locale \<open>step_invariant\<close> collects what a run inherits from its
  steps; it is interpreted for the steps of the HSM.
\<close>

section \<open>Requests\<close>

datatype 'o HsmRequest =
    ReqStatus
  | ReqNewRealm
  | ReqJoinRealm JoinRealmRequest
  | ReqNewGroup NewGroupRequest
  | ReqJoinGroup JoinGroupRequest
  | ReqBecomeLeader BecomeLeaderRequest
  | ReqStepDown StepDownRequest
  | ReqCaptureJump Captured
  | ReqCaptureNext CaptureNextRequest
  | ReqPersistState
  | ReqCommit CommitRequest
  | ReqPrepareTransfer PrepareTransferRequest
  | ReqCancelPreparedTransfer CancelPreparedTransferRequest
  | ReqTransferOut TransferOutRequest
  | ReqTransferStatement TransferStatementRequest
  | ReqTransferIn TransferInRequest
  | ReqCompleteTransfer CompleteTransferRequest
  | ReqHandshake "'o HandshakeRequest"
  | ReqApp "'o AppRequest"

datatype 'o HsmResponse =
    RespStatus StatusResponse
  | RespNewRealm NewRealmResponse
  | RespJoinRealm JoinRealmResponse
  | RespNewGroup NewGroupResponse
  | RespJoinGroup JoinGroupResponse
  | RespBecomeLeader BecomeLeaderResponse
  | RespStepDown StepDownResponse
  | RespCaptureJump CaptureJumpResponse
  | RespCaptureNext CaptureNextResponse
  | RespPersistState "(GroupId, Captured) fmap"
  | RespCommit "'o CommitResponse"
  | RespPrepareTransfer PrepareTransferResponse
  | RespCancelPreparedTransfer CancelPreparedTransferResponse
  | RespTransferOut TransferOutResponse
  | RespTransferStatement TransferStatementResponse
  | RespTransferIn TransferInResponse
  | RespCompleteTransfer CompleteTransferResponse
  | RespHandshake "'o HandshakeResponse"
  | RespApp AppResponse

text \<open>The random values a request may draw.\<close>

record HsmDraws =
  rd_realm :: bytes
  rd_group :: bytes
  rd_nonce :: bytes
  rd_noise :: bytes
  rd_app :: AppDraws

definition dispatch_request :: "('r \<Rightarrow> 'o HsmResponse) \<Rightarrow> ('o Hsm \<times> 'r) option \<Rightarrow> ('o Hsm \<times> 'o HsmResponse) option" where
  "dispatch_request wrap r = map_option (\<lambda>(h, x). (h, wrap x)) r"

definition handle_request ::
  "Platform \<Rightarrow> 'o NoiseAlg \<Rightarrow> 'o AppAlg \<Rightarrow> HsmDraws \<Rightarrow> 'o Hsm \<Rightarrow> 'o HsmRequest \<Rightarrow> ('o Hsm \<times> 'o HsmResponse) option" where
  "handle_request P N A draws h req = (case req of
      ReqApp r \<Rightarrow> dispatch_request RespApp (handle_app P N A (rd_app draws) h r)
    | ReqHandshake r \<Rightarrow> dispatch_request RespHandshake (handle_handshake N (rd_noise draws) h r)
    | ReqStatus \<Rightarrow> dispatch_request RespStatus (handle_status_request h)
    | ReqNewRealm \<Rightarrow> dispatch_request RespNewRealm (handle_new_realm P (rd_realm draws) (rd_group draws) h)
    | ReqJoinRealm r \<Rightarrow> dispatch_request RespJoinRealm (handle_join_realm P h r)
    | ReqNewGroup r \<Rightarrow> dispatch_request RespNewGroup (handle_new_group P (rd_group draws) h r)
    | ReqJoinGroup r \<Rightarrow> dispatch_request RespJoinGroup (handle_join_group P h r)
    | ReqBecomeLeader r \<Rightarrow> dispatch_request RespBecomeLeader (handle_become_leader P h r)
    | ReqStepDown r \<Rightarrow> dispatch_request RespStepDown (handle_stepdown_as_leader h r)
    | ReqCaptureJump r \<Rightarrow> dispatch_request RespCaptureJump (handle_capture_jump P h r)
    | ReqCaptureNext r \<Rightarrow> dispatch_request RespCaptureNext (handle_capture_next P h r)
    | ReqPersistState \<Rightarrow> dispatch_request RespPersistState (handle_persist_state P h)
    | ReqCommit r \<Rightarrow> dispatch_request RespCommit (handle_commit P h r)
    | ReqPrepareTransfer r \<Rightarrow> dispatch_request RespPrepareTransfer (handle_prepare_transfer P (rd_nonce draws) h r)
    | ReqCancelPreparedTransfer r \<Rightarrow> dispatch_request RespCancelPreparedTransfer (handle_cancel_prepared_transfer P h r)
    | ReqTransferOut r \<Rightarrow> dispatch_request RespTransferOut (handle_transfer_out P h r)
    | ReqTransferStatement r \<Rightarrow> dispatch_request RespTransferStatement (handle_transfer_statement P h r)
    | ReqTransferIn r \<Rightarrow> dispatch_request RespTransferIn (handle_transfer_in P h r)
    | ReqCompleteTransfer r \<Rightarrow> dispatch_request RespCompleteTransfer (handle_complete_transfer P h r))"

section \<open>Every request keeps the invariant\<close>

lemma handle_status_request_same: "wp (handle_status_request h) (\<lambda>hr. fst hr = h)"
  unfolding handle_status_request_def by (auto simp: wp_simps Let_def intro!: wpI)

lemma wp_dispatch:
  "wp m (step_ok P h) \<Longrightarrow> wp (dispatch_request f m) (step_ok P h)"
  by (auto simp: dispatch_request_def wp_def step_ok_def)

lemma handle_request_ok:
  assumes "hsm_inv P h"
  shows "wp (handle_request P N A draws h req) (step_ok P h)"
proof -
  have "wp (handle_status_request h) (step_ok P h)"
    by (rule wp_mono [OF handle_status_request_same]) (use assms in \<open>simp add: step_ok_def\<close>)
  moreover have "wp (handle_commit P h r) (step_ok P h)" for r
    using handle_commit_ok [OF assms, of r] by (auto simp: wp_def)
  ultimately show ?thesis
    using assms unfolding handle_request_def
    by (auto split: HsmRequest.splits intro!: wp_dispatch intro: handle_app_ok handle_handshake_ok handle_new_realm_ok
        handle_join_realm_ok handle_new_group_ok handle_join_group_ok handle_become_leader_ok
        handle_stepdown_as_leader_ok handle_capture_jump_ok handle_capture_next_ok handle_persist_state_ok
        handle_prepare_transfer_ok handle_cancel_prepared_transfer_ok handle_transfer_out_ok
        handle_transfer_statement_ok handle_transfer_in_ok handle_complete_transfer_ok)
qed

section \<open>Every request leaves NVRAM up to date\<close>

definition stores :: "Platform \<Rightarrow> 'o Hsm \<Rightarrow> 'o Hsm \<times> 'r \<Rightarrow> bool" where
  "stores P h hr \<longleftrightarrow>
     hsm_persistent (fst hr) = hsm_persistent h \<and> hsm_writer (fst hr) = hsm_writer h \<or>
     writer_finished P (hsm_writer h) (hsm_persistent (fst hr)) = Some (hsm_writer (fst hr))"

lemma stores_same [simp]: "stores P h (h, r)"
  by (simp add: stores_def)

lemma stores_set [simp]:
  "stores P h (set_role grp role h', r) \<longleftrightarrow> stores P h (h', r)"
  "stores P h (set_leader grp leader h', r) \<longleftrightarrow> stores P h (h', r)"
  by (auto simp: stores_def set_role_def set_leader_def split: option.splits)

lemma stores_mutated [simp]:
  "writer_finished P (hsm_writer h) s = Some w \<Longrightarrow> stores P h (h\<lparr>hsm_persistent := s, hsm_writer := w\<rparr>, r)"
  by (simp add: stores_def)

lemma wp_mutate [wp_simps]:
  "wp (hsm_mutate P f h) Q \<longleftrightarrow> (\<forall>s w. f (hsm_persistent h) = Some s \<longrightarrow> writer_finished P (hsm_writer h) s = Some w \<longrightarrow>
     Q (h\<lparr>hsm_persistent := s, hsm_writer := w\<rparr>))"
  by (auto simp: wp_def hsm_mutate_Some)

lemma handle_new_realm_stores: "wp (handle_new_realm P rr rg h) (stores P h)"
  unfolding handle_new_realm_def
  by (auto simp: wp_simps Let_def intro!: wpI split: option.splits prod.splits)

lemma handle_join_realm_stores: "wp (handle_join_realm P h req) (stores P h)"
  unfolding handle_join_realm_def
  by (auto simp: wp_simps Let_def intro!: wpI split: option.splits sum.splits RealmMemberError.splits)

lemma handle_new_group_stores: "wp (handle_new_group P rg h req) (stores P h)"
  unfolding handle_new_group_def
  by (auto simp: wp_simps Let_def intro!: wpI split: option.splits sum.splits)

lemma handle_join_group_stores: "wp (handle_join_group P h req) (stores P h)"
  unfolding handle_join_group_def
  by (auto simp: wp_simps Let_def intro!: wpI split: option.splits sum.splits)

lemma persist_current_captures_stores:
  "persist_current_captures P h = Some h' \<Longrightarrow> stores P h (h', r)"
  by (auto simp: persist_current_captures_def hsm_mutate_Some split: if_splits)

lemma handle_persist_state_stores: "wp (handle_persist_state P h) (stores P h)"
  unfolding handle_persist_state_def
  by (auto simp: wp_simps Let_def intro!: wpI persist_current_captures_stores)

lemma handle_become_leader_stores: "wp (handle_become_leader P h req) (stores P h)"
proof (cases "persist_current_captures P h")
  case (Some h1)
  show ?thesis
    by (rule wp_mono [OF handle_become_leader_cases [OF Some]]) (auto simp: persist_current_captures_stores [OF Some])
qed (simp add: handle_become_leader_def)

lemma stepdown_at_stores: "stepdown_at grp sd h = Some (h', r) \<Longrightarrow> stores P h (h', x)"
  by (auto simp: stepdown_at_def panic_simps Let_def split: option.splits RoleVolatileState.splits if_splits)

lemma handle_stepdown_as_leader_stores: "wp (handle_stepdown_as_leader h req) (stores P h)"
  unfolding handle_stepdown_as_leader_def
  by (auto simp: wp_simps Let_def intro!: wpI stepdown_at_stores
      split: sum.splits GroupMemberError.splits option.splits RoleVolatileState.splits prod.splits)

lemma handle_capture_jump_stores: "wp (handle_capture_jump P h jump) (stores P h)"
  unfolding handle_capture_jump_def
  by (auto simp: wp_simps Let_def stores_def intro!: wpI split: sum.splits GroupMemberError.splits option.splits)

lemma capture_entries_stores:
  assumes "hsm_inv P h" "is_group_member (hsm_persistent h) realm grp = Inr g"
    and "capture_entries P realm grp entries h = Some (h', early)"
  shows "stores P h (h', r)"
  using capture_entries_ok [OF assms] by (simp add: hsm_captures_def stores_def)

lemma handle_capture_next_stores: "hsm_inv P h \<Longrightarrow> wp (handle_capture_next P h req) (stores P h)"
  unfolding handle_capture_next_def
  by (auto simp: wp_simps Let_def intro!: wpI intro: capture_entries_stores
      split: sum.splits GroupMemberError.splits option.splits)

lemma handle_commit_stores: "wp (handle_commit P h req) (stores P h)"
  unfolding handle_commit_def
  by (auto simp: wp_simps Let_def intro!: wpI split: sum.splits GroupMemberError.splits option.splits prod.splits)

lemma handle_handshake_stores: "wp (handle_handshake N rnd h req) (stores P h)"
  unfolding handle_handshake_def
  by (auto simp: wp_simps Let_def intro!: wpI split: sum.splits RecordLeaderError.splits option.splits prod.splits)

lemma handle_app_stores: "wp (handle_app P N A draws h req) (stores P h)"
  unfolding handle_app_def
  by (auto simp: wp_simps Let_def intro!: wpI stepdown_at_stores split: sum.splits RecordLeaderError.splits)

lemma handle_transfers_store:
  "wp (handle_prepare_transfer P rnd h req1) (stores P h)"
  "wp (handle_transfer_out P h req2) (stores P h)"
  "wp (handle_transfer_statement P h req3) (stores P h)"
  "wp (handle_transfer_in P h req4) (stores P h)"
  "wp (handle_complete_transfer P h req5) (stores P h)"
  "wp (handle_cancel_prepared_transfer P h req6) (stores P h)"
  unfolding handle_prepare_transfer_def handle_transfer_out_def handle_transfer_statement_def handle_transfer_in_def
    handle_complete_transfer_def handle_cancel_prepared_transfer_def
  by (auto simp: wp_simps Let_def intro!: wpI
      split: sum.splits GroupLeaderError.splits option.splits Transferring.splits)

lemma wp_dispatch_stores:
  "wp m (stores P h) \<Longrightarrow> wp (dispatch_request f m) (stores P h)"
  by (auto simp: dispatch_request_def wp_def stores_def)

lemma handle_request_stores:
  assumes "hsm_inv P h"
  shows "wp (handle_request P N A draws h req) (stores P h)"
proof -
  have "wp (handle_status_request h) (stores P h)"
    by (rule wp_mono [OF handle_status_request_same]) (simp add: stores_def)
  then show ?thesis
    using assms unfolding handle_request_def
    by (auto split: HsmRequest.splits intro!: wp_dispatch_stores intro: handle_app_stores handle_handshake_stores
        handle_new_realm_stores handle_join_realm_stores handle_new_group_stores handle_join_group_stores
        handle_become_leader_stores handle_stepdown_as_leader_stores handle_capture_jump_stores
        handle_capture_next_stores handle_persist_state_stores handle_commit_stores handle_transfers_store)
qed

section \<open>Runs\<close>

inductive hsm_step :: "Platform \<Rightarrow> 'o NoiseAlg \<Rightarrow> 'o AppAlg \<Rightarrow> 'o Hsm \<Rightarrow> 'o Hsm \<Rightarrow> bool" for P N A where
  request: "handle_request P N A draws h req = Some (h', r) \<Longrightarrow> hsm_step P N A h h'"
| reboot: "hsm_new P (hsm_options h) (Some (nw_nvram (hsm_writer h))) rnd (hsm_realm_keys h) = Some (Inr h') \<Longrightarrow>
    hsm_step P N A h h'"

inductive_cases hsm_stepE: "hsm_step P N A h h'"

text \<open>A step whose states before and after it have different digests, unless they are stored as the same bytes.\<close>

definition clean_step :: "Platform \<Rightarrow> 'o NoiseAlg \<Rightarrow> 'o AppAlg \<Rightarrow> 'o Hsm \<Rightarrow> 'o Hsm \<Rightarrow> bool" where
  "clean_step P N A h h' \<longleftrightarrow> hsm_step P N A h h' \<and> no_digest_collision P (hsm_persistent h) (hsm_persistent h')"

locale step_invariant =
  fixes step :: "'s \<Rightarrow> 's \<Rightarrow> bool"
    and inv :: "'s \<Rightarrow> bool"
    and le :: "'s \<Rightarrow> 's \<Rightarrow> bool"
  assumes step_inv: "inv s \<Longrightarrow> step s t \<Longrightarrow> inv t"
    and step_le: "inv s \<Longrightarrow> step s t \<Longrightarrow> le s t"
    and le_refl: "le s s"
    and le_trans: "le s t \<Longrightarrow> le t u \<Longrightarrow> le s u"
begin

lemma run_inv: "step\<^sup>*\<^sup>* s t \<Longrightarrow> inv s \<Longrightarrow> inv t"
  by (induction rule: rtranclp_induct) (auto intro: step_inv)

lemma run_le: "step\<^sup>*\<^sup>* s t \<Longrightarrow> inv s \<Longrightarrow> le s t"
proof (induction rule: rtranclp_induct)
  case (step t u)
  then show ?case
    using run_inv step_le le_trans by blast
qed (rule le_refl)

end

text \<open>What holds of an HSM between requests, on a platform that behaves as documented.\<close>

definition hsm_sys_inv :: "Platform \<Rightarrow> 'o Hsm \<Rightarrow> bool" where
  "hsm_sys_inv P h \<longleftrightarrow> platform_ok P \<and> hsm_inv P h \<and> writer_holds P (hsm_writer h) (hsm_persistent h)"

definition persisted_le :: "'o Hsm \<Rightarrow> 'o Hsm \<Rightarrow> bool" where
  "persisted_le h h' \<longleftrightarrow> hsm_realm_keys h' = hsm_realm_keys h \<and> persistent_evolves (hsm_persistent h) (hsm_persistent h')"

lemma group_evolves_trans: "group_evolves a b \<Longrightarrow> group_evolves b c \<Longrightarrow> group_evolves a c"
  by (auto simp: group_evolves_def intro: capture_le_trans)

lemma persistent_evolves_trans:
  assumes "persistent_evolves a b" "persistent_evolves b c"
  shows "persistent_evolves a c"
proof -
  have "\<exists>g'. fmlookup (persistent_groups c) grp = Some g' \<and> group_evolves g g'"
    if "fmlookup (persistent_groups a) grp = Some g" for grp g
    using assms that unfolding persistent_evolves_def by (meson group_evolves_trans)
  then show ?thesis
    using assms unfolding persistent_evolves_def by fastforce
qed

lemma persisted_captures_lookup:
  "fmlookup (persisted_captures s) grp = Option.bind (fmlookup (persistent_groups s) grp) pg_captured"
  by (auto simp: persisted_captures_def persistent_groups_def fmlookup_filter_map split: option.splits)

text \<open>The state of an HSM right after it boots with the persistent state \<open>s\<close>.\<close>

definition booted :: "HsmOptions \<Rightarrow> PersistentState \<Rightarrow> NVRamWriter \<Rightarrow> RealmKeys \<Rightarrow> 'o Hsm" where
  "booted options s w keys = \<lparr>hsm_options = options, hsm_persistent = s, hsm_writer = w,
     volatile_captured = persisted_captures s,
     volatile_groups = fmmap (\<lambda>_. \<lparr>rl_state = Witness, rl_at = role_clock_start\<rparr>) (persistent_groups s),
     hsm_realm_keys = keys\<rparr>"

lemma booted_inv:
  assumes "persistent_inv (pf_mac P) keys s"
  shows "hsm_inv P (booted options s w keys)"
  using assms by (auto simp: hsm_inv_def booted_def role_inv_def persisted_captures_lookup fmlookup_dom_iff
      split: Option.bind_splits)

lemma hsm_new_reboot:
  assumes "platform_ok P" "writer_holds P w s" "persistent_inv (pf_mac P) keys s"
  shows "hsm_new P options (Some (nw_nvram w)) rnd keys =
    Some (Inr (booted options s \<lparr>nw_nvram = nw_nvram w, nw_hash_of_last_write = None\<rparr> keys))"
  using assms(3) read_written [OF assms(1,2)]
  by (auto simp: hsm_new_def booted_def persistent_inv_def persistent_groups_def Let_def split: option.splits)

lemma hsm_new_fresh:
  assumes "hsm_new P options (Some []) rnd keys = Some (Inr h)"
  shows "\<exists>w. h = booted options \<lparr>pst_id = create_random_hsm_id rnd, pst_realm = None\<rparr> w keys \<and>
    writer_holds P w \<lparr>pst_id = create_random_hsm_id rnd, pst_realm = None\<rparr>"
  using assms by (auto simp: hsm_new_def read_persisted_state_def booted_def persistent_groups_def panic_simps Let_def
      writer_finished_def writer_holds_def)

lemma hsm_sys_inv_fresh:
  assumes "platform_ok P" "hsm_new P options (Some []) rnd keys = Some (Inr h)"
  shows "hsm_sys_inv P h"
proof -
  let ?s = "\<lparr>pst_id = create_random_hsm_id rnd, pst_realm = None\<rparr>"
  obtain w where "h = booted options ?s w keys" "writer_holds P w ?s"
    using hsm_new_fresh [OF assms(2)] by blast
  moreover have "hsm_inv P (booted options ?s w keys)"
    by (rule booted_inv) (simp add: persistent_inv_def)
  ultimately show ?thesis
    using assms by (simp add: hsm_sys_inv_def) (simp add: booted_def)
qed

lemma hsm_sys_inv_request:
  assumes "hsm_sys_inv P h" "handle_request P N A draws h req = Some (h', r)"
  shows "no_digest_collision P (hsm_persistent h) (hsm_persistent h') \<Longrightarrow> hsm_sys_inv P h'" "hsm_evolves h h'"
proof -
  have inv: "platform_ok P" "hsm_inv P h" "writer_holds P (hsm_writer h) (hsm_persistent h)"
    using assms(1) by (auto simp: hsm_sys_inv_def)
  have ok: "hsm_inv P h'" "hsm_evolves h h'"
    using wpD [OF handle_request_ok [OF inv(2)] assms(2)] by (auto simp: step_ok_def)
  have "writer_holds P (hsm_writer h') (hsm_persistent h')" if "no_digest_collision P (hsm_persistent h) (hsm_persistent h')"
    using wpD [OF handle_request_stores [OF inv(2)] assms(2)] inv(3) writer_finished_holds [OF inv(3) that]
    unfolding stores_def by fastforce
  then show "no_digest_collision P (hsm_persistent h) (hsm_persistent h') \<Longrightarrow> hsm_sys_inv P h'" "hsm_evolves h h'"
    using ok inv by (simp_all add: hsm_sys_inv_def)
qed

lemma hsm_sys_inv_reboot:
  assumes "hsm_sys_inv P h"
    and "hsm_new P options (Some (nw_nvram (hsm_writer h))) rnd (hsm_realm_keys h) = Some (Inr h')"
  shows "hsm_sys_inv P h'" "hsm_persistent h' = hsm_persistent h" "hsm_realm_keys h' = hsm_realm_keys h"
proof -
  have inv: "platform_ok P" "hsm_inv P h" "writer_holds P (hsm_writer h) (hsm_persistent h)"
    using assms(1) by (auto simp: hsm_sys_inv_def)
  then have p: "persistent_inv (pf_mac P) (hsm_realm_keys h) (hsm_persistent h)"
    by (simp add: hsm_inv_def)
  let ?w = "\<lparr>nw_nvram = nw_nvram (hsm_writer h), nw_hash_of_last_write = None\<rparr>"
  have h': "h' = booted options (hsm_persistent h) ?w (hsm_realm_keys h)"
    using assms(2) by (simp add: hsm_new_reboot [OF inv(1,3) p])
  have "hsm_inv P h'"
    unfolding h' by (rule booted_inv [OF p])
  moreover have "writer_holds P ?w (hsm_persistent h)"
    using inv(3) by (auto simp: writer_holds_def)
  ultimately show "hsm_sys_inv P h'" "hsm_persistent h' = hsm_persistent h" "hsm_realm_keys h' = hsm_realm_keys h"
    using inv(1) unfolding h' by (simp_all add: hsm_sys_inv_def) (simp_all add: booted_def)
qed

lemma clean_step_ok:
  assumes "hsm_sys_inv P h" "clean_step P N A h h'"
  shows "hsm_sys_inv P h' \<and> persisted_le h h'"
proof -
  have distinct: "no_digest_collision P (hsm_persistent h) (hsm_persistent h')"
    using assms(2) by (simp add: clean_step_def)
  from assms(2) have "hsm_step P N A h h'"
    by (simp add: clean_step_def)
  then show ?thesis
  proof cases
    case (request draws req r)
    then show ?thesis
      using hsm_sys_inv_request [OF assms(1) request] distinct by (simp add: persisted_le_def hsm_evolves_def)
  next
    case (reboot rnd)
    then show ?thesis
      using hsm_sys_inv_reboot [OF assms(1) reboot] by (simp add: persisted_le_def)
  qed
qed

interpretation run: step_invariant "clean_step P N A" "hsm_sys_inv P" persisted_le for P N A
proof unfold_locales
  fix s t u
  show "hsm_sys_inv P t" "persisted_le s t" if "hsm_sys_inv P s" "clean_step P N A s t"
    using clean_step_ok [OF that] by auto
  show "persisted_le s s"
    by (simp add: persisted_le_def)
  show "persisted_le s u" if "persisted_le s t" "persisted_le t u"
    using that persistent_evolves_trans unfolding persisted_le_def by metis
qed

section \<open>Properties of runs\<close>

text \<open>
  C1: the invariant of the HSM.  However an HSM that booted with empty storage is driven, by any
  sequence of requests (valid or not) and reboots, it is a member of at most sixteen groups whose
  configurations are sorted, small enough and contain it; every log it leads is a gap-free chain of
  entries with valid MACs, starts at the committed entry and agrees with the Merkle tree it keeps; what it
  has persisted is never ahead of what it has captured; and the storage holds exactly its
  persistent state.  The digests of the states before and after each step must not collide: the
  writer compares them to skip writes.
\<close>

theorem hsm_run_invariant:
  assumes "platform_ok P" "hsm_new P options (Some []) rnd keys = Some (Inr h0)"
    and "(clean_step P N A)\<^sup>*\<^sup>* h0 h"
  shows "hsm_inv P h \<and> read_persisted_state P (Some (nw_nvram (hsm_writer h))) = Inr (Some (hsm_persistent h))"
proof -
  have "hsm_sys_inv P h"
    using run.run_inv [OF assms(3) hsm_sys_inv_fresh [OF assms(1,2)]] .
  then show ?thesis
    using read_written [OF assms(1)] by (simp add: hsm_sys_inv_def)
qed

text \<open>
  C9: a reboot loses no persisted state.  Booting from the storage of a running HSM succeeds, restores its
  identity, realm, groups and persisted captures, and makes it a witness in every group.
\<close>

theorem reboot_restores:
  assumes "hsm_sys_inv P h"
  shows "\<exists>h'. hsm_new P options (Some (nw_nvram (hsm_writer h))) rnd (hsm_realm_keys h) = Some (Inr h') \<and>
    hsm_persistent h' = hsm_persistent h \<and>
    (\<forall>grp. fmlookup (volatile_captured h') grp = Option.bind (fmlookup (persistent_groups (hsm_persistent h)) grp) pg_captured) \<and>
    (\<forall>grp. fmlookup (volatile_groups h') grp =
       map_option (\<lambda>_. \<lparr>rl_state = Witness, rl_at = role_clock_start\<rparr>) (fmlookup (persistent_groups (hsm_persistent h)) grp))"
proof -
  have "platform_ok P" "writer_holds P (hsm_writer h) (hsm_persistent h)"
    "persistent_inv (pf_mac P) (hsm_realm_keys h) (hsm_persistent h)"
    using assms by (auto simp: hsm_sys_inv_def hsm_inv_def)
  then show ?thesis
    by (simp add: hsm_new_reboot) (simp add: booted_def persisted_captures_lookup)
qed

text \<open>The statement an HSM issues for a capture that it has persisted.\<close>

definition issues_capture :: "Platform \<Rightarrow> 'o Hsm \<Rightarrow> GroupId \<Rightarrow> Captured \<Rightarrow> bool" where
  "issues_capture P h grp c \<longleftrightarrow> (\<exists>g r i m. fmlookup (persistent_groups (hsm_persistent h)) grp = Some g \<and>
     pst_realm (hsm_persistent h) = Some r \<and> pg_captured g = Some (i, m) \<and>
     c = \<lparr>cap_hsm = pst_id (hsm_persistent h), cap_realm = pr_id r, cap_group = grp, cap_index = i, cap_mac = m,
       cap_statement = captured_mac (pf_mac P) (hsm_realm_keys h) (pst_id (hsm_persistent h)) (pr_id r) grp i m\<rparr>)"

lemma persist_state_captures:
  assumes "handle_persist_state P h = Some (h', caps)" "fmlookup caps grp = Some c"
  shows "issues_capture P h' grp c"
  using assms by (auto simp: handle_persist_state_def issues_capture_def Let_def panic_simps fmlookup_filter_map
      persistent_groups_def split: option.splits)

lemma persisted_le_captures:
  assumes "persisted_le h h'" "issues_capture P h grp c" "issues_capture P h' grp c'"
  shows "cap_index c \<le> cap_index c' \<and> (cap_index c = cap_index c' \<longrightarrow> c = c')"
proof -
  obtain g g' where g: "fmlookup (persistent_groups (hsm_persistent h)) grp = Some g" "pg_captured g = Some (cap_index c, cap_mac c)"
    "fmlookup (persistent_groups (hsm_persistent h')) grp = Some g'" "pg_captured g' = Some (cap_index c', cap_mac c')"
    using assms(2,3) by (auto simp: issues_capture_def)
  then have "capture_le (pg_captured g) (pg_captured g')"
    using assms(1) by (fastforce simp: persisted_le_def persistent_evolves_def group_evolves_def)
  then have "cap_index c = cap_index c' \<and> cap_mac c = cap_mac c' \<or> cap_index c < cap_index c'"
    by (auto simp: g(2,4) capture_le_def)
  moreover have "c = c'" if "cap_index c = cap_index c'" "cap_mac c = cap_mac c'"
    using assms that by (auto simp: issues_capture_def persisted_le_def persistent_evolves_def)
  ultimately show ?thesis
    by auto
qed

lemma persist_state_request:
  "handle_persist_state P h = Some (h', caps) \<Longrightarrow>
     handle_request P N A draws h ReqPersistState = Some (h', RespPersistState caps)"
  by (simp add: handle_request_def dispatch_request_def)

text \<open>
  C3: an HSM never equivocates.  Of the capture statements that an HSM issues for a group over its
  whole life, across reboots, later ones never go back to an earlier index, and two statements for the same
  index are the same statement, so they name the same log entry.
\<close>

theorem persisted_captures_unique:
  assumes "hsm_sys_inv P h" "handle_persist_state P h = Some (h1, caps1)"
    and "no_digest_collision P (hsm_persistent h) (hsm_persistent h1)" "(clean_step P N A)\<^sup>*\<^sup>* h1 h2"
    and "handle_persist_state P h2 = Some (h3, caps2)" "fmlookup caps1 grp = Some c1" "fmlookup caps2 grp = Some c2"
  shows "cap_index c1 \<le> cap_index c2 \<and> (cap_index c1 = cap_index c2 \<longrightarrow> c1 = c2)"
proof -
  have h1: "hsm_sys_inv P h1"
    using hsm_sys_inv_request(1) [OF assms(1) persist_state_request [OF assms(2)] assms(3)] .
  have "persisted_le h2 h3"
    using hsm_sys_inv_request(2) [OF run.run_inv [OF assms(4) h1] persist_state_request [OF assms(5)]]
    by (simp add: persisted_le_def hsm_evolves_def)
  then have le: "persisted_le h1 h3"
    using run.run_le [OF assms(4) h1] run.le_trans by blast
  show ?thesis
    by (rule persisted_le_captures [OF le persist_state_captures [OF assms(2,6)] persist_state_captures [OF assms(5,7)]])
qed

text \<open>
  C7: an HSM becomes a leader only from a log entry whose MAC is valid and whose index and MAC are the
  last ones it has captured and written to its storage, so that a reboot cannot forget that it captured it.
  A witness then leads with a log of that entry alone, nothing committed, and no other index before the
  next one starts its term.
\<close>

theorem become_leader_durable:
  assumes "hsm_sys_inv P h" "handle_become_leader P h req = Some (h', BecomeLeaderOk status)"
    and "no_digest_collision P (hsm_persistent h) (hsm_persistent h')"
  shows "\<exists>s g role. read_persisted_state P (Some (nw_nvram (hsm_writer h'))) = Inr (Some s) \<and>
    is_group_member s (bl_realm req) (bl_group req) = Inr g \<and>
    pg_captured g = Some (le_index (bl_last_entry req), le_entry_mac (bl_last_entry req)) \<and>
    entry_authentic (pf_mac P) (hsm_realm_keys h) (bl_realm req) (bl_group req) (bl_last_entry req) \<and>
    fmlookup (volatile_groups h) (bl_group req) = Some role \<and>
    (rl_state role = Witness \<longrightarrow> (\<exists>leader. rl_at role + 1 = rs_at status \<and>
       fmlookup (volatile_groups h') (bl_group req) = Some \<lparr>rl_state = Leader leader, rl_at = rl_at role + 1\<rparr> \<and>
       ld_log leader = ll_new (bl_last_entry req) \<and> ld_committed leader = None \<and>
       log_index_next (le_index (bl_last_entry req)) = Some (ld_starting_index leader)))"
proof -
  have inv: "platform_ok P" "hsm_inv P h"
    using assms(1) by (auto simp: hsm_sys_inv_def)
  obtain h1 where h1: "persist_current_captures P h = Some h1"
    using assms(2) by (auto simp: handle_become_leader_def panic_simps)
  note persisted = persist_current_captures_ok [OF inv(2) h1]
  have keys: "hsm_realm_keys h1 = hsm_realm_keys h"
    using persisted(1) [of "()"] by (simp add: step_ok_def hsm_evolves_def)
  obtain g role leader where g: "is_group_member (hsm_persistent h1) (bl_realm req) (bl_group req) = Inr g"
    and role: "fmlookup (volatile_groups h1) (bl_group req) = Some role"
    and cap: "pg_captured g = Some (le_index (bl_last_entry req), le_entry_mac (bl_last_entry req))"
    and auth: "entry_authentic (pf_mac P) (hsm_realm_keys h1) (bl_realm req) (bl_group req) (bl_last_entry req)"
    and leader: "leader_new (bl_last_entry req) (hsm_options h1) = Some leader"
    and h': "h' = set_role (bl_group req) (make_leader role leader) h1" and status: "status = role_status (make_leader role leader)"
    using wpD [OF handle_become_leader_cases [OF h1] assms(2)] by auto
  have "hsm_sys_inv P h'"
    using hsm_sys_inv_request(1) [OF assms(1), of undefined undefined undefined "ReqBecomeLeader req" h' "RespBecomeLeader (BecomeLeaderOk status)"]
      assms(2,3) by (simp add: handle_request_def dispatch_request_def)
  then have "read_persisted_state P (Some (nw_nvram (hsm_writer h'))) = Inr (Some (hsm_persistent h'))"
    using read_written [OF inv(1)] by (simp add: hsm_sys_inv_def)
  moreover have "hsm_persistent h' = hsm_persistent h1"
    by (simp add: h' set_role_def)
  moreover have "rl_state role = Witness \<Longrightarrow> make_leader role leader = \<lparr>rl_state = Leader leader, rl_at = rl_at role + 1\<rparr>"
    by (simp add: make_leader_def role_transition_def have_same_role_def role_clock_next_def)
  ultimately show ?thesis
    using g role cap auth keys persisted(2) leader_new_inv(2-4) [OF leader auth]
    by (auto simp: h' status set_role_def role_status_def)
qed

definition request_step :: "Platform \<Rightarrow> 'o NoiseAlg \<Rightarrow> 'o AppAlg \<Rightarrow> 'o Hsm \<Rightarrow> 'o Hsm \<Rightarrow> bool" where
  "request_step P N A h h' \<longleftrightarrow> (\<exists>draws req r. handle_request P N A draws h req = Some (h', r))"

lemma request_steps_role:
  assumes "(request_step P N A ^^ n) h h'" "hsm_inv P h" "fmlookup (volatile_groups h) grp = Some role"
  shows "hsm_inv P h' \<and> (\<exists>role' k. fmlookup (volatile_groups h') grp = Some role' \<and> k \<le> n \<and>
    rl_at role' = rl_at role + of_nat k \<and> (k = 0 \<longrightarrow> role_progress (rl_state role) (rl_state role')))"
  using assms(1)
proof (induction n arbitrary: h')
  case 0
  then show ?case
    using assms(2,3) by (auto intro!: exI [of _ "0 :: nat"])
next
  case (Suc n)
  then obtain h1 where h1: "(request_step P N A ^^ n) h h1" "request_step P N A h1 h'"
    by auto
  from Suc.IH [OF h1(1)] obtain role1 k where 1: "hsm_inv P h1" "fmlookup (volatile_groups h1) grp = Some role1" "k \<le> n"
    "rl_at role1 = rl_at role + of_nat k" "k = 0 \<longrightarrow> role_progress (rl_state role) (rl_state role1)"
    by blast
  have ok: "hsm_inv P h'" "hsm_evolves h1 h'"
    using h1(2) wpD [OF handle_request_ok [OF 1(1)]] by (fastforce simp: request_step_def step_ok_def)+
  then obtain role' where role': "fmlookup (volatile_groups h') grp = Some role'" "role_evolves role1 role'"
    using 1(2) unfolding hsm_evolves_def by blast
  from role'(2) consider "rl_at role' = rl_at role1" "role_progress (rl_state role1) (rl_state role')"
    | "rl_at role' = rl_at role1 + 1"
    by (auto simp: role_evolves_def role_clock_next_def)
  then show ?case
  proof cases
    case 1
    then show ?thesis
      using ok(1) role'(1) \<open>k \<le> n\<close> \<open>rl_at role1 = _\<close> \<open>k = 0 \<longrightarrow> _\<close> role_progress_trans
      by (intro conjI exI [of _ role'] exI [of _ k]) auto
  next
    case 2
    then show ?thesis
      using ok(1) role'(1) \<open>k \<le> n\<close> \<open>rl_at role1 = _\<close>
      by (intro conjI exI [of _ role'] exI [of _ "Suc k"]) (auto simp: algebra_simps)
  qed
qed

text \<open>
  C8: the role clock identifies a term.  If over fewer than \<open>2 ^ 64\<close> requests (the clock is a 64-bit
  counter that wraps) the role clock of a group shows the same value, then the HSM was in the same
  role throughout: a leader is still the leader of the same term, with the same starting index and at
  least as much committed, and an HSM that is stepping down still leaves the same term.
\<close>

theorem same_clock_same_role:
  assumes "hsm_inv P h" "(request_step P N A ^^ n) h h'" "n < 2 ^ 64"
    and "fmlookup (volatile_groups h) grp = Some role" "fmlookup (volatile_groups h') grp = Some role'"
    and "rl_at role' = rl_at role"
  shows "role_progress (rl_state role) (rl_state role')"
proof -
  obtain k where k: "k \<le> n" "rl_at role' = rl_at role + of_nat k" "k = 0 \<longrightarrow> role_progress (rl_state role) (rl_state role')"
    using request_steps_role [OF assms(2,1,4)] assms(5) by auto
  have "(of_nat k :: 64 word) = 0" "k < 2 ^ LENGTH(64)"
    using k(1,2) assms(3,6) by simp_all
  then have "k = 0"
    by (auto simp: word_of_nat_eq_0_iff dest: dvd_imp_le)
  then show ?thesis
    using k(3) by simp
qed

section \<open>A run of the example\<close>

fun run_requests ::
  "Platform \<Rightarrow> 'o NoiseAlg \<Rightarrow> 'o AppAlg \<Rightarrow> HsmDraws \<Rightarrow> 'o Hsm \<Rightarrow> 'o HsmRequest list \<Rightarrow> 'o Hsm option" where
  "run_requests P N A draws h [] = Some h"
| "run_requests P N A draws h (r # rs) = Option.bind (handle_request P N A draws h r) (\<lambda>(h', _). run_requests P N A draws h' rs)"

lemma run_requests_steps:
  assumes "\<And>s s'. no_digest_collision P s s'"
  shows "run_requests P N A draws h rs = Some h' \<Longrightarrow> (clean_step P N A)\<^sup>*\<^sup>* h h'"
proof (induction rs arbitrary: h)
  case (Cons r rs)
  then obtain h1 x where h1: "handle_request P N A draws h r = Some (h1, x)" "run_requests P N A draws h1 rs = Some h'"
    by (auto simp: panic_simps)
  have "clean_step P N A h h1"
    using hsm_step.request [OF h1(1)] assms by (simp add: clean_step_def)
  then show ?case
    using Cons.IH [OF h1(2)] by (rule converse_rtranclp_into_rtranclp)
qed simp

definition example_noise :: "unit NoiseAlg" where
  "example_noise = \<lparr>noise_start = (\<lambda>_ _ _ _. None), noise_finish = (\<lambda>_ _. None), noise_decrypt = (\<lambda>_ _. None),
     noise_encrypt = (\<lambda>_ _. None), client_ephemeral_public_len = (\<lambda>_. 32), payload_ciphertext_len = (\<lambda>_. 0),
     body_size_limit = 0, secrets_request_from_slice = (\<lambda>_. None), needs_forward_secrecy = (\<lambda>_. True),
     padded_response_to_vec = (\<lambda>_. None), aead_encrypt = (\<lambda>_ _ _. None), aead_decrypt = (\<lambda>_ _ _. None),
     aead_nonce_size = 24\<rparr>"

definition example_draws :: HsmDraws where
  "example_draws = \<lparr>rd_realm = [2], rd_group = [3], rd_nonce = [7], rd_noise = [8],
     rd_app = \<lparr>draw_noise = [], draw_oprf = [], draw_nonce = []\<rparr>\<rparr>"

definition join_requests :: "unit HsmRequest list" where
  "join_requests = [ReqJoinRealm \<lparr>jr_realm = example_realm, jr_peer = hsm_b,
      jr_statement = hsm_realm_mac example_mac_alg example_keys example_realm hsm_b\<rparr>,
    ReqJoinGroup \<lparr>jg_realm = example_realm, jg_group = example_group, jg_configuration = [hsm_a, hsm_b, hsm_c],
      jg_statement = group_configuration_mac example_mac_alg example_keys example_realm example_group
        (GroupConfiguration [hsm_a, hsm_b, hsm_c])\<rparr>]"

definition example_fresh :: "unit Hsm" where
  "example_fresh = booted \<lparr>tree_overlay_size = 20, max_sessions = 10\<rparr> fresh_persistent
     (the (writer_finished example_platform \<lparr>nw_nvram = [], nw_hash_of_last_write = None\<rparr> fresh_persistent)) example_keys"

lemma fresh_encoded: "pf_state_to_vec example_platform fresh_persistent = Some [4]"
  by (simp add: example_platform_def fresh_persistent_def example_persistent_def)

lemma example_boot:
  "hsm_new example_platform \<lparr>tree_overlay_size = 20, max_sessions = 10\<rparr> (Some []) [1] example_keys = Some (Inr example_fresh)"
proof -
  have "\<lparr>pst_id = create_random_hsm_id [1], pst_realm = None\<rparr> = fresh_persistent"
    by (simp add: fresh_persistent_def create_random_hsm_id_def hsm_a_def)
  moreover have "pst_realm fresh_persistent = None" "pf_nvram_write_ok example_platform bs" for bs
    by (simp_all add: fresh_persistent_def example_platform_def)
  ultimately show ?thesis
    by (simp add: hsm_new_def read_persisted_state_def example_fresh_def booted_def persistent_groups_def
        writer_finished_def fresh_encoded rust_assert_def Let_def)
qed

lemma example_join:
  "map_option (\<lambda>h. (map_option rl_at (fmlookup (volatile_groups h) example_group), pst_id (hsm_persistent h)))
     (run_requests example_platform example_noise example_app_alg example_draws example_fresh join_requests) = Some (Some 1, hsm_a)"
  by code_simp

theorem hsm_run_invariant_witness:
  "\<exists>h. run_requests example_platform example_noise example_app_alg example_draws example_fresh join_requests = Some h \<and>
     fmlookup (volatile_groups h) example_group \<noteq> None \<and> hsm_inv example_platform h \<and>
     read_persisted_state example_platform (Some (nw_nvram (hsm_writer h))) = Inr (Some (hsm_persistent h))"
proof -
  obtain h where h: "run_requests example_platform example_noise example_app_alg example_draws example_fresh join_requests = Some h"
    "fmlookup (volatile_groups h) example_group \<noteq> None"
    using example_join by auto
  from hsm_run_invariant [OF example_platform_ok example_boot run_requests_steps [OF example_digest_ok h(1)]]
  show ?thesis
    using h by blast
qed

text \<open>The example's witness that has captured and persisted the first entry.\<close>

definition example_witness :: "unit Hsm" where
  "example_witness = example_hsm_with (Some captured_1) [2] Witness"

lemma example_witness_ok: "hsm_sys_inv example_platform example_witness"
proof -
  have "hsm_inv example_platform example_witness"
    unfolding example_witness_def by (rule example_hsm_inv) (simp add: role_inv_def)
  moreover have "pf_state_to_vec example_platform (example_persistent (Some captured_1)) = Some [2]"
    by (simp add: example_platform_def example_persistent_inject)
  ultimately show ?thesis
    by (simp add: hsm_sys_inv_def example_platform_ok)
      (simp add: example_witness_def example_hsm_with_def writer_holds_def)
qed

theorem reboot_restores_witness:
  "\<exists>h' :: unit Hsm. hsm_new example_platform (hsm_options example_witness) (Some (nw_nvram (hsm_writer example_witness))) [9]
       (hsm_realm_keys example_witness) = Some (Inr h') \<and>
     fmlookup (volatile_captured h') example_group = Some captured_1 \<and>
     fmlookup (volatile_groups h') example_group = Some \<lparr>rl_state = Witness, rl_at = role_clock_start\<rparr>"
  using reboot_restores [OF example_witness_ok, of "hsm_options example_witness" "[9]"]
  by (auto simp: example_witness_def example_hsm_with_def example_persistent_def persistent_groups_def)

lemma example_become_leader:
  "map_option snd (handle_become_leader example_platform example_witness
      \<lparr>bl_realm = example_realm, bl_group = example_group, bl_last_entry = log_entry_1\<rparr>) =
   Some (BecomeLeaderOk \<lparr>rs_role = RoleLeader 2, rs_at = 3\<rparr>)"
  by code_simp

theorem become_leader_durable_witness:
  "\<exists>h' s g. handle_become_leader example_platform example_witness
      \<lparr>bl_realm = example_realm, bl_group = example_group, bl_last_entry = log_entry_1\<rparr> =
      Some (h', BecomeLeaderOk \<lparr>rs_role = RoleLeader 2, rs_at = 3\<rparr>) \<and>
    read_persisted_state example_platform (Some (nw_nvram (hsm_writer h'))) = Inr (Some s) \<and>
    is_group_member s example_realm example_group = Inr g \<and> pg_captured g = Some captured_1"
proof -
  obtain h' where h': "handle_become_leader example_platform example_witness
      \<lparr>bl_realm = example_realm, bl_group = example_group, bl_last_entry = log_entry_1\<rparr> =
      Some (h', BecomeLeaderOk \<lparr>rs_role = RoleLeader 2, rs_at = 3\<rparr>)"
    using example_become_leader by auto
  from become_leader_durable [OF example_witness_ok h' example_digest_ok] show ?thesis
    using h' by (auto simp: captured_1_def log_entry_1)
qed

lemma example_persist_twice:
  "Option.bind (handle_persist_state example_platform example_witness) (\<lambda>(h1, caps1).
     Option.bind (run_requests example_platform example_noise example_app_alg example_draws h1
       [ReqCaptureNext \<lparr>cn_realm = example_realm, cn_group = example_group, cn_entries = [log_entry_2]\<rparr>]) (\<lambda>h2.
     Option.bind (handle_persist_state example_platform h2) (\<lambda>(h3, caps2).
       Some (map_option cap_index (fmlookup caps1 example_group), map_option cap_index (fmlookup caps2 example_group))))) =
   Some (Some 1, Some 2)"
  by code_simp

theorem persisted_captures_unique_witness:
  "\<exists>h1 caps1 h2 h3 caps2 c1 c2. handle_persist_state example_platform example_witness = Some (h1, caps1) \<and>
     (clean_step example_platform example_noise example_app_alg)\<^sup>*\<^sup>* h1 h2 \<and>
     handle_persist_state example_platform h2 = Some (h3, caps2) \<and>
     fmlookup caps1 example_group = Some c1 \<and> fmlookup caps2 example_group = Some c2 \<and>
     cap_index c1 \<le> cap_index c2 \<and> (cap_index c1 = cap_index c2 \<longrightarrow> c1 = c2)"
proof -
  obtain h1 caps1 h2 h3 caps2 c1 c2 where run: "handle_persist_state example_platform example_witness = Some (h1, caps1)"
    "run_requests example_platform example_noise example_app_alg example_draws h1
       [ReqCaptureNext \<lparr>cn_realm = example_realm, cn_group = example_group, cn_entries = [log_entry_2]\<rparr>] = Some h2"
    "handle_persist_state example_platform h2 = Some (h3, caps2)"
    "fmlookup caps1 example_group = Some c1" "fmlookup caps2 example_group = Some c2"
    using example_persist_twice by (auto simp: bind_eq_Some_conv simp del: run_requests.simps)
  note steps = run_requests_steps [OF example_digest_ok run(2)]
  from persisted_captures_unique [OF example_witness_ok run(1) example_digest_ok steps run(3-5)] show ?thesis
    using run(1,3-5) steps by blast
qed

lemma example_commit_clock:
  "map_option (\<lambda>(h', r). map_option rl_at (fmlookup (volatile_groups h') example_group))
     (handle_request example_platform example_noise example_app_alg example_draws example_hsm (ReqCommit example_commit)) =
   Some (Some 2)"
  by code_simp

theorem same_clock_same_role_witness:
  "\<exists>h' role'. request_step example_platform example_noise example_app_alg example_hsm h' \<and>
     fmlookup (volatile_groups h') example_group = Some role' \<and> role_progress (Leader example_leader) (rl_state role')"
proof -
  obtain h' r role' where h': "handle_request example_platform example_noise example_app_alg example_draws example_hsm
      (ReqCommit example_commit) = Some (h', r)"
    "fmlookup (volatile_groups h') example_group = Some role'" "rl_at role' = 2"
    using example_commit_clock by auto
  then have "request_step example_platform example_noise example_app_alg example_hsm h'"
    by (auto simp: request_step_def)
  moreover from this have "(request_step example_platform example_noise example_app_alg ^^ 1) example_hsm h'"
    by (auto simp: OO_def)
  from same_clock_same_role [OF example_hsm_ok this, of example_group "\<lparr>rl_state = Leader example_leader, rl_at = 2\<rparr>" role']
  have "role_progress (Leader example_leader) (rl_state role')"
    using h' by (simp add: example_hsm_def example_hsm_with_def)
  ultimately show ?thesis
    using h'(2) by blast
qed

end
