(* ===== verification/Spec2Isabelle.thy ===== *)
theory Spec2Isabelle
  imports Election LruCache OverlayLimits StoreKeys TransferLimits HsmStep
begin

text \<open>
  A verification library for the Juicebox HSM realm.

  A realm keeps the secrets of its users in groups of hardware security modules (HSMs).  The HSMs
  of a group replicate a log: a leader appends entries, every member captures them and gives
  statements of what it has captured, and the leader commits what a majority has captured.  An entry
  holds the root hash of a Merkle tree over the records the group owns.  The tree itself is in a
  store that the HSMs do not trust: an agent reads the path of a record from the store and sends
  it along with a client's request, the HSM verifies it against a recent root, answers the
  request, and returns the changed nodes.  Ranges of records move between groups by splitting and
  merging the trees.

  \<^bold>\<open>Conventions.\<close>  Stateful code is a function from a state record to the new state and the response.  Code
  that may panic is in the option monad, with \<^const>\<open>None\<close> for a panic; errors that the code
  returns are values of a sum type or constructors of its response type.  Integers have their width
  and wrap as in a release build, whose profile in \<open>src/Cargo.toml\<close> leaves overflow checks off;
  where the code checks for overflow, so does the model.  Hash maps are finite
  maps, B-tree maps sorted association lists.  Code that is not part of the repository is
  the parameter of the definitions that use it: the hash of a node (\<open>NodeHasher\<close>), the keyed hash and the
  CBOR codec (\<open>MacAlg\<close>), storage, digest and codec of the persistent state (\<open>Platform\<close>), sessions
  and encryption (\<open>NoiseAlg\<close>), the oblivious pseudorandom function and the record codec
  (\<open>AppAlg\<close>).  What is relied on of them is named by \<open>hasher_ok\<close>, \<open>platform_ok\<close>,
  \<open>cbor_ok\<close> and \<open>app_alg_ok\<close>.  Collisions are excluded only between the byte strings that a
  statement is about: \<open>no_collision\<close> for two lists of nodes, \<open>mac_no_collision\<close> for two messages,
  \<open>no_digest_collision\<close> for two states.  Random values are arguments.

  \<^bold>\<open>Foundations.\<close>
  \<^item> \<open>Prelude\<close>: bytes, panics, checked arithmetic, shared lemmas.  \<open>BTree\<close>: the ordered map.  \<open>Wp\<close>: weakest preconditions
    for code that may panic, with which the properties of the handlers are proved.
  \<^item> \<open>BitVec\<close> (\<open>src/bitvec\<close>): packed bit strings; each operation refines the one on lists of bits (C36 to C39).
  \<^item> \<open>Ids\<close> (\<open>src/hsm_api/src/lib.rs\<close>): record identifiers as 256-bit numbers, log indexes and owned ranges;
    join, split, overlap and inclusion of ranges are decided exactly (C27 to C30).
  \<^item> \<open>Election\<close> (\<open>src/election\<close>): the index a majority has captured (C24, C25); the locale \<open>quorum_system\<close> is
    interpreted for the majorities of a configuration.
  \<^item> \<open>LruCache\<close> (\<open>src/lru-cache\<close>): the session cache with its counting clock implements a bounded list in order of
    use (C26).

  \<^bold>\<open>The Merkle tree\<close> (\<open>src/hsm_core/src/merkle.rs\<close> and \<open>merkle/\<close>, \<open>src/hsm_api/src/merkle.rs\<close>).
  \<^item> \<open>MerkleNode\<close>: nodes, the bytes hashed for them (C20), and the deltas for the store (C31, C32).
  \<^item> \<open>MerkleProof\<close>: the overlay of recent changes, verification of a proof, and rebuilding its path at the
    latest root.  The loop that does this may fetch any nodes, so that its end is not a matter of its
    definition: \<open>make_latest_loop\<close> is a partial function that tells not ending, panicking and returning apart.
  \<^item> \<open>MerkleTree\<close>: the specification, a compressed binary trie with its nodes and hashes.  A proof that verifies shows
    what the tree holds (C14), and the proof read off a tree verifies (C19).
  \<^item> \<open>MerkleInsert\<close>, \<open>MerkleSplit\<close> with \<open>MerkleSplitTree\<close>, \<open>MerkleMerge\<close> with \<open>MerkleMergeTree\<close>: the operations, and that they
    return the root hashes, ranges and deltas of the tree with the record inserted (C15), of the two halves
    (C16) and of the union (C17).
  \<^item> \<open>MerkleOverlay\<close>: proofs for recent trees are brought up to date, as long as no node is added twice
    (C18).  \<open>OverlayLimits\<close>: what the overlay does not handle, the root it starts with (C34) and a root that comes
    back (C35).

  \<^bold>\<open>The HSM\<close> (\<open>src/hsm_core/src/hsm.rs\<close> and \<open>hsm/\<close>).
  \<^item> \<open>HsmTypes\<close>: log entries, statements, configurations and message authentication codes; statements cannot be
    taken for one another (C10).  \<open>LeaderLog\<close>: the leader's log (C13).
  \<^item> \<open>App\<close>: the records of users and the guess counter (C4, C11, C12).
  \<^item> \<open>HsmState\<close>: the state of an HSM, its roles, storage and boot, and the invariant.  \<open>HsmRealm\<close>, \<open>HsmCommit\<close>,
    \<open>HsmApp\<close>, \<open>HsmTransfer\<close>: one definition for each of the nineteen requests, with every branch.  A
    commit is safe (C2), makes progress (C5) and does not panic (C6).
  \<^item> \<open>HsmStep\<close>: the dispatch and the runs of requests and reboots.  The locale \<open>step_invariant\<close> is interpreted for
    the steps of the HSM.  The invariant holds along every run (C1), captures are
    never taken back (C3), leadership is taken from stored captures (C7), the role clock tells terms
    apart (C8), and a reboot restores what was stored (C9).
  \<^item> \<open>TransferLimits\<close>: a transfer that is refused for its proof leaves a leader that panics (C33).
  \<^item> \<open>HsmExample\<close>: the platform and HSMs of the examples.

  \<^bold>\<open>The store\<close> (\<open>src/store/src/base128.rs\<close>, \<open>src/store/src/merkle.rs\<close>).
  \<^item> \<open>Base128\<close>: the encoder equals plain grouping of the bits by seven (C21).  \<open>StoreKeys\<close>: row keys can be parsed (C22), and
    the row ranges read for a record hold exactly the nodes on its path (C23).

  \<^bold>\<open>Bounds.\<close>  Loops over data are structural recursion or have a termination proof; there is no fuel.  Statements
  about counters carry the number of steps after which a 64-bit counter is exhausted: C8 for the role
  clock, C26 for the clock of the cache.

  \<^bold>\<open>Not modelled.\<close>  Decoding and encoding of requests, metrics and logging around the dispatch.  The agents, load
  balancers, cluster manager and their clients (\<open>agent_core\<close>, \<open>cluster_core\<close>, \<open>load_balancer\<close> and the other
  service crates) are asynchronous tasks over remote calls, timers and retries of a runtime that is not part of
  the repository.  The calls of the store, of Bigtable, Pub/Sub and the secret manager, the vendor's HSM
  library, generated code, command line tools, benchmarks and tests have no logic of their own that
  a theorem could be about without a model of the service they call.
\<close>

end
